(* ===== verification/Prelude.thy ===== *)
theory Prelude
  imports Main "HOL-Library.Word"
begin

unbundle bit_operations_syntax

text \<open>
  Shared vocabulary of the development: the fixed-width integer types of
  \<^verbatim>\<open>stdint.h\<close>, the status codes of \<^verbatim>\<open>hal/hal.h\<close>, little-endian
  byte encodings (all three supported targets are little-endian), and the
  generic list, byte and word lemmas the component theories build on.
\<close>

section \<open>Machine types\<close>

type_synonym u8 = "8 word"
type_synonym u16 = "16 word"
type_synonym u32 = "32 word"
type_synonym u64 = "64 word"
type_synonym bytes = "8 word list"

text \<open>\<^verbatim>\<open>hal_status_t\<close> of \<^verbatim>\<open>hal/hal.h\<close>.\<close>

datatype hal_status =
    HAL_OK
  | HAL_ERROR
  | HAL_TIMEOUT
  | HAL_BUSY
  | HAL_NO_DEVICE
  | HAL_NO_MEMORY
  | HAL_NOT_SUPPORTED

text \<open>\<^verbatim>\<open>hal_arch_t\<close> of \<^verbatim>\<open>hal/hal.h\<close> and its numeric codes.\<close>

datatype hal_arch = HAL_ARCH_X86_64 | HAL_ARCH_AARCH64 | HAL_ARCH_RISCV64

fun hal_arch_code :: "hal_arch \<Rightarrow> u32" where
  "hal_arch_code HAL_ARCH_X86_64 = 0"
| "hal_arch_code HAL_ARCH_AARCH64 = 1"
| "hal_arch_code HAL_ARCH_RISCV64 = 2"

section \<open>Collections of rewrite rules\<close>

named_theorems byte_simps \<open>encodings of integers as bytes\<close>
named_theorems slice_simps \<open>slices of byte lists\<close>
named_theorems range_simps \<open>bounds of machine integers\<close>

section \<open>Bytes and words as numbers\<close>

lemma unat_u8_lt [simp, range_simps]: "unat (b :: u8) < 256"
  using unsigned_less [of b] by simp

lemma unat_u16_lt [range_simps]: "unat (w :: u16) < 65536"
  using unsigned_less [of w] by simp

lemma unat_u32_lt [range_simps]: "unat (w :: u32) < 4294967296"
  using unsigned_less [of w] by simp

lemma unat_u64_lt [range_simps]: "unat (w :: u64) < 18446744073709551616"
  using unsigned_less [of w] by simp

lemma u8_of_nat_unat: "n < 256 \<Longrightarrow> unat (word_of_nat n :: u8) = n"
  by (simp add: unat_of_nat)

text \<open>The value of a little-endian byte string, and the \<open>n\<close> low bytes of a number.\<close>

fun le_val :: "bytes \<Rightarrow> nat" where
  "le_val [] = 0"
| "le_val (b # bs) = unat b + 256 * le_val bs"

fun le_bytes :: "nat \<Rightarrow> nat \<Rightarrow> bytes" where
  "le_bytes 0 v = []"
| "le_bytes (Suc n) v = word_of_nat v # le_bytes n (v div 256)"

lemma length_le_bytes [simp]: "length (le_bytes n v) = n"
  by (induction n arbitrary: v) auto

lemma le_val_bound: "le_val bs < 256 ^ length bs"
proof (induction bs)
  case (Cons b bs)
  then have "le_val bs + 1 \<le> 256 ^ length bs" by simp
  then have "256 * (le_val bs + 1) \<le> 256 * 256 ^ length bs" by simp
  then show ?case using unat_u8_lt [of b] by (simp del: unat_u8_lt)
qed simp

lemma le_val_le_bytes [byte_simps]: "le_val (le_bytes n v) = v mod 256 ^ n"
proof (induction n arbitrary: v)
  case (Suc n)
  have "v mod 256 + 256 * (v div 256 mod 256 ^ n) = v mod (256 * 256 ^ n)"
    by (simp add: mod_mult2_eq)
  with Suc show ?case by (simp add: unat_of_nat)
qed simp

lemma le_bytes_le_val [byte_simps]: "le_bytes (length bs) (le_val bs) = bs"
proof (induction bs)
  case (Cons b bs)
  have "unat (word_of_nat (unat b + 256 * le_val bs) :: u8) = unat b"
    by (simp only: unat_of_nat) simp
  then have "word_of_nat (unat b + 256 * le_val bs) = b"
    by (simp only: word_unat_eq_iff)
  with Cons show ?case by simp
qed simp

lemma le_val_append [byte_simps]:
  "le_val (xs @ ys) = le_val xs + 256 ^ length xs * le_val ys"
  by (induction xs) (auto simp: algebra_simps)

lemma le_val_inject: "length xs = length ys \<Longrightarrow> le_val xs = le_val ys \<Longrightarrow> xs = ys"
  by (metis le_bytes_le_val)

lemma le_val_replicate_0 [simp]: "le_val (replicate n 0) = 0"
  by (induction n) auto

lemma le_bytes_nth: "i < n \<Longrightarrow> le_bytes n v ! i = word_of_nat (v div 256 ^ i)"
proof (induction n arbitrary: i v)
  case (Suc n)
  show ?case
  proof (cases i)
    case (Suc j)
    with Suc.prems Suc.IH [of j "v div 256"] show ?thesis
      by (simp add: div_mult2_eq)
  qed simp
qed simp

lemma byte_of_unat:
  "(word_of_nat (unat w div 256 ^ i) :: u8) = ucast (drop_bit (8 * i) (w :: 'a::len word))"
proof -
  have "(256::nat) ^ i = 2 ^ (8 * i)" by (simp add: power_mult)
  then show ?thesis
    by (intro bit_word_eqI) (simp add: bit_simps flip: drop_bit_eq_div)
qed

lemma bit_u8_ge: "8 \<le> n \<Longrightarrow> \<not> bit (v :: u8) n"
  using bit_imp_le_length [of v n] by auto

lemma bit_u16_ge: "16 \<le> n \<Longrightarrow> \<not> bit (v :: u16) n"
  using bit_imp_le_length [of v n] by auto

lemma le_bytes_split: "le_bytes (a + b) v = le_bytes a v @ le_bytes b (v div 256 ^ a)"
  by (induction a arbitrary: v) (simp_all add: div_mult2_eq)

lemma le_bytes_0: "le_bytes n 0 = replicate n 0"
  by (induction n) simp_all

lemma bit_cons_nat: "a < 256 \<Longrightarrow> bit (a + 256 * b) n \<longleftrightarrow> (if n < 8 then bit a n else bit b (n - 8))" for a b :: nat
proof -
  assume "a < 256"
  then have "int (a + 256 * b) = concat_bit 8 (int a) (int b)"
    by (simp add: concat_bit_eq push_bit_eq_mult take_bit_int_eq_self)
  then have "bit (int (a + 256 * b)) n \<longleftrightarrow> (if n < 8 then bit (int a) n else bit (int b) (n - 8))"
    by (simp add: bit_concat_bit_iff)
  then show ?thesis by (simp only: bit_of_nat_iff_bit)
qed

lemma bit_unat: "bit (unat w) n \<longleftrightarrow> bit w n" for w :: "'a::len word"
  by (simp add: bit_unsigned_iff)

lemma bit_le_val: "bit (le_val bs) n \<longleftrightarrow> n < 8 * length bs \<and> bit (bs ! (n div 8)) (n mod 8)"
proof (induction bs arbitrary: n)
  case (Cons b bs)
  show ?case
  proof (cases "n < 8")
    case True
    then show ?thesis by (simp add: bit_cons_nat bit_unat)
  next
    case False
    then have "n div 8 = Suc ((n - 8) div 8)" "n mod 8 = (n - 8) mod 8"
      by (simp_all add: le_div_geq le_mod_geq)
    then show ?thesis using False Cons [of "n - 8"] by (auto simp: bit_cons_nat)
  qed
qed simp

section \<open>Slices\<close>

text \<open>\<open>slice off len bs\<close> is the sub-array \<^verbatim>\<open>bs[off .. off+len)\<close>.\<close>

definition slice :: "nat \<Rightarrow> nat \<Rightarrow> 'a list \<Rightarrow> 'a list" where
  "slice off len bs = take len (drop off bs)"

lemma length_slice [simp]: "off + len \<le> length bs \<Longrightarrow> length (slice off len bs) = len"
  by (simp add: slice_def)

lemma slice_all [slice_simps]: "slice 0 (length bs) bs = bs"
  by (simp add: slice_def)

lemma slice_append_left [slice_simps]:
  "off + len \<le> length xs \<Longrightarrow> slice off len (xs @ ys) = slice off len xs"
  by (simp add: slice_def)

lemma slice_append_right [slice_simps]:
  "length xs \<le> off \<Longrightarrow> slice off len (xs @ ys) = slice (off - length xs) len ys"
  by (simp add: slice_def)

lemma slice_nth: "i < len \<Longrightarrow> off + len \<le> length bs \<Longrightarrow> slice off len bs ! i = bs ! (off + i)"
  by (simp add: slice_def)

lemma slice_concat:
  "off + a + b \<le> length bs \<Longrightarrow> slice off (a + b) bs = slice off a bs @ slice (off + a) b bs"
  by (simp add: slice_def take_add add.commute)

text \<open>Overwriting a range of an array: \<^verbatim>\<open>memcpy(bs + off, src, length src)\<close>.\<close>

definition patch :: "nat \<Rightarrow> 'a list \<Rightarrow> 'a list \<Rightarrow> 'a list" where
  "patch off src bs = take off bs @ src @ drop (off + length src) bs"

lemma length_patch [simp]:
  "off + length src \<le> length bs \<Longrightarrow> length (patch off src bs) = length bs"
  by (simp add: patch_def)

lemma slice_patch_same [slice_simps]:
  "off + length src \<le> length bs \<Longrightarrow> slice off (length src) (patch off src bs) = src"
  by (simp add: slice_def patch_def)

lemma nth_patch:
  assumes "off + length src \<le> length bs" "i < length bs"
  shows "patch off src bs ! i =
    (if off \<le> i \<and> i < off + length src then src ! (i - off) else bs ! i)"
  using assms by (auto simp: patch_def nth_append min_def)

lemma nth_slice_eqI:
  assumes "length xs = length ys" "\<And>i. i < length xs \<Longrightarrow> xs ! i = ys ! i"
  shows "xs = ys"
  using assms by (rule nth_equalityI)

lemma slice_patch_other [slice_simps]:
  assumes "off + length src \<le> length bs" "o2 + len \<le> length bs"
    and "o2 + len \<le> off \<or> off + length src \<le> o2"
  shows "slice o2 len (patch off src bs) = slice o2 len bs"
  by (rule nth_equalityI) (use assms in \<open>auto simp: slice_nth nth_patch\<close>)

section \<open>Tables\<close>

text \<open>A \<^verbatim>\<open>static const char t[128]\<close> with designated initialisers; the other entries are zero.\<close>

definition char_table :: "(nat \<times> char) list \<Rightarrow> bytes" where
  "char_table entries = fold (\<lambda>(i, c) t. t[i := of_char c]) entries (replicate 128 0)"

lemma take_take_append: "take n (take n xs @ ys) = take n (xs @ ys)"
  by (cases "n \<le> length xs") simp_all

text \<open>A read of an array; \<open>None\<close> is a read past its end.\<close>

definition byte_at :: "'a list \<Rightarrow> nat \<Rightarrow> 'a option" where
  "byte_at bs i = (if i < length bs then Some (bs ! i) else None)"

lemma byte_at_Some [simp]: "i < length bs \<Longrightarrow> byte_at bs i = Some (bs ! i)"
  by (simp add: byte_at_def)

lemma byte_at_past [simp]: "length bs \<le> i \<Longrightarrow> byte_at bs i = None"
  by (simp add: byte_at_def)

section \<open>Little-endian fields\<close>

definition le16 :: "nat \<Rightarrow> bytes \<Rightarrow> u16" where
  "le16 off bs = word_of_nat (le_val (slice off 2 bs))"

definition le32 :: "nat \<Rightarrow> bytes \<Rightarrow> u32" where
  "le32 off bs = word_of_nat (le_val (slice off 4 bs))"

definition le64 :: "nat \<Rightarrow> bytes \<Rightarrow> u64" where
  "le64 off bs = word_of_nat (le_val (slice off 8 bs))"

definition put16 :: "u16 \<Rightarrow> bytes" where
  "put16 w = le_bytes 2 (unat w)"

definition put32 :: "u32 \<Rightarrow> bytes" where
  "put32 w = le_bytes 4 (unat w)"

definition put64 :: "u64 \<Rightarrow> bytes" where
  "put64 w = le_bytes 8 (unat w)"

lemma le_val_slice_bound: "le_val (slice off n bs) < 256 ^ n"
proof -
  have "length (slice off n bs) \<le> n" by (simp add: slice_def)
  then have "(256::nat) ^ length (slice off n bs) \<le> 256 ^ n" by (simp add: power_increasing)
  with le_val_bound [of "slice off n bs"] show ?thesis by linarith
qed

lemma unat_le16 [byte_simps]: "unat (le16 off bs) = le_val (slice off 2 bs)"
  using le_val_slice_bound [of off 2 bs] unfolding le16_def unat_of_nat by simp

lemma unat_le32 [byte_simps]: "unat (le32 off bs) = le_val (slice off 4 bs)"
  using le_val_slice_bound [of off 4 bs] unfolding le32_def unat_of_nat by simp

lemma unat_le64 [byte_simps]: "unat (le64 off bs) = le_val (slice off 8 bs)"
  using le_val_slice_bound [of off 8 bs] unfolding le64_def unat_of_nat by simp

lemma length_put [simp]:
  "length (put16 w) = 2" "length (put32 x) = 4" "length (put64 y) = 8"
  by (simp_all add: put16_def put32_def put64_def)

lemma le_val_put16 [byte_simps]: "le_val (put16 w) = unat w"
  using unat_u16_lt [of w] by (simp add: put16_def le_val_le_bytes)

lemma le_val_put32 [byte_simps]: "le_val (put32 w) = unat w"
  using unat_u32_lt [of w] by (simp add: put32_def le_val_le_bytes)

lemma le_val_put64 [byte_simps]: "le_val (put64 w) = unat w"
  using unat_u64_lt [of w] by (simp add: put64_def le_val_le_bytes)

lemma put64_nth: "i < 8 \<Longrightarrow> put64 w ! i = ucast (drop_bit (8 * i) w)"
  by (simp add: put64_def le_bytes_nth byte_of_unat)

lemma le32_patch_put32 [byte_simps]:
  "off + 4 \<le> length bs \<Longrightarrow> le32 off (patch off (put32 w) bs) = w"
  using slice_patch_same [of off "put32 w" bs] by (simp add: le32_def le_val_put32)

lemma sint_small:
  assumes "unat (w :: u64) < 2 ^ 63"
  shows "sint w = int (unat w)"
proof -
  have u: "uint w = int (unat w)" by (rule uint_nat)
  have "int (unat w) < int (2 ^ 63)" using assms by (simp only: of_nat_less_iff)
  then have lt: "int (unat w) < 2 ^ 63" by (simp only: of_nat_power of_nat_numeral)
  have ge: "- (2 ^ 63) \<le> int (unat w)" by (rule order_trans [of _ 0]) simp_all
  have "signed_take_bit 63 (int (unat w)) = int (unat w)"
    using ge lt by (rule signed_take_bit_int_eq_self)
  then have "signed_take_bit 63 (uint w) = int (unat w)" by (simp only: u)
  moreover have "sint w = signed_take_bit 63 (uint w)" by (simp add: sint_uint)
  ultimately show ?thesis by (rule trans [rotated])
qed

section \<open>Bounded search\<close>

text \<open>
  The first index below \<open>n\<close> with a property: the shape of every table scan
  \<^verbatim>\<open>for (i = lo; i < n; i++) if (P(i)) return i;\<close> of the code.
\<close>

definition find_from :: "nat \<Rightarrow> nat \<Rightarrow> (nat \<Rightarrow> bool) \<Rightarrow> nat option" where
  "find_from lo n P = List.find P [lo..<n]"

lemma find_from_Some:
  "find_from lo n P = Some i \<longleftrightarrow> lo \<le> i \<and> i < n \<and> P i \<and> (\<forall>j. lo \<le> j \<and> j < i \<longrightarrow> \<not> P j)"
proof
  assume "find_from lo n P = Some i"
  then obtain k where k: "k < n - lo" "P (lo + k)" "i = lo + k"
      "\<And>j. j < k \<Longrightarrow> \<not> P (lo + j)"
    by (auto simp: find_from_def find_Some_iff)
  have "\<not> P j" if "lo \<le> j" "j < i" for j
    using k(4) [of "j - lo"] that k(3) by simp
  then show "lo \<le> i \<and> i < n \<and> P i \<and> (\<forall>j. lo \<le> j \<and> j < i \<longrightarrow> \<not> P j)"
    using k by simp
next
  assume *: "lo \<le> i \<and> i < n \<and> P i \<and> (\<forall>j. lo \<le> j \<and> j < i \<longrightarrow> \<not> P j)"
  then have "i - lo < length [lo..<n]" "P ([lo..<n] ! (i - lo))" "i = [lo..<n] ! (i - lo)"
    by auto
  moreover have "\<not> P ([lo..<n] ! j)" if "j < i - lo" for j
    using * that by auto
  ultimately show "find_from lo n P = Some i"
    unfolding find_from_def find_Some_iff by blast
qed

lemma find_from_None: "find_from lo n P = None \<longleftrightarrow> (\<forall>i. lo \<le> i \<and> i < n \<longrightarrow> \<not> P i)"
  by (auto simp: find_from_def find_None_iff)

end
