(* ===== verification/Lib_String.thy ===== *)
theory Lib_String
  imports Prelude
begin

text \<open>
  The runtime library: \<^verbatim>\<open>lib/endian.h\<close> (byte-order helpers) and
  \<^verbatim>\<open>lib/string.c\<close> (\<^verbatim>\<open>memcpy\<close>, \<^verbatim>\<open>memset\<close>, \<^verbatim>\<open>memmove\<close>,
  \<^verbatim>\<open>memcmp\<close>, \<^verbatim>\<open>str_eq\<close>, \<^verbatim>\<open>str_len\<close>, \<^verbatim>\<open>str_copy\<close>).
  The memory routines run on an explicit byte memory, keep the code's three
  loops (align, eight bytes at a time, tail), and read a 64-bit word before it is
  written, so that overlapping buffers behave as in the code.
\<close>

section \<open>Byte order\<close>

definition htons :: "u16 \<Rightarrow> u16" where
  "htons v = drop_bit 8 v OR push_bit 8 v"

definition htonl :: "u32 \<Rightarrow> u32" where
  "htonl v = push_bit 24 (v AND 0xFF) OR push_bit 8 (v AND 0xFF00) OR
             drop_bit 8 (v AND 0xFF0000) OR (drop_bit 24 v AND 0xFF)"

definition ntohs :: "u16 \<Rightarrow> u16" where
  "ntohs v = htons v"

definition ntohl :: "u32 \<Rightarrow> u32" where
  "ntohl v = htonl v"

lemma mask_literals:
  "(0xFF :: u32) = mask 8" "(0xFF00 :: u32) = push_bit 8 (mask 8)"
  "(0xFF0000 :: u32) = push_bit 16 (mask 8)"
  by (simp_all add: mask_eq_exp_minus_1 push_bit_eq_mult)

lemma bit_htons:
  "bit (htons v) n \<longleftrightarrow> n < 16 \<and> bit v (if n < 8 then 8 + n else n - 8)"
  unfolding htons_def by (auto simp: bit_simps bit_u16_ge)

lemma bit_htonl:
  "bit (htonl v) n \<longleftrightarrow> n < 32 \<and>
     bit v (if n < 8 then 24 + n else if n < 16 then 8 + n else if n < 24 then n - 8 else n - 24)"
  unfolding htonl_def mask_literals by (auto simp: bit_simps)

lemma ntohs_htons [simp]: "ntohs (htons v) = v"
  unfolding ntohs_def by (rule bit_word_eqI) (auto simp: bit_htons)

lemma ntohl_htonl [simp]: "ntohl (htonl v) = v"
  unfolding ntohl_def by (rule bit_word_eqI) (auto simp: bit_htonl)

lemma htons_inject [simp]: "htons a = htons b \<longleftrightarrow> a = b"
  by (metis ntohs_htons)

lemma htonl_inject [simp]: "htonl a = htonl b \<longleftrightarrow> a = b"
  by (metis ntohl_htonl)

section \<open>Byte memory\<close>

type_synonym mem = "nat \<Rightarrow> u8"

definition load_bytes :: "mem \<Rightarrow> nat \<Rightarrow> nat \<Rightarrow> bytes" where
  "load_bytes m a n = map m [a..<a + n]"

definition store_bytes :: "nat \<Rightarrow> bytes \<Rightarrow> mem \<Rightarrow> mem" where
  "store_bytes a bs m = (\<lambda>x. if a \<le> x \<and> x < a + length bs then bs ! (x - a) else m x)"

definition load64 :: "mem \<Rightarrow> nat \<Rightarrow> u64" where
  "load64 m a = word_of_nat (le_val (load_bytes m a 8))"

definition store64 :: "nat \<Rightarrow> u64 \<Rightarrow> mem \<Rightarrow> mem" where
  "store64 a w m = store_bytes a (put64 w) m"

text \<open>The contract of a block copy: every destination byte is the old source byte.\<close>

definition copied :: "nat \<Rightarrow> nat \<Rightarrow> nat \<Rightarrow> mem \<Rightarrow> mem" where
  "copied d s n m = (\<lambda>x. if d \<le> x \<and> x < d + n then m (s + (x - d)) else m x)"

definition filled :: "nat \<Rightarrow> u8 \<Rightarrow> nat \<Rightarrow> mem \<Rightarrow> mem" where
  "filled d v n m = (\<lambda>x. if d \<le> x \<and> x < d + n then v else m x)"

lemma length_load_bytes [simp]: "length (load_bytes m a n) = n"
  by (simp add: load_bytes_def)

lemma put64_load64 [simp]: "put64 (load64 m a) = load_bytes m a 8"
proof -
  have "le_val (load_bytes m a 8) < 2 ^ 64"
    using le_val_bound [of "load_bytes m a 8"] by simp
  then have "unat (load64 m a) = le_val (load_bytes m a 8)"
    by (simp add: load64_def unat_of_nat)
  then show ?thesis
    using le_bytes_le_val [of "load_bytes m a 8"] by (simp add: put64_def)
qed

lemma store64_load64 [simp]: "store64 d (load64 m s) m = copied d s 8 m"
  by (rule ext) (auto simp: store64_def store_bytes_def copied_def load_bytes_def)

lemma store_1_copied [simp]: "m(d := m s) = copied d s 1 m"
  by (rule ext) (auto simp: copied_def)

lemma copied_0 [simp]: "copied d s 0 m = m"
  by (rule ext) (auto simp: copied_def)

lemma filled_0 [simp]: "filled d v 0 m = m"
  by (rule ext) (auto simp: filled_def)

lemma load_copied: "load_bytes (copied d s n m) d n = load_bytes m s n"
  by (rule nth_equalityI) (auto simp: load_bytes_def copied_def)

lemma copied_outside: "x < d \<or> d + n \<le> x \<Longrightarrow> copied d s n m x = m x"
  by (auto simp: copied_def)

text \<open>A copy may be split from the front when no later source byte has been
  overwritten, and from the back when no earlier one has.\<close>

lemma copied_split_fwd:
  assumes "d \<le> s \<or> s + n \<le> d" "k \<le> n"
  shows "copied (d + k) (s + k) (n - k) (copied d s k m) = copied d s n m"
  by (rule ext) (use assms in \<open>auto simp: copied_def\<close>)

lemma copied_split_bwd:
  assumes "s \<le> d" "k \<le> n"
  shows "copied d s (n - k) (copied (d + (n - k)) (s + (n - k)) k m) = copied d s n m"
  by (rule ext) (use assms in \<open>auto simp: copied_def\<close>)

lemma filled_split: "k \<le> n \<Longrightarrow> filled (d + k) v (n - k) (filled d v k m) = filled d v n m"
  by (rule ext) (auto simp: filled_def)

section \<open>memcpy\<close>

function copy_align :: "nat \<Rightarrow> nat \<Rightarrow> nat \<Rightarrow> mem \<Rightarrow> nat \<times> nat \<times> nat \<times> mem" where
  "copy_align d s n m =
     (if n \<noteq> 0 \<and> d mod 8 \<noteq> 0 then copy_align (d + 1) (s + 1) (n - 1) (m(d := m s))
      else (d, s, n, m))"
  by pat_completeness auto
termination
  by (relation "measure (\<lambda>(d, s, n, m). n)") auto

function copy_words :: "nat \<Rightarrow> nat \<Rightarrow> nat \<Rightarrow> mem \<Rightarrow> nat \<times> nat \<times> nat \<times> mem" where
  "copy_words d s n m =
     (if n \<ge> 8 then copy_words (d + 8) (s + 8) (n - 8) (store64 d (load64 m s) m)
      else (d, s, n, m))"
  by pat_completeness auto
termination
  by (relation "measure (\<lambda>(d, s, n, m). n)") auto

fun copy_tail :: "nat \<Rightarrow> nat \<Rightarrow> nat \<Rightarrow> mem \<Rightarrow> mem" where
  "copy_tail d s 0 m = m"
| "copy_tail d s (Suc n) m = copy_tail (d + 1) (s + 1) n (m(d := m s))"

definition memcpy :: "nat \<Rightarrow> nat \<Rightarrow> nat \<Rightarrow> mem \<Rightarrow> mem" where
  "memcpy dst src n m =
     (case copy_align dst src n m of (d, s, n1, m1) \<Rightarrow>
      case copy_words d s n1 m1 of (d2, s2, n2, m2) \<Rightarrow> copy_tail d2 s2 n2 m2)"

declare copy_align.simps [simp del] copy_words.simps [simp del]

lemma copy_tail_copied:
  "d \<le> s \<or> s + n \<le> d \<Longrightarrow> copy_tail d s n m = copied d s n m"
proof (induction n arbitrary: d s m)
  case (Suc n)
  then have "d + 1 \<le> s + 1 \<or> s + 1 + n \<le> d + 1" by auto
  from Suc.IH [OF this] Suc.prems show ?case
    using copied_split_fwd [of d s "Suc n" 1 m] by simp
qed simp

text \<open>What a forward loop that has processed a prefix leaves to be done.\<close>

definition fwd_rest :: "nat \<Rightarrow> nat \<Rightarrow> nat \<Rightarrow> mem \<Rightarrow> nat \<times> nat \<times> nat \<times> mem \<Rightarrow> bool" where
  "fwd_rest d s n m r \<longleftrightarrow> (case r of (d', s', n', m') \<Rightarrow>
     (\<exists>k \<le> n. d' = d + k \<and> s' = s + k \<and> n' = n - k \<and> m' = copied d s k m))"

lemma fwd_rest_step:
  assumes ok: "d \<le> s \<or> s + n \<le> d" and k: "k \<le> n"
    and r: "fwd_rest (d + k) (s + k) (n - k) (copied d s k m) r"
  shows "fwd_rest d s n m r"
proof -
  obtain j where j: "j \<le> n - k"
    and r': "r = (d + k + j, s + k + j, n - k - j, copied (d + k) (s + k) j (copied d s k m))"
    using r by (auto simp: fwd_rest_def split: prod.splits)
  have "copied (d + k) (s + k) (k + j - k) (copied d s k m) = copied d s (k + j) m"
    using ok k j by (intro copied_split_fwd) auto
  then show ?thesis
    using j k r' by (auto simp: fwd_rest_def intro!: exI [of _ "k + j"])
qed

lemma copy_align_rest: "d \<le> s \<or> s + n \<le> d \<Longrightarrow> fwd_rest d s n m (copy_align d s n m)"
proof (induction d s n m rule: copy_align.induct)
  case (1 d s n m)
  show ?case
  proof (cases "n \<noteq> 0 \<and> d mod 8 \<noteq> 0")
    case True
    have "d + 1 \<le> s + 1 \<or> s + 1 + (n - 1) \<le> d + 1" using 1(2) True by auto
    from 1(1) [OF True this]
    have "fwd_rest d s n m (copy_align (d + 1) (s + 1) (n - 1) (m(d := m s)))"
      using fwd_rest_step [OF 1(2), of 1 m] True by simp
    with True show ?thesis by (simp add: copy_align.simps [of d s n m])
  next
    case False
    then show ?thesis by (auto simp: copy_align.simps [of d s n m] fwd_rest_def)
  qed
qed

lemma copy_words_rest: "d \<le> s \<or> s + n \<le> d \<Longrightarrow> fwd_rest d s n m (copy_words d s n m)"
proof (induction d s n m rule: copy_words.induct)
  case (1 d s n m)
  show ?case
  proof (cases "n \<ge> 8")
    case True
    have "d + 8 \<le> s + 8 \<or> s + 8 + (n - 8) \<le> d + 8" using 1(2) True by auto
    from 1(1) [OF True this]
    have "fwd_rest d s n m (copy_words (d + 8) (s + 8) (n - 8) (copied d s 8 m))"
      using fwd_rest_step [OF 1(2), of 8 m] True by simp
    with True show ?thesis by (simp add: copy_words.simps [of d s n m])
  next
    case False
    then show ?thesis by (auto simp: copy_words.simps [of d s n m] fwd_rest_def)
  qed
qed

lemma fwd_rest_compose:
  assumes ok: "d \<le> s \<or> s + n \<le> d"
    and r1: "fwd_rest d s n m (d1, s1, n1, m1)"
    and r2: "fwd_rest d1 s1 n1 m1 r"
  shows "fwd_rest d s n m r"
proof -
  from r1 obtain k where "k \<le> n" "d1 = d + k" "s1 = s + k" "n1 = n - k" "m1 = copied d s k m"
    by (auto simp: fwd_rest_def)
  with fwd_rest_step [OF ok] r2 show ?thesis by blast
qed

lemma fwd_rest_finish:
  assumes ok: "d \<le> s \<or> s + n \<le> d" and r: "fwd_rest d s n m (d', s', n', m')"
  shows "copy_tail d' s' n' m' = copied d s n m"
proof -
  from r obtain k where k: "k \<le> n" "d' = d + k" "s' = s + k" "n' = n - k" "m' = copied d s k m"
    by (auto simp: fwd_rest_def)
  then have "d' \<le> s' \<or> s' + n' \<le> d'" using ok by auto
  with k copied_split_fwd [OF ok k(1)] show ?thesis by (simp add: copy_tail_copied)
qed

lemma memcpy_copied:
  assumes ok: "d \<le> s \<or> s + n \<le> d"
  shows "memcpy d s n m = copied d s n m"
proof -
  obtain d1 s1 n1 m1 where 1: "copy_align d s n m = (d1, s1, n1, m1)"
    by (cases "copy_align d s n m")
  obtain d2 s2 n2 m2 where 2: "copy_words d1 s1 n1 m1 = (d2, s2, n2, m2)"
    by (cases "copy_words d1 s1 n1 m1")
  have r1: "fwd_rest d s n m (d1, s1, n1, m1)"
    using copy_align_rest [OF ok, of m] 1 by simp
  then have "d1 \<le> s1 \<or> s1 + n1 \<le> d1"
    using ok by (auto simp: fwd_rest_def)
  then have "fwd_rest d1 s1 n1 m1 (d2, s2, n2, m2)"
    using copy_words_rest 2 by metis
  with fwd_rest_compose [OF ok r1] have "fwd_rest d s n m (d2, s2, n2, m2)" by blast
  from fwd_rest_finish [OF ok this] show ?thesis
    by (simp add: memcpy_def 1 2)
qed

section \<open>memset\<close>

function fill_align :: "nat \<Rightarrow> u8 \<Rightarrow> nat \<Rightarrow> mem \<Rightarrow> nat \<times> nat \<times> mem" where
  "fill_align d v n m =
     (if n \<noteq> 0 \<and> d mod 8 \<noteq> 0 then fill_align (d + 1) v (n - 1) (m(d := v)) else (d, n, m))"
  by pat_completeness auto
termination
  by (relation "measure (\<lambda>(d, v, n, m). n)") auto

function fill_words :: "nat \<Rightarrow> u64 \<Rightarrow> nat \<Rightarrow> mem \<Rightarrow> nat \<times> nat \<times> mem" where
  "fill_words d w n m =
     (if n \<ge> 8 then fill_words (d + 8) w (n - 8) (store64 d w m) else (d, n, m))"
  by pat_completeness auto
termination
  by (relation "measure (\<lambda>(d, w, n, m). n)") auto

fun fill_tail :: "nat \<Rightarrow> u8 \<Rightarrow> nat \<Rightarrow> mem \<Rightarrow> mem" where
  "fill_tail d v 0 m = m"
| "fill_tail d v (Suc n) m = fill_tail (d + 1) v n (m(d := v))"

definition widen :: "u8 \<Rightarrow> u64" where
  "widen v = (let w0 = ucast v :: u64;
                  w1 = w0 OR push_bit 8 w0;
                  w2 = w1 OR push_bit 16 w1
              in w2 OR push_bit 32 w2)"

definition memset :: "nat \<Rightarrow> int \<Rightarrow> nat \<Rightarrow> mem \<Rightarrow> mem" where
  "memset dst c n m =
     (let v = word_of_int c :: u8 in
      case fill_align dst v n m of (d, n1, m1) \<Rightarrow>
      case (if n1 \<ge> 8 then fill_words d (widen v) n1 m1 else (d, n1, m1)) of (d2, n2, m2) \<Rightarrow>
      fill_tail d2 v n2 m2)"

declare fill_align.simps [simp del] fill_words.simps [simp del]

lemma put64_widen: "put64 (widen v) = replicate 8 v"
proof (rule nth_equalityI)
  fix i assume "i < length (put64 (widen v))"
  then have i: "i < 8" by simp
  then have "i \<in> {0,1,2,3,4,5,6,7}" by auto
  then have "ucast (drop_bit (8 * i) (widen v)) = v"
    by (auto intro!: bit_word_eqI simp: widen_def Let_def bit_simps bit_u8_ge)
  then show "put64 (widen v) ! i = replicate 8 v ! i"
    using i by (simp add: put64_nth)
qed simp

lemma store64_widen: "store64 d (widen v) m = filled d v 8 m"
  by (rule ext) (auto simp: store64_def store_bytes_def put64_widen filled_def)

lemma store_1_filled: "m(d := v) = filled d v 1 m"
  by (rule ext) (auto simp: filled_def)

definition fill_rest :: "nat \<Rightarrow> u8 \<Rightarrow> nat \<Rightarrow> mem \<Rightarrow> nat \<times> nat \<times> mem \<Rightarrow> bool" where
  "fill_rest d v n m r \<longleftrightarrow> (case r of (d', n', m') \<Rightarrow>
     (\<exists>k \<le> n. d' = d + k \<and> n' = n - k \<and> m' = filled d v k m))"

lemma fill_rest_step:
  assumes k: "k \<le> n" and r: "fill_rest (d + k) v (n - k) (filled d v k m) r"
  shows "fill_rest d v n m r"
proof -
  obtain j where j: "j \<le> n - k"
    and r': "r = (d + k + j, n - k - j, filled (d + k) v j (filled d v k m))"
    using r by (auto simp: fill_rest_def split: prod.splits)
  have "filled (d + k) v j (filled d v k m) = filled d v (k + j) m"
    using filled_split [of k "k + j" d v m] by simp
  then show ?thesis
    using j k r' by (auto simp: fill_rest_def intro!: exI [of _ "k + j"])
qed

lemma fill_align_rest: "fill_rest d v n m (fill_align d v n m)"
proof (induction d v n m rule: fill_align.induct)
  case (1 d v n m)
  show ?case
  proof (cases "n \<noteq> 0 \<and> d mod 8 \<noteq> 0")
    case True
    with 1 [OF True] show ?thesis
      using fill_rest_step [of 1 n d v m]
      by (simp add: fill_align.simps [of d v n m] store_1_filled)
  next
    case False
    then show ?thesis by (auto simp: fill_align.simps [of d v n m] fill_rest_def)
  qed
qed

lemma fill_words_rest: "fill_rest d v n m (fill_words d (widen v) n m)"
proof (induction n arbitrary: d m rule: less_induct)
  case (less n)
  show ?case
  proof (cases "n \<ge> 8")
    case True
    with less [of "n - 8" "d + 8" "filled d v 8 m"] show ?thesis
      using fill_rest_step [of 8 n d v m]
      by (simp add: fill_words.simps [of d "widen v" n m] store64_widen)
  next
    case False
    then show ?thesis by (auto simp: fill_words.simps [of d "widen v" n m] fill_rest_def)
  qed
qed

lemma fill_tail_filled: "fill_tail d v n m = filled d v n m"
proof (induction n arbitrary: d m)
  case (Suc n)
  then show ?case using filled_split [of 1 "Suc n" d v m] by (simp add: store_1_filled)
qed simp

lemma memset_filled: "memset d c n m = filled d (word_of_int c) n m"
proof -
  let ?v = "word_of_int c :: u8"
  obtain d1 n1 m1 where 1: "fill_align d ?v n m = (d1, n1, m1)"
    by (cases "fill_align d ?v n m")
  obtain d2 n2 m2 where
    2: "(if n1 \<ge> 8 then fill_words d1 (widen ?v) n1 m1 else (d1, n1, m1)) = (d2, n2, m2)"
    by (cases "if n1 \<ge> 8 then fill_words d1 (widen ?v) n1 m1 else (d1, n1, m1)")
  have r1: "fill_rest d ?v n m (d1, n1, m1)"
    using fill_align_rest [of d ?v n m] 1 by simp
  have r2: "fill_rest d1 ?v n1 m1 (d2, n2, m2)"
    using fill_words_rest [of d1 ?v n1 m1] 2 by (auto simp: fill_rest_def split: if_splits)
  obtain j where "j \<le> n" "d1 = d + j" "n1 = n - j" "m1 = filled d ?v j m"
    using r1 by (auto simp: fill_rest_def)
  with r2 fill_rest_step have "fill_rest d ?v n m (d2, n2, m2)" by blast
  then obtain k where "k \<le> n" "d2 = d + k" "n2 = n - k" "m2 = filled d ?v k m"
    by (auto simp: fill_rest_def)
  then show ?thesis
    using 2 filled_split [of k n d ?v m]
    by (simp add: memset_def Let_def 1 fill_tail_filled)
qed

section \<open>memmove\<close>

function copy_align_back :: "nat \<Rightarrow> nat \<Rightarrow> nat \<Rightarrow> mem \<Rightarrow> nat \<times> nat \<times> nat \<times> mem" where
  "copy_align_back d s n m =
     (if n \<noteq> 0 \<and> d mod 8 \<noteq> 0
      then copy_align_back (d - 1) (s - 1) (n - 1) (m(d - 1 := m (s - 1)))
      else (d, s, n, m))"
  by pat_completeness auto
termination
  by (relation "measure (\<lambda>(d, s, n, m). n)") auto

function copy_words_back :: "nat \<Rightarrow> nat \<Rightarrow> nat \<Rightarrow> mem \<Rightarrow> nat \<times> nat \<times> nat \<times> mem" where
  "copy_words_back d s n m =
     (if n \<ge> 8
      then copy_words_back (d - 8) (s - 8) (n - 8) (store64 (d - 8) (load64 m (s - 8)) m)
      else (d, s, n, m))"
  by pat_completeness auto
termination
  by (relation "measure (\<lambda>(d, s, n, m). n)") auto

fun copy_tail_back :: "nat \<Rightarrow> nat \<Rightarrow> nat \<Rightarrow> mem \<Rightarrow> mem" where
  "copy_tail_back d s 0 m = m"
| "copy_tail_back d s (Suc n) m = copy_tail_back (d - 1) (s - 1) n (m(d - 1 := m (s - 1)))"

definition memmove :: "nat \<Rightarrow> nat \<Rightarrow> nat \<Rightarrow> mem \<Rightarrow> mem" where
  "memmove dst src n m =
     (if dst < src \<or> dst \<ge> src + n then
        (case copy_align dst src n m of (d, s, n1, m1) \<Rightarrow>
         case copy_words d s n1 m1 of (d2, s2, n2, m2) \<Rightarrow> copy_tail d2 s2 n2 m2)
      else
        (case copy_align_back (dst + n) (src + n) n m of (d, s, n1, m1) \<Rightarrow>
         case copy_words_back d s n1 m1 of (d2, s2, n2, m2) \<Rightarrow> copy_tail_back d2 s2 n2 m2))"

declare copy_align_back.simps [simp del] copy_words_back.simps [simp del]

text \<open>
  The backward loops hold end pointers.  \<open>bwd_rest\<close> says that the last \<open>k\<close> bytes of a
  copy of \<open>n\<close> bytes to \<open>d\<close> are done and the end pointers have moved down by \<open>k\<close>.
\<close>

definition bwd_rest :: "nat \<Rightarrow> nat \<Rightarrow> nat \<Rightarrow> mem \<Rightarrow> nat \<times> nat \<times> nat \<times> mem \<Rightarrow> bool" where
  "bwd_rest d s n m r \<longleftrightarrow> (case r of (de, se, n', m') \<Rightarrow>
     n' \<le> n \<and> de = d + n' \<and> se = s + n' \<and> m' = copied (d + n') (s + n') (n - n') m)"

lemma bwd_rest_step:
  assumes sd: "s \<le> d" and r: "bwd_rest d s n m (d + n', s + n', n', m')" and k: "k \<le> n'"
  shows "bwd_rest d s n m (d + n' - k, s + n' - k, n' - k, copied (d + n' - k) (s + n' - k) k m')"
proof -
  have m': "n' \<le> n" "m' = copied (d + n') (s + n') (n - n') m"
    using r by (auto simp: bwd_rest_def)
  have "copied (d + (n' - k)) (s + (n' - k)) k (copied (d + n') (s + n') (n - n') m)
      = copied (d + (n' - k)) (s + (n' - k)) (n - (n' - k)) m"
    by (rule ext) (use sd k m'(1) in \<open>auto simp: copied_def\<close>)
  with k m' show ?thesis by (auto simp: bwd_rest_def)
qed

lemma copy_align_back_rest:
  "s \<le> d \<Longrightarrow> bwd_rest d s n m (d + n', s + n', n', m') \<Longrightarrow>
   bwd_rest d s n m (copy_align_back (d + n') (s + n') n' m')"
proof (induction n' arbitrary: m')
  case 0
  then show ?case by (simp add: copy_align_back.simps)
next
  case (Suc n')
  from bwd_rest_step [OF Suc.prems, of 1] Suc.IH [OF Suc.prems(1)] Suc.prems(2)
  show ?case
    by (auto simp: copy_align_back.simps [of "Suc (d + n')" "Suc (s + n')" "Suc n'" m'])
qed

lemma copy_words_back_rest:
  "s \<le> d \<Longrightarrow> bwd_rest d s n m (d + n', s + n', n', m') \<Longrightarrow>
   bwd_rest d s n m (copy_words_back (d + n') (s + n') n' m')"
proof (induction n' arbitrary: m' rule: less_induct)
  case (less n')
  show ?case
  proof (cases "n' \<ge> 8")
    case True
    have "bwd_rest d s n m (d + (n' - 8), s + (n' - 8), n' - 8,
            copied (d + n' - 8) (s + n' - 8) 8 m')"
      using bwd_rest_step [OF less.prems, of 8] True by simp
    with less.IH [of "n' - 8"] less.prems(1) True show ?thesis
      by (simp add: copy_words_back.simps [of "d + n'" "s + n'" n' m'])
  next
    case False
    with less.prems show ?thesis
      by (simp add: copy_words_back.simps [of "d + n'" "s + n'" n' m'])
  qed
qed

lemma copy_tail_back_copied:
  "s \<le> d \<Longrightarrow> copy_tail_back (d + n) (s + n) n m = copied d s n m"
proof (induction n arbitrary: m)
  case (Suc n)
  then show ?case using copied_split_bwd [of s d 1 "Suc n" m] by simp
qed simp

lemma bwd_rest_finish:
  assumes "s \<le> d" "bwd_rest d s n m (de, se, n', m')"
  shows "copy_tail_back de se n' m' = copied d s n m"
  using assms copied_split_bwd [of s d "n - n'" n m]
  by (auto simp: bwd_rest_def copy_tail_back_copied)

lemma memmove_copied: "memmove d s n m = copied d s n m"
proof (cases "d < s \<or> d \<ge> s + n")
  case True
  then have "memmove d s n m = memcpy d s n m" by (simp add: memmove_def memcpy_def)
  with True show ?thesis by (auto simp: memcpy_copied)
next
  case False
  then have sd: "s \<le> d" by simp
  obtain d1 s1 n1 m1 where 1: "copy_align_back (d + n) (s + n) n m = (d1, s1, n1, m1)"
    by (cases "copy_align_back (d + n) (s + n) n m")
  obtain d2 s2 n2 m2 where 2: "copy_words_back d1 s1 n1 m1 = (d2, s2, n2, m2)"
    by (cases "copy_words_back d1 s1 n1 m1")
  have "bwd_rest d s n m (d + n, s + n, n, m)" by (simp add: bwd_rest_def)
  from copy_align_back_rest [OF sd this] have r1: "bwd_rest d s n m (d1, s1, n1, m1)"
    by (simp add: 1)
  then have "d1 = d + n1" "s1 = s + n1" by (auto simp: bwd_rest_def)
  with copy_words_back_rest [OF sd, of n m n1 m1] r1 2
  have "bwd_rest d s n m (d2, s2, n2, m2)" by simp
  from bwd_rest_finish [OF sd this] False show ?thesis
    by (simp add: memmove_def 1 2)
qed

section \<open>memcmp\<close>

fun memcmp :: "mem \<Rightarrow> nat \<Rightarrow> nat \<Rightarrow> nat \<Rightarrow> int" where
  "memcmp m a b 0 = 0"
| "memcmp m a b (Suc n) =
     (if m a \<noteq> m b then int (unat (m a)) - int (unat (m b)) else memcmp m (a + 1) (b + 1) n)"

lemma load_bytes_Suc: "load_bytes m a (Suc n) = m a # load_bytes m (a + 1) n"
  by (simp add: load_bytes_def upt_rec)

lemma load_bytes_0 [simp]: "load_bytes m a 0 = []"
  by (simp add: load_bytes_def)

lemma memcmp_zero_iff: "memcmp m a b n = 0 \<longleftrightarrow> load_bytes m a n = load_bytes m b n"
  by (induction m a b n rule: memcmp.induct) (auto simp: load_bytes_Suc word_uint_eq_iff)

section \<open>Strings\<close>

text \<open>A NUL-terminated string \<open>s\<close> (without its terminator) stored at address \<open>a\<close>.\<close>

definition is_cstr :: "mem \<Rightarrow> nat \<Rightarrow> bytes \<Rightarrow> bool" where
  "is_cstr m a s \<longleftrightarrow> load_bytes m a (length s) = s \<and> 0 \<notin> set s \<and> m (a + length s) = 0"

partial_function (option) str_eq :: "mem \<Rightarrow> nat \<Rightarrow> nat \<Rightarrow> int option" where
  "str_eq m a b =
     (if m a \<noteq> 0 \<and> m b \<noteq> 0 then
        (if m a \<noteq> m b then Some 0 else str_eq m (a + 1) (b + 1))
      else Some (if m a = m b then 1 else 0))"

declare str_eq.simps [code]

partial_function (option) str_len_from :: "mem \<Rightarrow> nat \<Rightarrow> u32 \<Rightarrow> u32 option" where
  "str_len_from m s n = (if m (s + unat n) \<noteq> 0 then str_len_from m s (n + 1) else Some n)"

declare str_len_from.simps [code]

definition str_len :: "mem \<Rightarrow> nat \<Rightarrow> u32 option" where
  "str_len m s = str_len_from m s 0"

function str_copy_loop :: "nat \<Rightarrow> nat \<Rightarrow> nat \<Rightarrow> nat \<Rightarrow> mem \<Rightarrow> nat \<times> mem" where
  "str_copy_loop dst src mx i m =
     (if i + 1 < mx \<and> m (src + i) \<noteq> 0
      then str_copy_loop dst src mx (i + 1) (m(dst + i := m (src + i)))
      else (i, m))"
  by pat_completeness auto
termination
  by (relation "measure (\<lambda>(dst, src, mx, i, m). mx - i)") auto

definition str_copy :: "nat \<Rightarrow> nat \<Rightarrow> u32 \<Rightarrow> mem \<Rightarrow> mem" where
  "str_copy dst src mx m =
     (case str_copy_loop dst src (unat mx) 0 m of (i, m1) \<Rightarrow>
        if mx > 0 then m1(dst + i := 0) else m1)"

declare str_copy_loop.simps [simp del]

lemma is_cstr_Nil [simp]: "is_cstr m a [] \<longleftrightarrow> m a = 0"
  by (simp add: is_cstr_def load_bytes_def)

lemma is_cstr_Cons [simp]:
  "is_cstr m a (c # s) \<longleftrightarrow> m a = c \<and> c \<noteq> 0 \<and> is_cstr m (a + 1) s"
  by (auto simp: is_cstr_def load_bytes_Suc)

lemma is_cstr_nth: "is_cstr m a s \<Longrightarrow> i < length s \<Longrightarrow> m (a + i) = s ! i \<and> s ! i \<noteq> 0"
proof (induction s arbitrary: a i)
  case (Cons c s)
  then show ?case using Cons.IH [of "a + 1" "i - 1"] by (cases i) auto
qed simp

lemma is_cstr_end: "is_cstr m a s \<Longrightarrow> m (a + length s) = 0"
  by (simp add: is_cstr_def)

lemma str_eq_cstr:
  "is_cstr m a s \<Longrightarrow> is_cstr m b t \<Longrightarrow> str_eq m a b = Some (if s = t then 1 else 0)"
proof (induction s arbitrary: a b t)
  case Nil
  then show ?case by (cases t) (auto simp: str_eq.simps)
next
  case (Cons c s)
  then show ?case by (cases t) (auto simp: str_eq.simps [of m a b])
qed

lemma str_len_from_cstr:
  assumes "is_cstr m a s" "length s < 2 ^ 32" "k \<le> length s"
  shows "str_len_from m a (word_of_nat k) = Some (word_of_nat (length s))"
  using assms(3)
proof (induction rule: inc_induct)
  case base
  have "unat (word_of_nat (length s) :: u32) = length s"
    using assms(2) by (simp add: unat_of_nat)
  then show ?case using is_cstr_end [OF assms(1)] by (simp add: str_len_from.simps)
next
  case (step n)
  have "unat (word_of_nat n :: u32) = n"
    using assms(2) step.hyps by (simp add: unat_of_nat)
  moreover have "(word_of_nat n :: u32) + 1 = word_of_nat (Suc n)" by (simp add: add.commute)
  ultimately show ?case
    using step.IH step.hyps is_cstr_nth [OF assms(1), of n]
    by (simp only: str_len_from.simps [of m a "word_of_nat n"]) simp
qed

lemma str_len_cstr:
  "is_cstr m a s \<Longrightarrow> length s < 2 ^ 32 \<Longrightarrow> str_len m a = Some (word_of_nat (length s))"
  using str_len_from_cstr [of m a s 0] by (simp add: str_len_def)

text \<open>The copy loop stops after \<open>min (max - 1) (length s)\<close> characters.\<close>

lemma str_copy_loop_spec:
  assumes s: "is_cstr m src s" and mx: "0 < mx"
    and dis: "dst + mx \<le> src \<or> src + length s < dst"
    and k: "i \<le> min (mx - 1) (length s)"
  shows "str_copy_loop dst src mx i (copied dst src i m) =
    (min (mx - 1) (length s), copied dst src (min (mx - 1) (length s)) m)"
  using k
proof (induction rule: inc_induct)
  case base
  have "copied dst src (min (mx - 1) (length s)) m (src + length s) = 0"
    using is_cstr_end [OF s] dis by (auto simp: copied_def)
  then show ?case
    by (subst str_copy_loop.simps) (auto simp: min_def split: if_splits)
next
  case (step i)
  have src_i: "copied dst src i m (src + i) = m (src + i)" "m (src + i) \<noteq> 0" "i + 1 < mx"
    using step.hyps is_cstr_nth [OF s, of i] dis by (auto simp: copied_def)
  have "(copied dst src i m)(dst + i := m (src + i)) = copied dst src (Suc i) m"
    by (rule ext) (auto simp: copied_def)
  with src_i step.IH show ?case
    by (simp add: str_copy_loop.simps [of dst src mx i "copied dst src i m"])
qed

lemma is_cstr_copied:
  assumes s: "is_cstr m src s" and k: "k \<le> length s"
  shows "is_cstr ((copied dst src k m)(dst + k := 0)) dst (take k s)"
proof -
  have "load_bytes ((copied dst src k m)(dst + k := 0)) dst k = take k s"
    by (rule nth_equalityI)
      (use k is_cstr_nth [OF s] in \<open>auto simp: load_bytes_def copied_def\<close>)
  moreover have "0 \<notin> set (take k s)"
    using s by (auto simp: is_cstr_def dest: in_set_takeD)
  ultimately show ?thesis using k by (simp add: is_cstr_def min_def)
qed

lemma str_copy_spec:
  assumes s: "is_cstr m src s" and mx: "0 < unat mx"
    and dis: "dst + unat mx \<le> src \<or> src + length s < dst"
  shows "is_cstr (str_copy dst src mx m) dst (take (unat mx - 1) s)"
    and "x < dst \<or> dst + unat mx \<le> x \<Longrightarrow> str_copy dst src mx m x = m x"
proof -
  let ?k = "min (unat mx - 1) (length s)"
  have eq: "str_copy dst src mx m = (copied dst src ?k m)(dst + ?k := 0)"
    using str_copy_loop_spec [OF s mx dis, of 0] mx
    by (simp add: str_copy_def word_less_nat_alt)
  have "take ?k s = take (unat mx - 1) s" by (simp add: min_def)
  then show "is_cstr (str_copy dst src mx m) dst (take (unat mx - 1) s)"
    using is_cstr_copied [OF s, of ?k dst] by (simp add: eq)
  show "str_copy dst src mx m x = m x" if "x < dst \<or> dst + unat mx \<le> x"
    using that mx by (auto simp: eq copied_def)
qed

section \<open>Properties\<close>

text \<open>
  C34. \<^verbatim>\<open>memmove\<close>, for every overlap and alignment of the two areas, leaves in the
  destination the bytes the source held before the call, and changes nothing outside the
  destination.
\<close>

theorem memmove_correct:
  "load_bytes (memmove d s n m) d n = load_bytes m s n \<and>
   (\<forall>x. x < d \<or> d + n \<le> x \<longrightarrow> memmove d s n m x = m x)"
  by (simp add: memmove_copied load_copied copied_outside)

theorem memmove_correct_witness:
  "load_bytes (memmove 101 100 20 (\<lambda>x. word_of_nat x)) 101 20 = map word_of_nat [100..<120] \<and>
   memmove 101 100 20 (\<lambda>x. word_of_nat x) 121 = 121"
  using memmove_correct [of 101 100 20 "\<lambda>x. word_of_nat x"]
  by (auto simp: load_bytes_def map_add_upt upt_rec)

text \<open>
  The word-at-a-time \<^verbatim>\<open>memcpy\<close> copies exactly the source bytes whenever the
  destination does not start inside the source area.
\<close>

theorem memcpy_correct:
  assumes "d \<le> s \<or> s + n \<le> d"
  shows "load_bytes (memcpy d s n m) d n = load_bytes m s n \<and>
         (\<forall>x. x < d \<or> d + n \<le> x \<longrightarrow> memcpy d s n m x = m x)"
  using assms by (simp add: memcpy_copied load_copied copied_outside)

theorem memcpy_correct_witness:
  "load_bytes (memcpy 3 100 20 (\<lambda>x. word_of_nat x)) 3 20 = load_bytes (\<lambda>x. word_of_nat x) 100 20"
  using memcpy_correct [of 3 100 20] by simp

text \<open>
  \<^verbatim>\<open>str_copy\<close> into a separate buffer of \<open>mx\<close> bytes stores the longest prefix of
  the source that fits with its terminator, and writes nothing outside that buffer.
\<close>

theorem str_copy_correct:
  assumes "is_cstr m src s" "0 < unat mx" "dst + unat mx \<le> src \<or> src + length s < dst"
  shows "is_cstr (str_copy dst src mx m) dst (take (unat mx - 1) s) \<and>
         (\<forall>x. x < dst \<or> dst + unat mx \<le> x \<longrightarrow> str_copy dst src mx m x = m x)"
  using str_copy_spec [OF assms] by blast

theorem str_copy_correct_witness:
  "is_cstr (str_copy 50 10 3 ((\<lambda>x. 0)(10 := 65, 11 := 66, 12 := 67))) 50 [65, 66]"
  using str_copy_correct [of "(\<lambda>x. 0)(10 := 65, 11 := 66, 12 := 67)" 10 "[65, 66, 67]" 3 50]
  by simp

end
