(* ===== verification/Checksum.thy ===== *)
theory Checksum
  imports Prelude
begin

text \<open>
  The Internet checksum of \<^verbatim>\<open>net/checksum.h\<close>: 16-bit little-endian loads
  summed into a 32-bit accumulator, folded, and complemented.  The summation loop is shared
  with \<^verbatim>\<open>tcp_checksum\<close>.  The specification is the one's complement sum with an
  end-around carry at every addition (RFC 1071).
\<close>

section \<open>The code\<close>

fun sum_words :: "u32 \<Rightarrow> bytes \<Rightarrow> u32" where
  "sum_words acc (a # b # bs) = sum_words (acc + ucast (le16 0 [a, b])) bs"
| "sum_words acc [a] = acc + ucast a"
| "sum_words acc [] = acc"

lemma split16: "n mod 65536 + 65536 * (n div 65536) = (n :: nat)"
  using mod_mult_div_eq [of n 65536] by simp

lemma unat_low16: "unat ((s :: u32) AND 0xFFFF) = unat s mod 65536"
proof -
  have "(0xFFFF :: u32) = mask 16" by (simp add: mask_eq_exp_minus_1)
  then have "s AND 0xFFFF = take_bit 16 s" by (simp add: take_bit_eq_mask)
  then show ?thesis by (simp add: take_bit_eq_mod unat_mod)
qed

lemma unat_high16: "unat (drop_bit 16 (s :: u32)) = unat s div 65536"
  by (simp add: drop_bit_eq_div unat_div)

lemma unat_fold_step:
  "unat (((s :: u32) AND 0xFFFF) + drop_bit 16 s) = unat s mod 65536 + unat s div 65536"
proof -
  have "unat s < 2 ^ 32" using unat_u32_lt [of s] by simp
  then have "unat s mod 65536 + unat s div 65536 < 2 ^ 32"
    using split16 [of "unat s"] by linarith
  then show ?thesis by (simp add: unat_word_ariths unat_low16 unat_high16)
qed

lemma fold_step_less:
  assumes "drop_bit 16 (s :: u32) \<noteq> 0"
  shows "unat ((s AND 0xFFFF) + drop_bit 16 s) < unat s"
proof -
  have "unat s div 65536 \<noteq> 0"
    using assms unat_high16 [of s] by (metis unat_eq_zero)
  then show ?thesis
    using split16 [of "unat s"] unfolding unat_fold_step by linarith
qed

function fold16 :: "u32 \<Rightarrow> u32" where
  "fold16 s = (if drop_bit 16 s \<noteq> 0 then fold16 ((s AND 0xFFFF) + drop_bit 16 s) else s)"
  by pat_completeness auto
termination
  by (relation "measure unat") (auto simp: fold_step_less)

declare fold16.simps [simp del]

definition ip_checksum :: "bytes \<Rightarrow> u16" where
  "ip_checksum data = ucast (NOT (fold16 (sum_words 0 data)))"

section \<open>The one's complement sum\<close>

definition ones_add :: "nat \<Rightarrow> nat \<Rightarrow> nat" where
  "ones_add a b = (if a + b < 65536 then a + b else a + b - 65535)"

fun ones_sum :: "nat \<Rightarrow> bytes \<Rightarrow> nat" where
  "ones_sum acc (a # b # bs) = ones_sum (ones_add acc (unat a + 256 * unat b)) bs"
| "ones_sum acc [a] = ones_add acc (unat a)"
| "ones_sum acc [] = acc"

text \<open>The plain sum of the 16-bit words.\<close>

fun word_sum :: "bytes \<Rightarrow> nat" where
  "word_sum (a # b # bs) = (unat a + 256 * unat b) + word_sum bs"
| "word_sum [a] = unat a"
| "word_sum [] = 0"

lemma pair_le: "unat (a :: u8) + 256 * unat (b :: u8) \<le> 65535"
  using unat_u8_lt [of a] unat_u8_lt [of b] by linarith

lemma word_sum_bound: "word_sum bs \<le> 65535 * ((length bs + 1) div 2)"
proof (induction bs rule: word_sum.induct)
  case (1 a b bs)
  then show ?case using pair_le [of a b] by simp
next
  case (2 a)
  then show ?case using unat_u8_lt [of a] by (simp del: unat_u8_lt)
qed simp

lemma unat_ucast_le16: "unat (ucast (le16 0 [a, b]) :: u32) = unat a + 256 * unat b"
proof -
  have "unat (le16 0 [a, b]) = unat a + 256 * unat b"
    by (simp add: unat_le16 slice_def)
  then show ?thesis using pair_le [of a b] by (simp add: unsigned_ucast_eq take_bit_eq_mod)
qed

lemma unat_ucast_byte: "unat (ucast (a :: u8) :: u32) = unat a"
  using unat_u8_lt [of a] by (simp add: unsigned_ucast_eq take_bit_eq_mod del: unat_u8_lt)

lemma unat_sum_words: "unat (sum_words s bs) = (unat s + word_sum bs) mod 2 ^ 32"
proof (induction s bs rule: sum_words.induct)
  case (1 s a b bs)
  have "unat (s + ucast (le16 0 [a, b])) = (unat s + (unat a + 256 * unat b)) mod 2 ^ 32"
    by (simp add: unat_word_ariths unat_ucast_le16)
  with 1 show ?case by (simp only: sum_words.simps word_sum.simps mod_add_left_eq add.assoc)
next
  case (2 s a)
  then show ?case by (simp add: unat_word_ariths unat_ucast_byte)
next
  case (3 s)
  then show ?case using unat_u32_lt [of s] by simp
qed

lemma fold16_props:
  "unat (fold16 s) < 65536 \<and> unat (fold16 s) mod 65535 = unat s mod 65535 \<and>
   (unat (fold16 s) = 0 \<longleftrightarrow> unat s = 0)"
proof (induction s rule: fold16.induct)
  case (1 s)
  show ?case
  proof (cases "drop_bit 16 s \<noteq> 0")
    case True
    have t: "unat s = (unat s mod 65536 + unat s div 65536) + 65535 * (unat s div 65536)"
      using split16 [of "unat s"] by linarith
    then have "unat s mod 65535 = (unat s mod 65536 + unat s div 65536) mod 65535"
      by (metis mod_mult_self2)
    moreover have "unat s mod 65536 + unat s div 65536 = 0 \<longleftrightarrow> unat s = 0"
      using split16 [of "unat s"] by auto
    ultimately show ?thesis
      using 1 [OF True] by (simp add: fold16.simps [of s] True unat_fold_step)
  next
    case False
    then have "unat s div 65536 = 0"
      using unat_high16 [of s] by simp
    then have "unat s < 65536" using split16 [of "unat s"] by (simp add: div_eq_0_iff)
    with False show ?thesis by (simp add: fold16.simps [of s])
  qed
qed

text \<open>A number and its residue determine the folded sum.\<close>

lemma ones_residue_unique:
  assumes "a < 65536" "b < 65536" "a mod 65535 = b mod 65535" "a = 0 \<longleftrightarrow> b = 0"
  shows "a = (b :: nat)"
proof -
  have m: "x mod 65535 = (if x = 65535 then 0 else x)" if "x < 65536" for x :: nat
    using that by (cases "x = 65535") simp_all
  show ?thesis using assms m [OF assms(1)] m [OF assms(2)] by presburger
qed

lemma ones_add_props:
  assumes "a < 65536" "b < 65536"
  shows "ones_add a b < 65536" "ones_add a b mod 65535 = (a + b) mod 65535"
    "ones_add a b = 0 \<longleftrightarrow> a + b = 0"
proof -
  show "ones_add a b < 65536" using assms by (cases "a + b < 65536") (auto simp: ones_add_def)
  show "ones_add a b mod 65535 = (a + b) mod 65535"
    by (simp add: ones_add_def le_mod_geq)
  show "ones_add a b = 0 \<longleftrightarrow> a + b = 0" by (cases "a + b < 65536") (auto simp: ones_add_def)
qed

lemma ones_sum_props:
  "acc < 65536 \<Longrightarrow> ones_sum acc bs < 65536 \<and>
     ones_sum acc bs mod 65535 = (acc + word_sum bs) mod 65535 \<and>
     (ones_sum acc bs = 0 \<longleftrightarrow> acc + word_sum bs = 0)"
proof (induction acc bs rule: ones_sum.induct)
  case (1 acc a b bs)
  let ?w = "unat a + 256 * unat b"
  have p: "?w < 65536" using pair_le [of a b] by simp
  note add = ones_add_props [OF 1(2) p]
  have "(ones_add acc ?w + word_sum bs) mod 65535 = (acc + ?w + word_sum bs) mod 65535"
    by (rule mod_add_cong [OF add(2) refl])
  moreover have "ones_add acc ?w + word_sum bs = 0 \<longleftrightarrow> acc + ?w + word_sum bs = 0"
    using add(3) by (simp only: add_is_0)
  ultimately show ?case using 1(1) [OF add(1)] 
   by (simp only: ones_sum.simps word_sum.simps add.assoc [symmetric] simp_thms)
next
  case (2 acc a)
  have "unat a < 65536" using unat_u8_lt [of a] by (simp del: unat_u8_lt)
  from ones_add_props [OF 2 this] show ?case by simp
qed simp

lemma fold16_ones_sum:
  assumes "length bs \<le> 131070"
  shows "unat (fold16 (sum_words 0 bs)) = ones_sum 0 bs"
proof -
  have "(length bs + 1) div 2 \<le> 65535" using assms by simp
  then have "word_sum bs < 2 ^ 32" using word_sum_bound [of bs] by simp
  then have "unat (sum_words 0 bs) = word_sum bs" by (simp add: unat_sum_words)
  note props = this fold16_props [of "sum_words 0 bs"] ones_sum_props [of 0 bs]
  show ?thesis by (rule ones_residue_unique) (use props in simp_all)
qed

lemma max_word_16: "(- 1 :: u16) = 65535"
  by simp

lemma unat_not16: "unat (NOT w) = 65535 - unat w" for w :: u16
proof -
  have "NOT w = 65535 - w" by (simp add: not_eq_complement)
  moreover have "w \<le> 65535" using word_order.extremum [of w] by (simp only: max_word_16)
  ultimately show ?thesis by (simp add: unat_sub)
qed

lemma unat_complement16:
  assumes "unat (s :: u32) < 65536"
  shows "unat (ucast (NOT s) :: u16) = 65535 - unat s"
proof -
  have "ucast (NOT s) = (NOT (ucast s) :: u16)"
    by (rule bit_word_eqI) (simp add: bit_simps)
  moreover have "unat (ucast s :: u16) = unat s"
    using assms by (simp add: unsigned_ucast_eq take_bit_eq_mod)
  ultimately show ?thesis by (simp add: unat_not16)
qed

lemma ip_checksum_ones_sum:
  assumes "length data \<le> 131070"
  shows "unat (ip_checksum data) = 65535 - ones_sum 0 data"
  using fold16_ones_sum [OF assms] fold16_props [of "sum_words 0 data"]
  by (simp add: ip_checksum_def unat_complement16)

section \<open>Verification of a filled-in checksum\<close>

lemma word_sum_append: "even (length xs) \<Longrightarrow> word_sum (xs @ ys) = word_sum xs + word_sum ys"
  by (induction xs rule: word_sum.induct) auto

lemma word_sum_put16: "word_sum (put16 w) = unat w"
proof -
  obtain a b where ab: "put16 w = [a, b]"
    by (simp add: put16_def numeral_2_eq_2)
  then have "le_val [a, b] = unat w" using le_val_put16 [of w] by simp
  then show ?thesis by (simp add: ab)
qed

text \<open>Storing the computed checksum in a zeroed field at an even offset makes the
  whole region sum to the all-ones word.\<close>

lemma ones_sum_filled:
  assumes "even (length pre)" "c = 65535 - ones_sum 0 (pre @ [0, 0] @ post)" "unat w = c"
  shows "ones_sum 0 (pre @ put16 w @ post) = 65535"
proof -
  let ?z = "pre @ [0, 0] @ post" and ?f = "pre @ put16 w @ post"
  have z: "word_sum ?z = word_sum pre + word_sum post"
    using assms(1) by (simp add: word_sum_append)
  have f: "word_sum ?f = word_sum pre + unat w + word_sum post"
    using assms(1) by (simp add: word_sum_append word_sum_put16)
  have tot: "word_sum ?f = word_sum ?z + (65535 - ones_sum 0 ?z)"
    using z f assms(2,3) by simp
  have zs: "ones_sum 0 ?z < 65536" "ones_sum 0 ?z mod 65535 = word_sum ?z mod 65535"
      "ones_sum 0 ?z = 0 \<longleftrightarrow> word_sum ?z = 0"
    using ones_sum_props [of 0 ?z] by auto
  have "word_sum ?f mod 65535 = (ones_sum 0 ?z + (65535 - ones_sum 0 ?z)) mod 65535"
    unfolding tot by (rule mod_add_cong [OF zs(2) [symmetric] refl])
  then have m: "word_sum ?f mod 65535 = 65535 mod 65535" using zs(1) by simp
  have "word_sum ?f \<noteq> 0"
    using tot zs(3) by (cases "word_sum ?z = 0") auto
  then show ?thesis
    by (intro ones_residue_unique [where b = 65535]) (use ones_sum_props [of 0 ?f] m in simp_all)
qed

section \<open>Properties\<close>

text \<open>
  C35. The checksum computed with a 32-bit accumulator, folded at the end, is the complement of
  the ones-complement sum of the 16-bit words of RFC 1071, for every buffer of up to 131070
  bytes.
\<close>

theorem ip_checksum_rfc1071:
  assumes "length data \<le> 131070"
  shows "unat (ip_checksum data) = 65535 - ones_sum 0 data"
  using assms by (rule ip_checksum_ones_sum)

theorem ip_checksum_rfc1071_witness:
  "unat (ip_checksum [0x45, 0, 0xFF, 0xFF, 7]) = 65535 - ones_sum 0 [0x45, 0, 0xFF, 0xFF, 7]"
  using ip_checksum_rfc1071 [of "[0x45, 0, 0xFF, 0xFF, 7]"] by simp

text \<open>
  A packet whose zeroed checksum field, at an even offset, is overwritten with the computed
  checksum verifies: the checksum of the whole packet is zero.
\<close>

theorem ip_checksum_verifies:
  assumes "even (length pre)" "length (pre @ [0, 0] @ post) \<le> 131070"
  shows "ip_checksum (pre @ put16 (ip_checksum (pre @ [0, 0] @ post)) @ post) = 0"
proof -
  let ?w = "ip_checksum (pre @ [0, 0] @ post)"
  have "unat ?w = 65535 - ones_sum 0 (pre @ [0, 0] @ post)"
    using ip_checksum_ones_sum assms(2) by blast
  then have "ones_sum 0 (pre @ put16 ?w @ post) = 65535"
    using ones_sum_filled [OF assms(1) refl] by blast
  moreover have "length (pre @ put16 ?w @ post) \<le> 131070" using assms(2) by simp
  ultimately have "unat (ip_checksum (pre @ put16 ?w @ post)) = 0"
    using ip_checksum_ones_sum [of "pre @ put16 ?w @ post"] by simp
  then show ?thesis by (simp add: unat_eq_zero)
qed

theorem ip_checksum_verifies_witness:
  "ip_checksum ([0x45, 0] @ put16 (ip_checksum ([0x45, 0] @ [0, 0] @ [1, 2, 3])) @ [1, 2, 3]) = 0"
  by (rule ip_checksum_verifies) simp_all

end
