(* ===== verification/Scheduler.thy ===== *)
theory Scheduler
  imports Prelude
begin

text \<open>
  The round-robin scheduler of \<^verbatim>\<open>kernel/sched.c\<close>: a pool of 64 task
  descriptors, a task count, the index of the current task and a spin lock.  Every
  operation takes the lock first; taking a held lock spins forever, which is the result
  \<open>None\<close>.
\<close>

section \<open>Data\<close>

datatype task_state = TASK_READY | TASK_RUNNING | TASK_BLOCKED | TASK_DEAD

record task =
  t_id :: u32
  t_state :: task_state
  t_core_affinity :: u32
  t_stack_base :: u64
  t_stack_size :: u64
  t_rsp :: u64
  t_entry :: u64
  t_arg :: u64
  t_next :: "nat option"

record sched =
  g_tasks :: "task list"
  g_task_count :: u32
  g_current_task :: u32
  g_sched_lock :: bool

definition SCHED_MAX_TASKS :: nat where
  "SCHED_MAX_TASKS = 64"

definition TASK_STACK_BASE :: u64 where
  "TASK_STACK_BASE = 0x800000"

text \<open>The zero-initialised static state the kernel starts with.\<close>

definition task0 :: task where
  "task0 = \<lparr>t_id = 0, t_state = TASK_READY, t_core_affinity = 0, t_stack_base = 0,
            t_stack_size = 0, t_rsp = 0, t_entry = 0, t_arg = 0, t_next = None\<rparr>"

definition sched0 :: sched where
  "sched0 = \<lparr>g_tasks = replicate SCHED_MAX_TASKS task0, g_task_count = 0, g_current_task = 0,
             g_sched_lock = False\<rparr>"

section \<open>Operations\<close>

definition spin_lock :: "sched \<Rightarrow> sched option" where
  "spin_lock s = (if g_sched_lock s then None else Some (s\<lparr>g_sched_lock := True\<rparr>))"

definition spin_unlock :: "sched \<Rightarrow> sched" where
  "spin_unlock s = s\<lparr>g_sched_lock := False\<rparr>"

definition set_state :: "nat \<Rightarrow> task_state \<Rightarrow> sched \<Rightarrow> sched" where
  "set_state i st s = s\<lparr>g_tasks := (g_tasks s)[i := (g_tasks s ! i)\<lparr>t_state := st\<rparr>]\<rparr>"

definition state_of :: "sched \<Rightarrow> nat \<Rightarrow> task_state" where
  "state_of s i = t_state (g_tasks s ! i)"

definition sched_init :: "sched \<Rightarrow> sched" where
  "sched_init s =
     (let ts = map (\<lambda>i. (g_tasks s ! i)\<lparr>t_id := word_of_nat i, t_state := TASK_DEAD, t_next := None\<rparr>)
                   [0..<SCHED_MAX_TASKS]
      in s\<lparr>g_tasks := ts[0 := (ts ! 0)\<lparr>t_state := TASK_RUNNING, t_core_affinity := 0\<rparr>],
           g_task_count := 1, g_current_task := 0\<rparr>)"

definition new_task :: "task \<Rightarrow> nat \<Rightarrow> u64 \<Rightarrow> u64 \<Rightarrow> u64 \<Rightarrow> task" where
  "new_task t slot entry arg stack_size =
     (let base = TASK_STACK_BASE + word_of_nat slot * stack_size in
      t\<lparr>t_state := TASK_READY, t_core_affinity := 0xFFFFFFFF,
        t_stack_base := base, t_stack_size := stack_size,
        t_rsp := base + stack_size - 8,
        t_entry := entry, t_arg := arg, t_next := None\<rparr>)"

definition sched_create :: "u64 \<Rightarrow> u64 \<Rightarrow> u64 \<Rightarrow> sched \<Rightarrow> (int \<times> sched) option" where
  "sched_create entry arg stack_size s =
     (case spin_lock s of None \<Rightarrow> None
      | Some s1 \<Rightarrow>
        (case find_from 1 SCHED_MAX_TASKS (\<lambda>i. state_of s1 i = TASK_DEAD) of
           None \<Rightarrow> Some (-1, spin_unlock s1)
         | Some slot \<Rightarrow>
             (let size' = (if stack_size = 0 then 65536 else stack_size);
                  t = new_task (g_tasks s1 ! slot) slot entry arg size'
              in Some (int slot, spin_unlock (s1\<lparr>g_tasks := (g_tasks s1)[slot := t],
                                                 g_task_count := g_task_count s1 + 1\<rparr>)))))"

fun yield_scan :: "nat \<Rightarrow> u32 \<Rightarrow> sched \<Rightarrow> u32 option" where
  "yield_scan 0 nxt s = None"
| "yield_scan (Suc k) nxt s =
     (let nxt' = (nxt + 1) mod word_of_nat SCHED_MAX_TASKS in
      if state_of s (unat nxt') = TASK_READY then Some nxt' else yield_scan k nxt' s)"

definition sched_yield :: "sched \<Rightarrow> sched option" where
  "sched_yield s =
     (case spin_lock s of None \<Rightarrow> None
      | Some s1 \<Rightarrow>
        if g_task_count s1 \<le> 1 then Some (spin_unlock s1)
        else
          (let s2 = set_state (unat (g_current_task s1)) TASK_READY s1 in
           case yield_scan SCHED_MAX_TASKS (g_current_task s2) s2 of
             None \<Rightarrow> Some (spin_unlock s2)
           | Some nxt \<Rightarrow>
               Some (spin_unlock ((set_state (unat nxt) TASK_RUNNING s2)\<lparr>g_current_task := nxt\<rparr>))))"

definition sched_block :: "sched \<Rightarrow> sched option" where
  "sched_block s =
     (case spin_lock s of None \<Rightarrow> None
      | Some s1 \<Rightarrow>
          sched_yield (spin_unlock (set_state (unat (g_current_task s1)) TASK_BLOCKED s1)))"

definition sched_unblock :: "u32 \<Rightarrow> sched \<Rightarrow> sched option" where
  "sched_unblock task_id s =
     (if task_id \<ge> word_of_nat SCHED_MAX_TASKS then Some s
      else case spin_lock s of None \<Rightarrow> None
           | Some s1 \<Rightarrow>
               Some (spin_unlock (if state_of s1 (unat task_id) = TASK_BLOCKED
                                  then set_state (unat task_id) TASK_READY s1 else s1)))"

definition sched_current_task :: "sched \<Rightarrow> u32" where
  "sched_current_task s = g_current_task s"

definition sched_tick :: "sched \<Rightarrow> sched option" where
  "sched_tick s = sched_yield s"

section \<open>Invariant\<close>

text \<open>
  The lock is free between operations, the pool has 64 entries, the current task is a live
  pool entry, the count is the number of live tasks, and no task but the current one is
  running.
\<close>

definition live :: "sched \<Rightarrow> nat set" where
  "live s = {i. i < SCHED_MAX_TASKS \<and> state_of s i \<noteq> TASK_DEAD}"

definition sched_inv :: "sched \<Rightarrow> bool" where
  "sched_inv s \<longleftrightarrow>
     \<not> g_sched_lock s \<and> length (g_tasks s) = SCHED_MAX_TASKS \<and>
     unat (g_current_task s) \<in> live s \<and> 0 \<in> live s \<and>
     unat (g_task_count s) = card (live s) \<and>
     (\<forall>i < SCHED_MAX_TASKS. state_of s i = TASK_RUNNING \<longrightarrow> i = unat (g_current_task s))"

lemma finite_live [simp]: "finite (live s)"
  by (simp add: live_def)

lemma live_lt: "i \<in> live s \<Longrightarrow> i < 64"
  by (simp add: live_def SCHED_MAX_TASKS_def)

lemma state_of_set_state [simp]:
  "state_of (set_state i st s) j = (if j = i \<and> i < length (g_tasks s) then st else state_of s j)"
  by (cases "i < length (g_tasks s)") (auto simp: state_of_def set_state_def nth_list_update list_update_beyond)

lemma set_state_frame [simp]:
  "length (g_tasks (set_state i st s)) = length (g_tasks s)"
  "g_task_count (set_state i st s) = g_task_count s"
  "g_current_task (set_state i st s) = g_current_task s"
  "g_sched_lock (set_state i st s) = g_sched_lock s"
  by (simp_all add: set_state_def)

lemma spin_frame [simp]:
  "g_tasks (spin_unlock s) = g_tasks s" "g_task_count (spin_unlock s) = g_task_count s"
  "g_current_task (spin_unlock s) = g_current_task s" "\<not> g_sched_lock (spin_unlock s)"
  "state_of (spin_unlock s) i = state_of s i" "live (spin_unlock s) = live s"
  by (simp_all add: spin_unlock_def state_of_def live_def)

lemma spin_lock_free [simp]: "\<not> g_sched_lock s \<Longrightarrow> spin_lock s = Some (s\<lparr>g_sched_lock := True\<rparr>)"
  by (simp add: spin_lock_def)

lemma lock_field_frame [simp]:
  "state_of (s\<lparr>g_sched_lock := b\<rparr>) i = state_of s i" "live (s\<lparr>g_sched_lock := b\<rparr>) = live s"
  "state_of (s\<lparr>g_current_task := c\<rparr>) i = state_of s i" "live (s\<lparr>g_current_task := c\<rparr>) = live s"
  by (simp_all add: state_of_def live_def)

lemma live_set_state:
  "st \<noteq> TASK_DEAD \<Longrightarrow> i \<in> live s \<Longrightarrow> live (set_state i st s) = live s"
  by (auto simp: live_def)

section \<open>The scan of \<^verbatim>\<open>sched_yield\<close>\<close>

lemma unat_next_task:
  assumes "unat (n :: u32) < 64"
  shows "unat ((n + 1) mod word_of_nat SCHED_MAX_TASKS) = (unat n + 1) mod 64"
proof -
  have "unat (n + 1) = unat n + 1" using assms by (simp add: unat_word_ariths)
  then show ?thesis by (simp add: unat_mod SCHED_MAX_TASKS_def)
qed

lemma mod_64_Suc: "((n + 1) mod 64 + d) mod 64 = (n + Suc d) mod (64 :: nat)"
  by (simp add: mod_simps)

text \<open>The scan returns the nearest ready task in cyclic order, within its range.\<close>

lemma yield_scan_Some:
  assumes "yield_scan k n s = Some r" "unat n < 64"
  obtains d where "1 \<le> d" "d \<le> k" "unat r = (unat n + d) mod 64"
    "state_of s (unat r) = TASK_READY"
    "\<And>e. 1 \<le> e \<Longrightarrow> e < d \<Longrightarrow> state_of s ((unat n + e) mod 64) \<noteq> TASK_READY"
proof -
  have "\<exists>d. 1 \<le> d \<and> d \<le> k \<and> unat r = (unat n + d) mod 64 \<and>
      state_of s (unat r) = TASK_READY \<and>
      (\<forall>e. 1 \<le> e \<and> e < d \<longrightarrow> state_of s ((unat n + e) mod 64) \<noteq> TASK_READY)"
    using assms
  proof (induction k arbitrary: n)
    case (Suc k)
    let ?n' = "(n + 1) mod word_of_nat SCHED_MAX_TASKS"
    have n': "unat ?n' = (unat n + 1) mod 64" using Suc.prems(2) by (rule unat_next_task)
    show ?case
    proof (cases "state_of s (unat ?n') = TASK_READY")
      case True
      with Suc.prems n' show ?thesis by (intro exI [of _ 1]) (auto simp: Let_def)
    next
      case False
      with Suc.prems have "yield_scan k ?n' s = Some r" by (simp add: Let_def)
      moreover have "unat ?n' < 64" using n' by simp
      ultimately obtain d where d: "1 \<le> d" "d \<le> k" "unat r = (unat ?n' + d) mod 64"
          "state_of s (unat r) = TASK_READY"
          "\<forall>e. 1 \<le> e \<and> e < d \<longrightarrow> state_of s ((unat ?n' + e) mod 64) \<noteq> TASK_READY"
        using Suc.IH by blast
      have "state_of s ((unat n + e) mod 64) \<noteq> TASK_READY" if "1 \<le> e" "e < Suc d" for e
      proof (cases "e = 1")
        case True
        then show ?thesis using False n' by simp
      next
        case False
        with that have e: "1 \<le> e - 1" "e - 1 < d" "Suc (e - 1) = e" by auto
        show ?thesis
          using d(5) [rule_format, of "e - 1"] e mod_64_Suc [of "unat n" "e - 1"]
          by (simp only: n') simp
      qed
      moreover have "unat r = (unat n + Suc d) mod 64"
        using d(3) by (simp only: n' mod_64_Suc)
      ultimately show ?thesis
        using d(2,4) by (intro exI [of _ "Suc d"]) auto
    qed
  qed simp
  then show ?thesis using that by blast
qed

lemma yield_scan_complete:
  assumes "unat n < 64" "1 \<le> d" "d \<le> k" "state_of s ((unat n + d) mod 64) = TASK_READY"
  shows "\<exists>r. yield_scan k n s = Some r"
  using assms
proof (induction k arbitrary: n d)
  case (Suc k)
  let ?n' = "(n + 1) mod word_of_nat SCHED_MAX_TASKS"
  have n': "unat ?n' = (unat n + 1) mod 64" using Suc.prems(1) by (rule unat_next_task)
  show ?case
  proof (cases "d = 1 \<or> state_of s (unat ?n') = TASK_READY")
    case True
    then show ?thesis using Suc.prems n' by (auto simp: Let_def)
  next
    case False
    then have "\<exists>r. yield_scan k ?n' s = Some r"
      using Suc.prems n' mod_64_Suc [of "unat n" "d - 1"]
      by (intro Suc.IH [of ?n' "d - 1"]) auto
    then show ?thesis using False by (simp add: Let_def)
  qed
qed simp

section \<open>The operations keep the invariant and release the lock\<close>

lemmas sched_inv_simps = sched_inv_def SCHED_MAX_TASKS_def

lemma sched_init_inv:
  assumes "\<not> g_sched_lock s"
  shows "sched_inv (sched_init s)"
proof -
  have st: "state_of (sched_init s) i = (if i = 0 then TASK_RUNNING else TASK_DEAD)" if "i < 64" for i
    using that by (simp add: state_of_def sched_init_def Let_def nth_list_update SCHED_MAX_TASKS_def)
  then have "live (sched_init s) = {0}"
    by (auto simp: live_def SCHED_MAX_TASKS_def split: if_splits)
  then show ?thesis
    using assms st by (auto simp: sched_inv_def sched_init_def Let_def SCHED_MAX_TASKS_def split: if_splits)
qed

text \<open>The state with the slot of a created task filled in.\<close>

definition created :: "nat \<Rightarrow> task \<Rightarrow> sched \<Rightarrow> sched" where
  "created slot t s = s\<lparr>g_tasks := (g_tasks s)[slot := t], g_task_count := g_task_count s + 1\<rparr>"

lemma created_inv:
  assumes inv: "sched_inv s" and slot: "slot < 64" "state_of s slot = TASK_DEAD"
    and t: "t_state t = TASK_READY"
  shows "sched_inv (created slot t s)"
proof -
  have len: "length (g_tasks s) = 64" using inv by (simp add: sched_inv_simps)
  have st: "state_of (created slot t s) i = (if i = slot then TASK_READY else state_of s i)" for i
    using len slot t by (simp add: state_of_def created_def nth_list_update)
  have lv: "live (created slot t s) = insert slot (live s)"
    using slot by (auto simp: live_def st SCHED_MAX_TASKS_def)
  have notin: "slot \<notin> live s" using slot by (simp add: live_def)
  have "live s \<subseteq> {..<64}" by (auto dest: live_lt)
  then have "card (live s) \<le> 64" using card_mono [of "{..<64::nat}"] by fastforce
  then have "unat (g_task_count s + 1) = Suc (card (live s))"
    using inv by (simp add: sched_inv_def unat_word_ariths)
  then show ?thesis
    using inv lv notin len st
    by (simp add: sched_inv_def) (auto simp: created_def)
qed

lemma sched_create_cases:
  assumes "sched_inv s"
  obtains (full) "\<And>i. 1 \<le> i \<Longrightarrow> i < 64 \<Longrightarrow> i \<in> live s" "sched_create entry arg sz s = Some (-1, s)"
  | (ok) slot where "1 \<le> slot" "slot < 64" "slot \<notin> live s"
      "\<And>i. 1 \<le> i \<Longrightarrow> i < slot \<Longrightarrow> i \<in> live s"
      "sched_create entry arg sz s =
         Some (int slot, created slot (new_task (g_tasks s ! slot) slot entry arg
                                        (if sz = 0 then 65536 else sz)) s)"
proof -
  have free: "\<not> g_sched_lock s" using assms by (simp add: sched_inv_def)
  then have relock: "spin_unlock (s\<lparr>g_sched_lock := True\<rparr>) = s"
    by (cases s) (simp add: spin_unlock_def)
  have unl: "spin_unlock (s\<lparr>g_sched_lock := True, g_tasks := a, g_task_count := b\<rparr>)
      = s\<lparr>g_tasks := a, g_task_count := b\<rparr>" for a b
    using free by (cases s) (simp add: spin_unlock_def)
  show ?thesis
  proof (cases "find_from 1 SCHED_MAX_TASKS (\<lambda>i. state_of s i = TASK_DEAD)")
    case None
    then show ?thesis
      using full None [unfolded find_from_None] free relock
      by (auto simp: sched_create_def live_def SCHED_MAX_TASKS_def)
  next
    case (Some slot)
    then show ?thesis
      using ok [of slot] Some [unfolded find_from_Some] free unl
      by (auto simp: sched_create_def live_def SCHED_MAX_TASKS_def created_def Let_def)
  qed
qed

lemma new_task_ready [simp]: "t_state (new_task t slot e a sz) = TASK_READY"
  by (simp add: new_task_def Let_def)

lemma sched_create_inv:
  assumes "sched_inv s"
  shows "\<exists>r s'. sched_create entry arg sz s = Some (r, s') \<and> sched_inv s'"
  using assms by (rule sched_create_cases [of s entry arg sz])
    (use assms created_inv in \<open>auto simp: live_def SCHED_MAX_TASKS_def\<close>)

lemma sched_yield_alone:
  assumes "sched_inv s" "g_task_count s \<le> 1"
  shows "sched_yield s = Some s"
  using assms by (cases s) (simp add: sched_yield_def sched_inv_def spin_unlock_def)

text \<open>
  With a second live task, the yield moves to the nearest ready task in cyclic order,
  counting the yielding task itself as ready.
\<close>

lemma sched_yield_moves:
  assumes inv: "sched_inv s" and count: "g_task_count s > 1"
  obtains s' d where "sched_yield s = Some s'" "sched_inv s'"
    "1 \<le> d" "d \<le> 64" "unat (g_current_task s') = (unat (g_current_task s) + d) mod 64"
    "\<And>i. state_of s' i = (if i = unat (g_current_task s') then TASK_RUNNING
                         else if i = unat (g_current_task s) then TASK_READY else state_of s i)"
    "d = 64 \<or> state_of s (unat (g_current_task s')) = TASK_READY"
    "\<And>e. 1 \<le> e \<Longrightarrow> e < d \<Longrightarrow> state_of s ((unat (g_current_task s) + e) mod 64) \<noteq> TASK_READY"
    "live s' = live s" "g_task_count s' = g_task_count s"
proof -
  let ?c = "unat (g_current_task s)"
  let ?s2 = "set_state ?c TASK_READY (s\<lparr>g_sched_lock := True\<rparr>)"
  have len: "length (g_tasks s) = 64" and c: "?c < 64" "?c \<in> live s"
    using inv by (auto simp: sched_inv_simps dest: live_lt)
  have st2: "state_of ?s2 i = (if i = ?c then TASK_READY else state_of s i)" for i
    using len c by simp
  obtain r where r: "yield_scan 64 (g_current_task s) ?s2 = Some r"
    using yield_scan_complete [of "g_current_task s" 64 64 ?s2] c len by auto
  obtain d where d: "1 \<le> d" "d \<le> 64" "unat r = (?c + d) mod 64"
      "state_of ?s2 (unat r) = TASK_READY"
      "\<And>e. 1 \<le> e \<Longrightarrow> e < d \<Longrightarrow> state_of ?s2 ((?c + e) mod 64) \<noteq> TASK_READY"
    using yield_scan_Some [OF r] c by blast
  define s' where "s' = spin_unlock ((set_state (unat r) TASK_RUNNING ?s2)\<lparr>g_current_task := r\<rparr>)"
  have ret: "sched_yield s = Some s'"
    using inv count r by (simp add: sched_yield_def sched_inv_def SCHED_MAX_TASKS_def s'_def)
  have frame: "g_current_task s' = r" "g_task_count s' = g_task_count s" "\<not> g_sched_lock s'"
      "length (g_tasks s') = length (g_tasks s)"
    by (simp_all add: s'_def)
  have r64: "unat r < 64" using d(3) by simp
  have st': "state_of s' i = (if i = unat r then TASK_RUNNING
      else if i = ?c then TASK_READY else state_of s i)" for i
    using len r64 c by (simp add: s'_def)
  have rl: "unat r \<in> live s"
    using d(4) st2 c r64 by (auto simp: live_def SCHED_MAX_TASKS_def split: if_splits)
  have lv: "live s' = live s" using rl c by (simp add: s'_def live_set_state)
  have fresh: "state_of s ((?c + e) mod 64) \<noteq> TASK_READY" if "1 \<le> e" "e < d" for e
  proof -
    have "(?c + e) mod 64 \<noteq> ?c"
      using that d(2) c(1) by (cases "?c + e < 64") (auto simp: le_mod_geq)
    with d(5) [OF that] st2 show ?thesis by simp
  qed
  have d64: "d = 64 \<or> state_of s (unat r) = TASK_READY"
  proof (cases "unat r = ?c")
    case True
    then have "d = 64" using d(1-3) c(1) by (cases "?c + d < 64") (auto simp: le_mod_geq)
    then show ?thesis ..
  qed (use d(4) st2 in auto)
  have "i = unat r" if "i < 64" "state_of s' i = TASK_RUNNING" for i
    using that inv unfolding st' by (auto simp: sched_inv_simps split: if_splits)
  then have inv': "sched_inv s'"
    using inv rl by (simp add: sched_inv_simps lv frame)
  show ?thesis
    by (rule that [of s' d, unfolded frame])
      (fact ret inv' d(1) d(2) d(3) st' d64 fresh lv refl)+
qed

lemma sched_yield_inv:
  assumes "sched_inv s"
  shows "\<exists>s'. sched_yield s = Some s' \<and> sched_inv s'"
proof (cases "g_task_count s \<le> 1")
  case True
  then show ?thesis using assms sched_yield_alone by blast
next
  case False
  then have "g_task_count s > 1" by (simp add: not_le)
  with assms show ?thesis by (rule sched_yield_moves) blast
qed

lemma set_state_inv:
  assumes "sched_inv s" "st \<noteq> TASK_DEAD" "st \<noteq> TASK_RUNNING" "i \<in> live s"
  shows "sched_inv (set_state i st s)"
  using assms by (auto simp: sched_inv_def live_set_state split: if_splits)

lemma relock [simp]:
  "\<not> g_sched_lock s \<Longrightarrow> spin_unlock (set_state i st (s\<lparr>g_sched_lock := True\<rparr>)) = set_state i st s"
  "\<not> g_sched_lock s \<Longrightarrow> spin_unlock (s\<lparr>g_sched_lock := True\<rparr>) = s"
  by (cases s; simp add: set_state_def spin_unlock_def)+

lemma sched_block_unfold:
  "sched_inv s \<Longrightarrow> sched_block s = sched_yield (set_state (unat (g_current_task s)) TASK_BLOCKED s)"
  by (simp add: sched_block_def sched_inv_def)

lemma sched_block_inv:
  assumes "sched_inv s"
  shows "\<exists>s'. sched_block s = Some s' \<and> sched_inv s'"
proof -
  have "unat (g_current_task s) \<in> live s" using assms by (simp add: sched_inv_def)
  with assms have "sched_inv (set_state (unat (g_current_task s)) TASK_BLOCKED s)"
    by (intro set_state_inv) simp_all
  then show ?thesis using assms by (simp add: sched_block_unfold sched_yield_inv)
qed

lemma sched_unblock_inv:
  assumes "sched_inv s"
  shows "\<exists>s'. sched_unblock k s = Some s' \<and> sched_inv s'"
proof -
  have free: "\<not> g_sched_lock s" using assms by (simp add: sched_inv_def)
  have inv: "sched_inv (set_state (unat k) TASK_READY s)"
    if "k < 64" "state_of s (unat k) = TASK_BLOCKED"
    using that assms by (intro set_state_inv) (simp_all add: live_def SCHED_MAX_TASKS_def word_less_nat_alt)
  show ?thesis
    using assms inv free by (simp add: sched_unblock_def SCHED_MAX_TASKS_def)
qed

section \<open>Reachable scheduler states\<close>

inductive sched_reachable :: "sched \<Rightarrow> bool" where
  init: "\<not> g_sched_lock s \<Longrightarrow> sched_reachable (sched_init s)"
| create: "sched_reachable s \<Longrightarrow> sched_create entry arg sz s = Some (r, s') \<Longrightarrow> sched_reachable s'"
| yield: "sched_reachable s \<Longrightarrow> sched_yield s = Some s' \<Longrightarrow> sched_reachable s'"
| block: "sched_reachable s \<Longrightarrow> sched_block s = Some s' \<Longrightarrow> sched_reachable s'"
| unblock: "sched_reachable s \<Longrightarrow> sched_unblock k s = Some s' \<Longrightarrow> sched_reachable s'"
| tick: "sched_reachable s \<Longrightarrow> sched_tick s = Some s' \<Longrightarrow> sched_reachable s'"

lemma sched_reachable_sched_inv: "sched_reachable s \<Longrightarrow> sched_inv s"
proof (induction rule: sched_reachable.induct)
  case (init s)
  then show ?case by (rule sched_init_inv)
next
  case (create s entry arg sz r s')
  then show ?case using sched_create_inv [of s entry arg sz] by simp
next
  case (yield s s')
  then show ?case using sched_yield_inv [of s] by simp
next
  case (block s s')
  then show ?case using sched_block_inv [of s] by simp
next
  case (unblock s k s')
  then show ?case using sched_unblock_inv [of s k] by simp
next
  case (tick s s')
  then show ?case using sched_yield_inv [of s] by (simp add: sched_tick_def)
qed

section \<open>Fairness\<close>

fun yields :: "nat \<Rightarrow> sched \<Rightarrow> sched option" where
  "yields 0 s = Some s"
| "yields (Suc n) s = (case sched_yield s of None \<Rightarrow> None | Some s' \<Rightarrow> yields n s')"

lemma two_live:
  assumes "sched_inv s" "j \<in> live s" "j \<noteq> unat (g_current_task s)"
  shows "g_task_count s > 1"
proof -
  have "{j, unat (g_current_task s)} \<subseteq> live s" using assms by (simp add: sched_inv_def)
  then have "card {j, unat (g_current_task s)} \<le> card (live s)" by (intro card_mono) simp_all
  then have "2 \<le> unat (g_task_count s)" using assms by (simp add: sched_inv_def)
  then show ?thesis by (simp add: word_less_nat_alt)
qed

text \<open>The number of slots from \<open>c\<close> forward to \<open>j\<close> in cyclic order.\<close>

definition ahead :: "nat \<Rightarrow> nat \<Rightarrow> nat" where
  "ahead c j = (j + 64 - c) mod 64"

lemma ahead_reach: "c < 64 \<Longrightarrow> j < 64 \<Longrightarrow> (c + ahead c j) mod 64 = j"
  by (cases "j < c") (auto simp: ahead_def le_mod_geq)

lemma ahead_pos: "c < 64 \<Longrightarrow> j < 64 \<Longrightarrow> j \<noteq> c \<Longrightarrow> 1 \<le> ahead c j \<and> ahead c j < 64"
  by (cases "j < c") (auto simp: ahead_def le_mod_geq)

lemma ahead_step:
  "c < 64 \<Longrightarrow> j < 64 \<Longrightarrow> d \<le> ahead c j \<Longrightarrow> ahead ((c + d) mod 64) j = ahead c j - d"
  by (cases "j < c"; cases "c + d < 64") (auto simp: ahead_def le_mod_geq)

lemma yields_reach_ready:
  assumes "sched_inv s" "j < 64" "state_of s j = TASK_READY" "j \<noteq> unat (g_current_task s)"
  shows "\<exists>n s'. n \<le> ahead (unat (g_current_task s)) j \<and> yields n s = Some s' \<and>
           unat (g_current_task s') = j \<and> state_of s' j = TASK_RUNNING"
  using assms
proof (induction "ahead (unat (g_current_task s)) j" arbitrary: s rule: less_induct)
  case less
  let ?c = "unat (g_current_task s)"
  have c: "?c < 64" using less.prems(1) by (auto simp: sched_inv_def dest: live_lt)
  have "g_task_count s > 1"
    using less.prems by (intro two_live [of s j]) (auto simp: live_def SCHED_MAX_TASKS_def)
  with less.prems(1) obtain s' d where y: "sched_yield s = Some s'" "sched_inv s'" "1 \<le> d"
      "unat (g_current_task s') = (?c + d) mod 64"
      "\<And>i. state_of s' i = (if i = unat (g_current_task s') then TASK_RUNNING
                         else if i = ?c then TASK_READY else state_of s i)"
      "\<And>e. 1 \<le> e \<Longrightarrow> e < d \<Longrightarrow> state_of s ((?c + e) mod 64) \<noteq> TASK_READY"
    by (rule sched_yield_moves) blast
  have a: "1 \<le> ahead ?c j" "(?c + ahead ?c j) mod 64 = j"
    using ahead_pos ahead_reach c less.prems by auto
  have le: "d \<le> ahead ?c j"
    using y(6) [of "ahead ?c j"] a less.prems(3) by (cases "d \<le> ahead ?c j") auto
  show ?case
  proof (cases "d = ahead ?c j")
    case True
    then show ?thesis using y a by (intro exI [of _ 1] exI [of _ s']) auto
  next
    case False
    have a': "ahead (unat (g_current_task s')) j = ahead ?c j - d"
      using ahead_step [OF c less.prems(2) le] y(4) by simp
    have ne: "j \<noteq> unat (g_current_task s')"
    proof
      assume "j = unat (g_current_task s')"
      then have "ahead (unat (g_current_task s')) j = 0" by (simp add: ahead_def)
      then show False using a' False le by simp
    qed
    then have "state_of s' j = TASK_READY" using y(5) less.prems by simp
    then obtain n t where "n \<le> ahead ?c j - d" "yields n s' = Some t"
        "unat (g_current_task t) = j" "state_of t j = TASK_RUNNING"
      using less.hyps [of s'] a' a y(2,3) less.prems(2) ne by auto
    then show ?thesis using y(1,3) le by (intro exI [of _ "Suc n"] exI [of _ t]) auto
  qed
qed

section \<open>Blocking\<close>

lemma sched_block_eq_yield:
  assumes "sched_inv s" "g_task_count s > 1"
  shows "sched_block s = sched_yield s"
proof -
  let ?c = "unat (g_current_task s)"
  have "set_state ?c TASK_READY (set_state ?c TASK_BLOCKED s\<lparr>g_sched_lock := True\<rparr>)
      = set_state ?c TASK_READY (s\<lparr>g_sched_lock := True\<rparr>)"
    using assms by (cases s) (auto simp: set_state_def sched_inv_def SCHED_MAX_TASKS_def live_def)
  then show ?thesis
    using assms by (simp add: sched_block_unfold sched_yield_def sched_inv_def)
qed

section \<open>Task stacks\<close>

definition stack_area :: "task \<Rightarrow> nat set" where
  "stack_area t = {unat (t_stack_base t)..<unat (t_stack_base t) + unat (t_stack_size t)}"

lemma unat_stack_base:
  assumes "slot < 64" "unat TASK_STACK_BASE + 64 * unat (sz :: u64) < 2 ^ 64"
  shows "unat (TASK_STACK_BASE + word_of_nat slot * sz) = unat TASK_STACK_BASE + slot * unat sz"
proof -
  have le: "slot * unat sz \<le> 63 * unat sz" using assms(1) by simp
  have slot: "unat (word_of_nat slot :: u64) = slot"
    using assms(1) by (simp add: unat_of_nat)
  have "slot * unat sz < 2 ^ 64" using le assms(2) by linarith
  then have "unat (word_of_nat slot * sz) = slot * unat sz"
    by (simp only: unat_word_ariths slot) simp
  moreover have "unat TASK_STACK_BASE + slot * unat sz < 2 ^ 64" using le assms(2) by linarith
  ultimately show ?thesis by (simp add: unat_word_ariths)
qed

lemma stack_area_new_task:
  assumes "slot < 64" "unat TASK_STACK_BASE + 64 * unat (sz :: u64) < 2 ^ 64"
  shows "stack_area (new_task t slot e a sz) =
    {unat TASK_STACK_BASE + slot * unat sz..<unat TASK_STACK_BASE + Suc slot * unat sz}"
  using unat_stack_base [OF assms] by (simp add: stack_area_def new_task_def Let_def algebra_simps)

section \<open>A two-task example state\<close>

definition two_tasks :: sched where
  "two_tasks = snd (the (sched_create 0x100000 7 0 (sched_init sched0)))"

lemma two_tasks_reachable: "sched_reachable two_tasks"
proof -
  have r: "sched_reachable (sched_init sched0)"
    by (rule sched_reachable.init) (simp add: sched0_def)
  obtain x s' where "sched_create 0x100000 7 0 (sched_init sched0) = Some (x, s')"
    using sched_create_inv [OF sched_reachable_sched_inv [OF r]] by blast
  then show ?thesis
    using sched_reachable.create [OF r] by (simp add: two_tasks_def)
qed

lemmas two_tasks_inv = sched_reachable_sched_inv [OF two_tasks_reachable]

lemma two_tasks_state:
  "g_task_count two_tasks = 2" "g_current_task two_tasks = 0"
  "state_of two_tasks 0 = TASK_RUNNING" "state_of two_tasks 1 = TASK_READY"
  by code_simp+

section \<open>Properties\<close>

text \<open>
  C15. In every state reached from boot by task creation, yields, blocks, unblocks and timer
  ticks the scheduler invariant holds, and no operation ever spins forever on the lock.
\<close>

theorem sched_reachable_safe:
  assumes "sched_reachable s"
  shows "sched_inv s \<and> (\<exists>r. sched_create entry arg sz s = Some r) \<and> (\<exists>s'. sched_yield s = Some s')
    \<and> (\<exists>s'. sched_block s = Some s') \<and> (\<exists>s'. sched_unblock k s = Some s')
    \<and> (\<exists>s'. sched_tick s = Some s')"
proof -
  have inv: "sched_inv s" by (rule sched_reachable_sched_inv [OF assms])
  show ?thesis
    using inv sched_create_inv [OF inv, of entry arg sz] sched_yield_inv [OF inv]
      sched_block_inv [OF inv] sched_unblock_inv [OF inv, of k]
    by (auto simp: sched_tick_def)
qed

theorem sched_reachable_safe_witness:
  "sched_inv two_tasks \<and> (\<exists>s'. sched_block two_tasks = Some s')"
  using sched_reachable_safe [OF two_tasks_reachable] by blast

text \<open>
  C16. A yield with at least two live tasks hands the processor to the nearest ready task in
  cyclic slot order, marks the yielding task ready and changes no other task; only when no
  other task is ready does the yielding task keep running.
\<close>

theorem sched_yield_round_robin:
  assumes "sched_inv s" "g_task_count s > 1"
  shows "\<exists>s' d. sched_yield s = Some s' \<and> 1 \<le> d \<and> d \<le> 64 \<and>
    unat (g_current_task s') = (unat (g_current_task s) + d) mod 64 \<and>
    (\<forall>e. 1 \<le> e \<and> e < d \<longrightarrow> state_of s ((unat (g_current_task s) + e) mod 64) \<noteq> TASK_READY) \<and>
    (d = 64 \<or> state_of s (unat (g_current_task s')) = TASK_READY) \<and>
    (\<forall>i. state_of s' i = (if i = unat (g_current_task s') then TASK_RUNNING
                         else if i = unat (g_current_task s) then TASK_READY else state_of s i))"
  using assms by (rule sched_yield_moves) blast

theorem sched_yield_round_robin_witness:
  "\<exists>s' d. sched_yield two_tasks = Some s' \<and> 1 \<le> d \<and> d \<le> 64 \<and>
    unat (g_current_task s') = (unat (g_current_task two_tasks) + d) mod 64"
  using sched_yield_round_robin [OF two_tasks_inv] two_tasks_state by auto

text \<open>
  C3. No starvation: a ready task other than the current one runs after at most as many yields
  as it is slots ahead of the current task, so after at most 63 yields.
\<close>

theorem sched_fair:
  assumes "sched_inv s" "j < 64" "state_of s j = TASK_READY" "j \<noteq> unat (g_current_task s)"
  shows "\<exists>n s'. n \<le> ahead (unat (g_current_task s)) j \<and> n \<le> 63 \<and> yields n s = Some s' \<and>
    unat (g_current_task s') = j \<and> state_of s' j = TASK_RUNNING"
proof -
  have "unat (g_current_task s) < 64" using assms(1) by (auto simp: sched_inv_def dest: live_lt)
  then have "ahead (unat (g_current_task s)) j < 64" using ahead_pos assms by blast
  moreover obtain n s' where "n \<le> ahead (unat (g_current_task s)) j" "yields n s = Some s'"
      "unat (g_current_task s') = j" "state_of s' j = TASK_RUNNING"
    using yields_reach_ready [OF assms] by blast
  ultimately show ?thesis by (intro exI [of _ n] exI [of _ s']) auto
qed

theorem sched_fair_witness:
  "\<exists>n s'. n \<le> 63 \<and> yields n two_tasks = Some s' \<and> unat (g_current_task s') = 1 \<and>
    state_of s' 1 = TASK_RUNNING"
  using sched_fair [OF two_tasks_inv, of 1] two_tasks_state by auto

text \<open>
  With at least two live tasks \<^verbatim>\<open>sched_block\<close> is the same operation as
  \<^verbatim>\<open>sched_yield\<close>: the yield marks the blocked task ready again before it
  looks for a successor, so the caller is never left blocked.
\<close>

theorem sched_block_is_yield:
  assumes "sched_inv s" "g_task_count s > 1"
  shows "sched_block s = sched_yield s \<and>
    (\<exists>s'. sched_block s = Some s' \<and> state_of s' (unat (g_current_task s)) \<noteq> TASK_BLOCKED)"
proof -
  obtain s' where "sched_yield s = Some s'"
      "\<And>i. state_of s' i = (if i = unat (g_current_task s') then TASK_RUNNING
                         else if i = unat (g_current_task s) then TASK_READY else state_of s i)"
    using assms by (rule sched_yield_moves) blast
  then show ?thesis using sched_block_eq_yield [OF assms] by simp
qed

theorem sched_block_is_yield_witness:
  "sched_block two_tasks = sched_yield two_tasks"
  using sched_block_is_yield [OF two_tasks_inv] two_tasks_state by simp

text \<open>
  Two tasks created in different slots with the same stack size have disjoint stacks.
\<close>

theorem same_size_stacks_disjoint:
  assumes "i < 64" "j < 64" "i \<noteq> j" "unat TASK_STACK_BASE + 64 * unat sz < 2 ^ 64"
  shows "stack_area (new_task t i e a sz) \<inter> stack_area (new_task t' j e' a' sz) = {}"
proof -
  have "Suc i * unat sz \<le> j * unat sz \<or> Suc j * unat sz \<le> i * unat sz"
    using assms(3) by (cases "i < j") (auto simp only: mult_le_mono1 not_less Suc_le_eq dest: mult_le_mono1 [OF Suc_leI])
  then show ?thesis
    unfolding stack_area_new_task [OF assms(1,4)] stack_area_new_task [OF assms(2,4)] by auto
qed

theorem same_size_stacks_disjoint_witness:
  "stack_area (new_task task0 1 5 6 65536) \<inter> stack_area (new_task task0 2 7 8 65536) = {}"
  by (rule same_size_stacks_disjoint) (simp_all add: TASK_STACK_BASE_def)

text \<open>Stacks of different sizes can overlap: slot 2 with 64 KiB and slot 1 with 128 KiB.\<close>

lemma mixed_size_stacks_overlap:
  "stack_area (new_task task0 1 5 6 0x20000) \<inter> stack_area (new_task task0 2 7 8 0x10000) \<noteq> {}"
proof -
  have "0x820000 \<in> stack_area (new_task task0 1 5 6 0x20000)"
    "0x820000 \<in> stack_area (new_task task0 2 7 8 0x10000)"
    by (simp_all add: stack_area_new_task TASK_STACK_BASE_def)
  then show ?thesis by blast
qed

end
