(* ===== verification/Syscall.thy ===== *)
theory Syscall
  imports Scheduler
begin

text \<open>
  The system-call table and dispatcher of \<^verbatim>\<open>kernel/syscall.c\<close>.  The hardware
  abstraction layer the handlers call is a parameter: a record of functions on an abstract
  hardware state \<open>'h\<close>.  A handler may spin forever (a held scheduler lock, or the console input,
  which waits for a character that may never come), which is the result \<open>None\<close>.
\<close>

section \<open>Data\<close>

record 'h hal_env =
  hal_console_getc :: "'h \<Rightarrow> (u8 \<times> 'h) option"
  hal_console_write :: "u64 \<Rightarrow> u64 \<Rightarrow> 'h \<Rightarrow> 'h"
  hal_timer_ns :: "'h \<Rightarrow> u64 \<times> 'h"
  hal_mmu_free_ram :: "'h \<Rightarrow> u64"
  hal_smp_core_id :: "'h \<Rightarrow> u32"
  hal_smp_core_count :: "'h \<Rightarrow> u32"
  hal_timer_delay_us :: "u64 \<Rightarrow> 'h \<Rightarrow> 'h"
  hal_cpu_halt :: "'h \<Rightarrow> 'h"
  char_is_signed :: bool

datatype syscall_fn = Sys_input | Sys_output | Sys_system | Sys_sched_yield | Sys_sched_create

definition SYS_INPUT :: nat where "SYS_INPUT = 0"
definition SYS_OUTPUT :: nat where "SYS_OUTPUT = 1"
definition SYS_SYSTEM :: nat where "SYS_SYSTEM = 6"
definition SYS_SCHED_YIELD :: nat where "SYS_SCHED_YIELD = 11"
definition SYS_SCHED_CREATE :: nat where "SYS_SCHED_CREATE = 12"
definition SYS_MAX :: nat where "SYS_MAX = 14"

lemmas SYS_defs = SYS_INPUT_def SYS_OUTPUT_def SYS_SYSTEM_def SYS_SCHED_YIELD_def
  SYS_SCHED_CREATE_def SYS_MAX_def

section \<open>Handlers\<close>

definition sys_input :: "'h hal_env \<Rightarrow> 'h \<Rightarrow> (u64 \<times> 'h) option" where
  "sys_input E h =
     (case hal_console_getc E h of
        None \<Rightarrow> None
      | Some (c, h') \<Rightarrow> Some (if char_is_signed E then scast c else ucast c, h'))"

definition sys_output :: "'h hal_env \<Rightarrow> u64 \<Rightarrow> u64 \<Rightarrow> 'h \<Rightarrow> u64 \<times> 'h" where
  "sys_output E a1 a2 h = (0, hal_console_write E a1 a2 h)"

definition sys_system :: "'h hal_env \<Rightarrow> u64 \<Rightarrow> u64 \<Rightarrow> 'h \<Rightarrow> u64 \<times> 'h" where
  "sys_system E func var1 h =
     (if func = 0x00 then hal_timer_ns E h
      else if func = 0x01 then (hal_mmu_free_ram E h, h)
      else if func = 0x10 then (ucast (hal_smp_core_id E h), h)
      else if func = 0x11 then (ucast (hal_smp_core_count E h), h)
      else if func = 0x72 then (0, hal_timer_delay_us E var1 h)
      else if func = 0x7F then (0, hal_cpu_halt E h)
      else (0, h))"

definition sys_sched_yield :: "sched \<Rightarrow> (u64 \<times> sched) option" where
  "sys_sched_yield s = (case sched_yield s of None \<Rightarrow> None | Some s' \<Rightarrow> Some (0, s'))"

definition sys_sched_create :: "u64 \<Rightarrow> u64 \<Rightarrow> u64 \<Rightarrow> sched \<Rightarrow> (u64 \<times> sched) option" where
  "sys_sched_create entry arg stack_size s =
     (case sched_create entry arg stack_size s of None \<Rightarrow> None
      | Some (r, s') \<Rightarrow> Some (word_of_int r, s'))"

section \<open>Table and dispatch\<close>

definition syscall_init :: "syscall_fn option list" where
  "syscall_init = (replicate SYS_MAX None)
     [SYS_INPUT := Some Sys_input, SYS_OUTPUT := Some Sys_output, SYS_SYSTEM := Some Sys_system,
      SYS_SCHED_YIELD := Some Sys_sched_yield, SYS_SCHED_CREATE := Some Sys_sched_create]"

fun run_handler ::
  "'h hal_env \<Rightarrow> syscall_fn \<Rightarrow> u64 \<Rightarrow> u64 \<Rightarrow> u64 \<Rightarrow> u64 \<Rightarrow> sched \<times> 'h \<Rightarrow> (u64 \<times> sched \<times> 'h) option" where
  "run_handler E Sys_input a1 a2 a3 a4 (s, h) = 
     (case sys_input E h of None \<Rightarrow> None | Some (r, h') \<Rightarrow> Some (r, s, h'))"
| "run_handler E Sys_output a1 a2 a3 a4 (s, h) = (case sys_output E a1 a2 h of (r, h') \<Rightarrow> Some (r, s, h'))"
| "run_handler E Sys_system a1 a2 a3 a4 (s, h) = (case sys_system E a1 a2 h of (r, h') \<Rightarrow> Some (r, s, h'))"
| "run_handler E Sys_sched_yield a1 a2 a3 a4 (s, h) =
     (case sys_sched_yield s of None \<Rightarrow> None | Some (r, s') \<Rightarrow> Some (r, s', h))"
| "run_handler E Sys_sched_create a1 a2 a3 a4 (s, h) =
     (case sys_sched_create a1 a2 a3 s of None \<Rightarrow> None | Some (r, s') \<Rightarrow> Some (r, s', h))"

definition syscall_dispatch ::
  "'h hal_env \<Rightarrow> syscall_fn option list \<Rightarrow> u64 \<Rightarrow> u64 \<Rightarrow> u64 \<Rightarrow> u64 \<Rightarrow> u64 \<Rightarrow> sched \<times> 'h
     \<Rightarrow> (u64 \<times> sched \<times> 'h) option" where
  "syscall_dispatch E tab num a1 a2 a3 a4 st =
     (if num \<ge> word_of_nat SYS_MAX then Some (-1, st)
      else case tab ! unat num of
             None \<Rightarrow> Some (-1, st)
           | Some f \<Rightarrow> run_handler E f a1 a2 a3 a4 st)"

text \<open>The first \<open>n\<close> iterations of the endless main loop.\<close>

fun syscall_loop :: "nat \<Rightarrow> 'h hal_env \<Rightarrow> sched \<times> 'h \<Rightarrow> (sched \<times> 'h) option" where
  "syscall_loop 0 E st = Some st"
| "syscall_loop (Suc n) E (s, h) =
     (case sched_tick s of None \<Rightarrow> None
      | Some s' \<Rightarrow> syscall_loop n E (s', hal_cpu_halt E h))"

section \<open>Dispatch keeps the scheduler invariant\<close>

lemma syscall_table:
  "n < SYS_MAX \<Longrightarrow> syscall_init ! n =
     (if n = 0 then Some Sys_input else if n = 1 then Some Sys_output
      else if n = 6 then Some Sys_system else if n = 11 then Some Sys_sched_yield
      else if n = 12 then Some Sys_sched_create else None)"
  by (simp add: syscall_init_def SYS_defs nth_list_update)

lemma dispatch_cases:
  "syscall_dispatch E syscall_init num a1 a2 a3 a4 st =
     (if num = 0 then run_handler E Sys_input a1 a2 a3 a4 st
      else if num = 1 then run_handler E Sys_output a1 a2 a3 a4 st
      else if num = 6 then run_handler E Sys_system a1 a2 a3 a4 st
      else if num = 11 then run_handler E Sys_sched_yield a1 a2 a3 a4 st
      else if num = 12 then run_handler E Sys_sched_create a1 a2 a3 a4 st
      else Some (-1, st))"
proof (cases "unat num < SYS_MAX")
  case True
  then have "\<not> num \<ge> word_of_nat SYS_MAX" by (simp add: word_le_nat_alt SYS_defs)
  then show ?thesis
    using syscall_table [OF True] by (simp add: syscall_dispatch_def word_unat_eq_iff del: run_handler.simps)
next
  case False
  then have "num \<ge> word_of_nat SYS_MAX" "14 \<le> unat num" by (simp_all add: word_le_nat_alt SYS_defs)
  then show ?thesis by (auto simp: syscall_dispatch_def simp del: run_handler.simps)
qed

section \<open>Properties\<close>

text \<open>
  C33. Dispatching any system-call number with any arguments, in a state satisfying the scheduler
  invariant, fails to return in one case only: number 0 while the console never delivers a
  character. Otherwise it keeps the invariant, and the result, the scheduler and the hardware are
  those of the call: 0 the character read, widened as the platform's \<^verbatim>\<open>char\<close>; 1 the console
  after the output; 6 the clock, the free memory, the core's number, the number of cores, the
  delay or the halt, by the first argument, and 0 for any other; 11 the scheduler after a yield;
  12 the index of the new task and the scheduler after its creation. Every other number, inside
  or outside the table, returns all ones and changes nothing.
\<close>

theorem syscall_dispatch_safe:
  assumes "sched_inv s"
  shows "case syscall_dispatch E syscall_init num a1 a2 a3 a4 (s, h) of
      None \<Rightarrow> num = 0 \<and> hal_console_getc E h = None
    | Some (r, s', h') \<Rightarrow> sched_inv s' \<and>
        (if num = 0 then s' = s \<and> (\<exists>c. hal_console_getc E h = Some (c, h') \<and> r = (if char_is_signed E then scast c else ucast c))
         else if num = 1 then s' = s \<and> r = 0 \<and> h' = hal_console_write E a1 a2 h
         else if num = 6 then s' = s \<and> (r, h') =
             (if a1 = 0x00 then hal_timer_ns E h
              else if a1 = 0x01 then (hal_mmu_free_ram E h, h)
              else if a1 = 0x10 then (ucast (hal_smp_core_id E h), h)
              else if a1 = 0x11 then (ucast (hal_smp_core_count E h), h)
              else if a1 = 0x72 then (0, hal_timer_delay_us E a2 h)
              else if a1 = 0x7F then (0, hal_cpu_halt E h)
              else (0, h))
         else if num = 11 then h' = h \<and> r = 0 \<and> sched_yield s = Some s'
         else if num = 12 then h' = h \<and> (\<exists>i. sched_create a1 a2 a3 s = Some (i, s') \<and> r = word_of_int i)
         else r = -1 \<and> s' = s \<and> h' = h)"
proof -
  obtain sy where "sched_yield s = Some sy" "sched_inv sy" using sched_yield_inv [OF assms] by blast
  moreover obtain i sc where "sched_create a1 a2 a3 s = Some (i, sc)" "sched_inv sc"
    using sched_create_inv [OF assms, of a1 a2 a3] by blast
  ultimately show ?thesis
    using assms unfolding dispatch_cases
    by (cases "hal_console_getc E h")
       (auto simp: sys_input_def sys_output_def sys_system_def sys_sched_yield_def sys_sched_create_def split: prod.splits)
qed

definition quiet_hal :: "nat hal_env" where
  "quiet_hal = \<lparr>hal_console_getc = (\<lambda>h. if h = 0 then None else Some (0x41, h - 1)), hal_console_write = (\<lambda>a n h. h + 1),
     hal_timer_ns = (\<lambda>h. (word_of_nat h, h + 1)), hal_mmu_free_ram = (\<lambda>h. 0x1000),
     hal_smp_core_id = (\<lambda>h. 0), hal_smp_core_count = (\<lambda>h. 1),
     hal_timer_delay_us = (\<lambda>u h. h + unat u), hal_cpu_halt = (\<lambda>h. h), char_is_signed = True\<rparr>"

theorem syscall_dispatch_safe_witness:
  "syscall_dispatch quiet_hal syscall_init 7 1 2 3 4 (two_tasks, 0) = Some (-1, two_tasks, 0) \<and>
   syscall_dispatch quiet_hal syscall_init 0 1 2 3 4 (two_tasks, 5) = Some (0x41, two_tasks, 4)"
proof -
  have a: "syscall_dispatch quiet_hal syscall_init 7 1 2 3 4 (two_tasks, 0) = Some (-1, two_tasks, 0)"
    using syscall_dispatch_safe [OF two_tasks_inv, where E = quiet_hal and num = 7 and h = 0 and ?a1.0 = 1 and ?a2.0 = 2 and ?a3.0 = 3 and ?a4.0 = 4] by (auto split: option.splits)
  have "syscall_dispatch quiet_hal syscall_init 0 1 2 3 4 (two_tasks, 5) = Some (0x41, two_tasks, 4)"
    using syscall_dispatch_safe [OF two_tasks_inv, where E = quiet_hal and num = 0 and h = 5 and ?a1.0 = 1 and ?a2.0 = 2 and ?a3.0 = 3 and ?a4.0 = 4]
    by (auto simp: quiet_hal_def split: option.splits)
  with a show ?thesis by simp
qed

end
