(* ===== verification/Bmfs_Dir.thy ===== *)
theory Bmfs_Dir
  imports Prelude "HOL-Library.Multiset"
begin

text \<open>
  The directory layer of the BMFS filesystem (\<^verbatim>\<open>kernel/fs.c\<close>,
  \<^verbatim>\<open>kernel/fs.h\<close>): directory entries and their 64-byte on-disk form, the scans by
  name, for a free slot and for the number of files, and the first-fit block allocator with
  its insertion sort.  A file name is a byte list without its terminator; reading past its
  end gives the terminator.
\<close>

section \<open>Entries and their on-disk form\<close>

record bmfs_entry =
  filename :: bytes
  starting_block :: u64
  reserved_blocks :: u64
  file_size :: u64
  unused :: u64

type_synonym dir = "bmfs_entry list"

definition BMFS_BLOCK_SIZE :: u64 where "BMFS_BLOCK_SIZE = 2 * 1024 * 1024"
definition BMFS_DIR_OFFSET :: u64 where "BMFS_DIR_OFFSET = 4096"
definition BMFS_DIR_SIZE :: u32 where "BMFS_DIR_SIZE = 4096"
definition BMFS_TAG_OFFSET :: u64 where "BMFS_TAG_OFFSET = 1024"
definition BMFS_MAX_FILES :: nat where "BMFS_MAX_FILES = 64"
definition BMFS_MAX_FILENAME :: nat where "BMFS_MAX_FILENAME = 32"
definition BMFS_ENTRY_END :: u8 where "BMFS_ENTRY_END = 0"
definition BMFS_ENTRY_DELETED :: u8 where "BMFS_ENTRY_DELETED = 1"
definition FS_SECTOR_SIZE :: u32 where "FS_SECTOR_SIZE = 512"

lemmas BMFS_defs = BMFS_MAX_FILES_def BMFS_MAX_FILENAME_def BMFS_ENTRY_END_def
  BMFS_ENTRY_DELETED_def

definition bytes_of_entry :: "bmfs_entry \<Rightarrow> bytes" where
  "bytes_of_entry e = filename e @ put64 (starting_block e) @ put64 (reserved_blocks e) @
     put64 (file_size e) @ put64 (unused e)"

definition entry_of_bytes :: "bytes \<Rightarrow> bmfs_entry" where
  "entry_of_bytes bs = \<lparr>filename = slice 0 32 bs, starting_block = le64 32 bs,
     reserved_blocks = le64 40 bs, file_size = le64 48 bs, unused = le64 56 bs\<rparr>"

definition bytes_of_dir :: "dir \<Rightarrow> bytes" where
  "bytes_of_dir d = concat (map bytes_of_entry d)"

definition dir_of_bytes :: "bytes \<Rightarrow> dir" where
  "dir_of_bytes bs = map (\<lambda>i. entry_of_bytes (slice (64 * i) 64 bs)) [0..<BMFS_MAX_FILES]"

definition first_byte :: "bmfs_entry \<Rightarrow> u8" where
  "first_byte e = filename e ! 0"

section \<open>Scans\<close>

definition name_at :: "bytes \<Rightarrow> nat \<Rightarrow> u8" where
  "name_at name i = (if i < length name then name ! i else 0)"

function name_match_from :: "nat \<Rightarrow> bytes \<Rightarrow> bytes \<Rightarrow> bool" where
  "name_match_from i name entry_name =
     (if i < BMFS_MAX_FILENAME then
        if name_at name i \<noteq> entry_name ! i then False
        else if name_at name i = 0 then True
        else name_match_from (i + 1) name entry_name
      else True)"
  by auto
termination by (relation "measure (\<lambda>(i, _). BMFS_MAX_FILENAME - i)") auto

declare name_match_from.simps [simp del]

definition name_match :: "bytes \<Rightarrow> bytes \<Rightarrow> bool" where
  "name_match name entry_name = name_match_from 0 name entry_name"

fun dir_find_from :: "nat \<Rightarrow> bytes \<Rightarrow> dir \<Rightarrow> nat option" where
  "dir_find_from i name [] = None"
| "dir_find_from i name (e # es) =
     (if first_byte e = BMFS_ENTRY_END then None
      else if first_byte e = BMFS_ENTRY_DELETED then dir_find_from (i + 1) name es
      else if name_match name (filename e) then Some i
      else dir_find_from (i + 1) name es)"

definition dir_find :: "bytes \<Rightarrow> dir \<Rightarrow> nat option" where
  "dir_find name d = dir_find_from 0 name d"

fun dir_find_free_from :: "nat \<Rightarrow> dir \<Rightarrow> nat option" where
  "dir_find_free_from i [] = None"
| "dir_find_free_from i (e # es) =
     (if first_byte e = BMFS_ENTRY_DELETED then Some i
      else if first_byte e = BMFS_ENTRY_END then Some i
      else dir_find_free_from (i + 1) es)"

definition dir_find_free :: "dir \<Rightarrow> nat option" where
  "dir_find_free d = dir_find_free_from 0 d"

fun dir_count_used :: "dir \<Rightarrow> nat" where
  "dir_count_used [] = 0"
| "dir_count_used (e # es) =
     (if first_byte e = BMFS_ENTRY_END then 0
      else (if first_byte e \<noteq> BMFS_ENTRY_DELETED then 1 else 0) + dir_count_used es)"

section \<open>Block allocation\<close>

type_synonym region = "u64 \<times> u64"

fun collect_regions :: "dir \<Rightarrow> region list" where
  "collect_regions [] = []"
| "collect_regions (e # es) =
     (if first_byte e = BMFS_ENTRY_END then []
      else if first_byte e = BMFS_ENTRY_DELETED then collect_regions es
      else (starting_block e, reserved_blocks e) # collect_regions es)"

text \<open>
  One round of the insertion sort: \<open>shift_down k tmp\<close> is the inner loop entered with
  \<^verbatim>\<open>j = k - 1\<close>.
\<close>

fun shift_down :: "nat \<Rightarrow> region \<Rightarrow> region list \<Rightarrow> region list" where
  "shift_down 0 tmp rs = rs[0 := tmp]"
| "shift_down (Suc j) tmp rs =
     (if fst (rs ! j) > fst tmp then shift_down j tmp (rs[Suc j := rs ! j])
      else rs[Suc j := tmp])"

definition sort_regions :: "region list \<Rightarrow> region list" where
  "sort_regions rs = fold (\<lambda>i rs. shift_down i (rs ! i) rs) [1..<length rs] rs"

fun gap_scan :: "u64 \<Rightarrow> u64 \<Rightarrow> region list \<Rightarrow> u64" where
  "gap_scan candidate needed [] = candidate"
| "gap_scan candidate needed (r # rs) =
     (if fst r \<ge> candidate + needed then candidate
      else gap_scan (if fst r + snd r > candidate then fst r + snd r else candidate) needed rs)"

definition find_free_blocks :: "u64 \<Rightarrow> dir \<Rightarrow> u64" where
  "find_free_blocks needed d = gap_scan 1 needed (sort_regions (collect_regions d))"

section \<open>The on-disk form is faithful\<close>

definition entry_wf :: "bmfs_entry \<Rightarrow> bool" where
  "entry_wf e \<longleftrightarrow> length (filename e) = BMFS_MAX_FILENAME"

definition dir_wf :: "dir \<Rightarrow> bool" where
  "dir_wf d \<longleftrightarrow> length d = BMFS_MAX_FILES \<and> (\<forall>e \<in> set d. entry_wf e)"

lemma length_bytes_of_entry [simp]: "entry_wf e \<Longrightarrow> length (bytes_of_entry e) = 64"
  by (simp add: bytes_of_entry_def entry_wf_def BMFS_MAX_FILENAME_def)

lemma slice_at:
  "length pre = off \<Longrightarrow> length mid = n \<Longrightarrow> slice off n (pre @ mid @ post) = mid"
  by (simp add: slice_def)

lemma le64_at:
  assumes "length pre = off"
  shows "le64 off (pre @ put64 w @ post) = w"
  using slice_at [of pre off "put64 w" 8 post] assms by (simp add: le64_def le_val_put64)

lemma entry_of_bytes_of_entry:
  assumes "entry_wf e"
  shows "entry_of_bytes (bytes_of_entry e) = e"
proof -
  have len: "length (filename e) = 32" using assms by (simp add: entry_wf_def BMFS_MAX_FILENAME_def)
  let ?a = "filename e" and ?b = "put64 (starting_block e)" and ?c = "put64 (reserved_blocks e)"
  let ?d = "put64 (file_size e)" and ?f = "put64 (unused e)"
  have "slice 0 32 (bytes_of_entry e) = ?a"
    using slice_at [of "[]" 0 ?a 32] len by (simp add: bytes_of_entry_def)
  moreover have "le64 32 (bytes_of_entry e) = starting_block e"
    using le64_at [of ?a 32] len by (simp add: bytes_of_entry_def)
  moreover have "le64 40 (bytes_of_entry e) = reserved_blocks e"
    using le64_at [of "?a @ ?b" 40] len by (simp add: bytes_of_entry_def)
  moreover have "le64 48 (bytes_of_entry e) = file_size e"
    using le64_at [of "?a @ ?b @ ?c" 48] len by (simp add: bytes_of_entry_def)
  moreover have "le64 56 (bytes_of_entry e) = unused e"
    using le64_at [of "?a @ ?b @ ?c @ ?d" 56 _ "[]"] len by (simp add: bytes_of_entry_def)
  ultimately show ?thesis by (simp add: entry_of_bytes_def)
qed

lemma length_concat_const:
  "\<forall>x \<in> set xs. length x = n \<Longrightarrow> length (concat xs) = n * length xs"
  by (induction xs) auto

lemma slice_concat_const:
  assumes "\<forall>x \<in> set xs. length x = n" "i < length xs"
  shows "slice (n * i) n (concat xs) = xs ! i"
  using assms
proof (induction xs arbitrary: i)
  case (Cons x xs)
  then show ?case
    by (cases i) (auto simp: slice_append_left slice_append_right slice_def)
qed simp

lemma length_bytes_of_dir: "dir_wf d \<Longrightarrow> length (bytes_of_dir d) = 4096"
  using length_concat_const [of "map bytes_of_entry d" 64]
  by (simp add: bytes_of_dir_def dir_wf_def BMFS_MAX_FILES_def)

lemma dir_of_bytes_of_dir:
  assumes "dir_wf d"
  shows "dir_of_bytes (bytes_of_dir d) = d"
proof (rule nth_equalityI)
  show len: "length (dir_of_bytes (bytes_of_dir d)) = length d"
    using assms by (simp add: dir_of_bytes_def dir_wf_def)
  fix i assume "i < length (dir_of_bytes (bytes_of_dir d))"
  then have i: "i < length d" using len by simp
  then have "slice (64 * i) 64 (bytes_of_dir d) = bytes_of_entry (d ! i)"
    unfolding bytes_of_dir_def
    using slice_concat_const [of "map bytes_of_entry d" 64 i] assms by (simp add: dir_wf_def)
  then show "dir_of_bytes (bytes_of_dir d) ! i = d ! i"
    using i assms by (simp add: dir_of_bytes_def dir_wf_def entry_of_bytes_of_entry)
qed

lemma dir_of_bytes_wf: "length bs = 4096 \<Longrightarrow> dir_wf (dir_of_bytes bs)"
  by (auto simp: dir_wf_def dir_of_bytes_def entry_wf_def entry_of_bytes_def BMFS_defs
      slice_def min_def)

section \<open>What the scans find\<close>

text \<open>The name of an entry: the bytes before the first NUL of its 32-byte field.\<close>

definition entry_name :: "bmfs_entry \<Rightarrow> bytes" where
  "entry_name e = takeWhile (\<lambda>b. b \<noteq> 0) (filename e)"

lemma name_match_from_drop:
  assumes "length fn = 32" "0 \<notin> set name"
  shows "i \<le> 32 \<Longrightarrow> i \<le> length name \<Longrightarrow>
    name_match_from i name fn \<longleftrightarrow> take (32 - i) (drop i name) = takeWhile (\<lambda>b. b \<noteq> 0) (drop i fn)"
proof (induction "32 - i" arbitrary: i)
  case 0
  then have "i = 32" by simp
  then show ?case using assms by (simp add: name_match_from.simps [of 32] BMFS_MAX_FILENAME_def)
next
  case (Suc k)
  then have i: "i < 32" by simp
  have fn: "drop i fn = fn ! i # drop (i + 1) fn" using i assms(1) by (simp add: Cons_nth_drop_Suc)
  show ?case
  proof (cases "i < length name")
    case False
    then have "i = length name" using Suc.prems by simp
    then show ?thesis
      using i fn
      by (auto simp: name_match_from.simps [of "length name"] BMFS_MAX_FILENAME_def name_at_def)
  next
    case True
    have nm: "drop i name = name ! i # drop (i + 1) name" using True by (simp add: Cons_nth_drop_Suc)
    have nz: "name ! i \<noteq> 0" using assms(2) True by (metis nth_mem)
    have IH: "name_match_from (i + 1) name fn \<longleftrightarrow>
        take (32 - (i + 1)) (drop (i + 1) name) = takeWhile (\<lambda>b. b \<noteq> 0) (drop (i + 1) fn)"
      using Suc i True by (intro Suc.hyps(1)) simp_all
    have "32 - i = Suc (32 - (i + 1))" using i by simp
    then show ?thesis
      using i True nz IH
      by (simp add: name_match_from.simps [of i] BMFS_MAX_FILENAME_def name_at_def nm fn)
  qed
qed

lemma name_match_iff:
  assumes "entry_wf e" "0 \<notin> set name"
  shows "name_match name (filename e) \<longleftrightarrow> take 32 name = entry_name e"
  using name_match_from_drop [of "filename e" name 0] assms
  by (simp add: name_match_def entry_wf_def entry_name_def BMFS_MAX_FILENAME_def)

text \<open>The entries the scans can see: before the first end marker and not deleted.\<close>

definition visible :: "dir \<Rightarrow> nat \<Rightarrow> bool" where
  "visible d i \<longleftrightarrow> i < length d \<and> (\<forall>j \<le> i. first_byte (d ! j) \<noteq> BMFS_ENTRY_END) \<and>
     first_byte (d ! i) \<noteq> BMFS_ENTRY_DELETED"

lemma markers_distinct [simp]:
  "BMFS_ENTRY_DELETED \<noteq> BMFS_ENTRY_END" "BMFS_ENTRY_END \<noteq> BMFS_ENTRY_DELETED"
  by (simp_all add: BMFS_defs)

lemma visible_Nil [simp]: "\<not> visible [] i"
  by (simp add: visible_def)

lemma visible_0 [simp]:
  "visible (e # es) 0 \<longleftrightarrow> first_byte e \<noteq> BMFS_ENTRY_END \<and> first_byte e \<noteq> BMFS_ENTRY_DELETED"
  by (simp add: visible_def)

lemma visible_Suc [simp]:
  "visible (e # es) (Suc i) \<longleftrightarrow> first_byte e \<noteq> BMFS_ENTRY_END \<and> visible es i"
  by (auto simp: visible_def nth_Cons split: nat.splits)

lemma find_from_0_Suc:
  "find_from 0 (Suc n) P = (if P 0 then Some 0 else map_option Suc (find_from 0 n (\<lambda>i. P (Suc i))))"
proof -
  have "[0..<Suc n] = 0 # map Suc [0..<n]" by (simp add: upt_conv_Cons map_Suc_upt del: upt_Suc)
  moreover have "List.find P (map Suc xs) = map_option Suc (List.find (\<lambda>i. P (Suc i)) xs)" for xs
    by (induction xs) auto
  ultimately show ?thesis by (simp add: find_from_def del: upt_Suc)
qed

lemma find_from_False: "(\<And>i. \<not> P i) \<Longrightarrow> find_from lo n P = None"
  by (simp add: find_from_None)

lemma dir_find_from_eq:
  "dir_find_from k name d =
     map_option (\<lambda>i. i + k) (find_from 0 (length d) (\<lambda>i. visible d i \<and> name_match name (filename (d ! i))))"
proof (induction d arbitrary: k)
  case Nil
  then show ?case by (simp add: find_from_False)
next
  case (Cons e es)
  then show ?case
    by (cases "first_byte e = BMFS_ENTRY_END")
      (simp_all add: find_from_0_Suc option.map_comp comp_def find_from_False)
qed

lemma dir_find_eq:
  "dir_find name d = find_from 0 (length d) (\<lambda>i. visible d i \<and> name_match name (filename (d ! i)))"
  by (simp add: dir_find_def dir_find_from_eq option.map_ident)

lemma dir_find_free_eq:
  "dir_find_free d = find_from 0 (length d)
     (\<lambda>i. first_byte (d ! i) = BMFS_ENTRY_DELETED \<or> first_byte (d ! i) = BMFS_ENTRY_END)"
proof -
  have "dir_find_free_from k d = map_option (\<lambda>i. i + k) (find_from 0 (length d)
     (\<lambda>i. first_byte (d ! i) = BMFS_ENTRY_DELETED \<or> first_byte (d ! i) = BMFS_ENTRY_END))" for k
    by (induction d arbitrary: k)
      (simp_all add: find_from_0_Suc option.map_comp comp_def find_from_False, simp add: find_from_def)
  then show ?thesis by (simp add: dir_find_free_def option.map_ident)
qed

lemma set_collect_regions:
  "set (collect_regions d) = {(starting_block (d ! i), reserved_blocks (d ! i)) | i. visible d i}"
proof (induction d)
  case (Cons e es)
  have "{(starting_block ((e # es) ! i), reserved_blocks ((e # es) ! i)) | i. visible (e # es) i} =
    (if visible (e # es) 0 then {(starting_block e, reserved_blocks e)} else {}) \<union>
    (if first_byte e = BMFS_ENTRY_END then {} else
      {(starting_block (es ! i), reserved_blocks (es ! i)) | i. visible es i})" (is "?L = ?R")
  proof
    show "?L \<subseteq> ?R"
    proof
      fix x assume "x \<in> ?L"
      then obtain i where "visible (e # es) i"
          "x = (starting_block ((e # es) ! i), reserved_blocks ((e # es) ! i))" by blast
      then show "x \<in> ?R" by (cases i) auto
    qed
    show "?R \<subseteq> ?L"
      by (auto split: if_splits intro: exI [of _ 0] exI [of _ "Suc _"])
  qed
  then show ?case using Cons by simp
qed simp

section \<open>The insertion sort sorts\<close>

abbreviation sorted_regions :: "region list \<Rightarrow> bool" where
  "sorted_regions rs \<equiv> sorted (map fst rs)"

lemma shift_down_sorts:
  assumes "sorted_regions pre"
  shows "\<exists>pre'. shift_down (length pre) tmp (pre @ y # post) = pre' @ post \<and>
    length pre' = Suc (length pre) \<and> sorted_regions pre' \<and>
    mset pre' = add_mset tmp (mset pre)"
  using assms
proof (induction pre arbitrary: y post rule: rev_induct)
  case Nil
  then show ?case by (intro exI [of _ "[tmp]"]) simp
next
  case (snoc x pre)
  let ?rs = "(pre @ [x]) @ y # post"
  have x: "?rs ! length pre = x" by (simp add: nth_append)
  show ?case
  proof (cases "fst x > fst tmp")
    case True
    have upd: "?rs[Suc (length pre) := x] = pre @ x # x # post"
      by (simp add: list_update_append)
    obtain pre' where pre': "shift_down (length pre) tmp (pre @ x # x # post) = pre' @ x # post"
        "length pre' = Suc (length pre)" "sorted_regions pre'" "mset pre' = add_mset tmp (mset pre)"
      using snoc.IH [of x "x # post"] snoc.prems by (auto simp: sorted_append)
    have "fst r \<le> fst x" if "r \<in> set pre'" for r
    proof -
      have "r \<in># mset pre'" using that by simp
      then have "r = tmp \<or> r \<in> set pre" by (simp add: pre'(4))
      then show ?thesis using snoc.prems True by (auto simp: sorted_append)
    qed
    then have "sorted_regions (pre' @ [x])" using pre'(3) by (auto simp: sorted_append)
    then show ?thesis
      using True x upd pre' by (intro exI [of _ "pre' @ [x]"]) simp
  next
    case False
    have "?rs[Suc (length pre) := tmp] = pre @ [x, tmp] @ post"
      by (simp add: list_update_append)
    moreover have "sorted_regions (pre @ [x, tmp])"
      using snoc.prems False by (auto simp: sorted_append not_less intro: order_trans)
    ultimately show ?thesis
      using False x by (intro exI [of _ "pre @ [x, tmp]"]) simp
  qed
qed

lemma sort_rounds:
  "k \<le> length rs \<Longrightarrow> 1 \<le> k \<Longrightarrow>
   \<exists>pre. fold (\<lambda>i rs. shift_down i (rs ! i) rs) [1..<k] rs = pre @ drop k rs \<and>
     length pre = k \<and> sorted_regions pre \<and> mset pre = mset (take k rs)"
proof (induction k)
  case (Suc k)
  show ?case
  proof (cases "k = 0")
    case True
    then show ?thesis using Suc.prems
      by (cases rs) (auto intro!: exI [of _ "[hd rs]"])
  next
    case False
    then obtain pre where pre: "fold (\<lambda>i rs. shift_down i (rs ! i) rs) [1..<k] rs = pre @ drop k rs"
        "length pre = k" "sorted_regions pre" "mset pre = mset (take k rs)"
      using Suc by auto
    have dr: "drop k rs = rs ! k # drop (Suc k) rs" using Suc.prems by (simp add: Cons_nth_drop_Suc)
    obtain pre' where pre': "shift_down k (rs ! k) (pre @ rs ! k # drop (Suc k) rs) = pre' @ drop (Suc k) rs"
        "length pre' = Suc k" "sorted_regions pre'" "mset pre' = add_mset (rs ! k) (mset pre)"
      using shift_down_sorts [OF pre(3), of "rs ! k" "rs ! k" "drop (Suc k) rs"] pre(2) by auto
    have "[1..<Suc k] = [1..<k] @ [k]" using False by simp
    then have "fold (\<lambda>i rs. shift_down i (rs ! i) rs) [1..<Suc k] rs = pre' @ drop (Suc k) rs"
      using pre pre'(1) dr by (simp add: nth_append)
    moreover have "mset pre' = mset (take (Suc k) rs)"
      using pre'(4) pre(4) Suc.prems by (simp add: take_Suc_conv_app_nth)
    ultimately show ?thesis using pre' by blast
  qed
qed simp

lemma sort_regions_props: "sorted_regions (sort_regions rs)" "mset (sort_regions rs) = mset rs"
proof -
  have "sorted_regions (sort_regions rs) \<and> mset (sort_regions rs) = mset rs"
  proof (cases "rs = []")
    case True
    then show ?thesis by (simp add: sort_regions_def)
  next
    case False
    then have "1 \<le> length rs" by (cases rs) auto
    from sort_rounds [OF le_refl this] show ?thesis by (auto simp: sort_regions_def)
  qed
  then show "sorted_regions (sort_regions rs)" "mset (sort_regions rs) = mset rs" by blast+
qed

lemma set_sort_regions [simp]: "set (sort_regions rs) = set rs"
  using sort_regions_props(2) by (rule mset_eq_setD)

section \<open>The allocator returns free blocks\<close>

definition blocks :: "u64 \<Rightarrow> u64 \<Rightarrow> nat set" where
  "blocks start cnt = {unat start..<unat start + unat cnt}"

text \<open>No region end plus the requested count reaches the block limit.\<close>

definition regions_fit :: "nat \<Rightarrow> nat \<Rightarrow> region list \<Rightarrow> bool" where
  "regions_fit limit needed rs \<longleftrightarrow> (\<forall>r \<in> set rs. unat (fst r) + unat (snd r) + needed \<le> limit)"

lemma unat_add_lt: "unat (a :: u64) + unat b < 2 ^ 64 \<Longrightarrow> unat (a + b) = unat a + unat b"
  by (simp add: unat_word_ariths)

lemma gap_scan_free:
  assumes "sorted_regions rs" "regions_fit limit (unat needed) rs" "limit < 2 ^ 64"
    "unat cand + unat needed \<le> limit"
  shows "unat cand \<le> unat (gap_scan cand needed rs) \<and>
    unat (gap_scan cand needed rs) + unat needed \<le> limit \<and>
    (\<forall>r \<in> set rs. blocks (gap_scan cand needed rs) needed \<inter> blocks (fst r) (snd r) = {})"
  using assms
proof (induction rs arbitrary: cand)
  case (Cons r rs)
  have cn: "unat (cand + needed) = unat cand + unat needed"
    using Cons.prems by (intro unat_add_lt) simp
  have re: "unat (fst r + snd r) = unat (fst r) + unat (snd r)"
    using Cons.prems by (intro unat_add_lt) (auto simp: regions_fit_def)
  show ?case
  proof (cases "fst r \<ge> cand + needed")
    case True
    then have "unat cand + unat needed \<le> unat (fst r)" by (simp add: word_le_nat_alt cn)
    moreover have "\<forall>q \<in> set rs. unat (fst r) \<le> unat (fst q)"
      using Cons.prems(1) by (simp add: word_le_nat_alt [symmetric])
    ultimately show ?thesis using True Cons.prems by (fastforce simp: blocks_def)
  next
    case False
    let ?c = "if fst r + snd r > cand then fst r + snd r else cand"
    have c: "unat ?c = max (unat cand) (unat (fst r) + unat (snd r))"
      using re by (auto simp: word_less_nat_alt max_def)
    have "unat ?c + unat needed \<le> limit"
      using Cons.prems c by (auto simp: regions_fit_def max_def)
    then have IH: "unat ?c \<le> unat (gap_scan ?c needed rs) \<and>
        unat (gap_scan ?c needed rs) + unat needed \<le> limit \<and>
        (\<forall>r \<in> set rs. blocks (gap_scan ?c needed rs) needed \<inter> blocks (fst r) (snd r) = {})"
      using Cons.prems by (intro Cons.IH) (auto simp: regions_fit_def)
    have "gap_scan cand needed (r # rs) = gap_scan ?c needed rs" using False by simp
    moreover have "blocks (gap_scan ?c needed rs) needed \<inter> blocks (fst r) (snd r) = {}"
      using IH c by (auto simp: blocks_def)
    ultimately show ?thesis using IH c by auto
  qed
qed simp

end
