(* ===== verification/Bmfs_Io.thy ===== *)
theory Bmfs_Io
  imports Bmfs_Dir "HOL-Library.Monad_Syntax"
begin

text \<open>
  The I/O layer of the BMFS filesystem (\<^verbatim>\<open>kernel/fs.c\<close>): sector transfers
  through the storage driver, transfers of arbitrary byte ranges by whole sectors and by
  read-modify-write of partial sectors, and the directory transfers.  The storage driver is a
  parameter: two optional operations on an abstract device state \<open>'d\<close>.  A loop that never
  ends is the result \<open>None\<close>.  The scratch sector buffer is only ever read right after it has
  been filled, so the state keeps whether it is allocated; a failed read leaves the caller's
  buffer unspecified and returns no data.
\<close>

section \<open>State\<close>

record 'd storage_ops =
  st_read :: "('d \<Rightarrow> u64 \<Rightarrow> u32 \<Rightarrow> int \<times> bytes \<times> 'd) option"
  st_write :: "(bytes \<Rightarrow> u64 \<Rightarrow> u32 \<Rightarrow> 'd \<Rightarrow> int \<times> 'd) option"

record fs_fd =
  in_use :: bool
  dir_index :: nat
  fd_starting_block :: u64
  fd_reserved_blocks :: u64
  fd_file_size :: u64
  fd_filename :: bytes

record 'd fs =
  g_dir :: dir
  g_fds :: "fs_fd list"
  g_partition_lba :: u64
  g_storage :: "'d storage_ops option"
  g_initialized :: bool
  g_sector_buf :: bool
  g_dev :: 'd

section \<open>Sector transfers\<close>

definition fs_read_sectors :: "u64 \<Rightarrow> u32 \<Rightarrow> 'd fs \<Rightarrow> int \<times> bytes \<times> 'd fs" where
  "fs_read_sectors lba n fs =
     (case g_storage fs of None \<Rightarrow> (-1, [], fs)
      | Some ops \<Rightarrow>
        (case st_read ops of None \<Rightarrow> (-1, [], fs)
         | Some rd \<Rightarrow>
           (case rd (g_dev fs) (g_partition_lba fs + lba) n of (rc, data, d) \<Rightarrow>
              (if rc > 0 then 0 else -1, data, fs\<lparr>g_dev := d\<rparr>))))"

definition fs_write_sectors :: "bytes \<Rightarrow> u64 \<Rightarrow> u32 \<Rightarrow> 'd fs \<Rightarrow> int \<times> 'd fs" where
  "fs_write_sectors buf lba n fs =
     (case g_storage fs of None \<Rightarrow> (-1, fs)
      | Some ops \<Rightarrow>
        (case st_write ops of None \<Rightarrow> (-1, fs)
         | Some wr \<Rightarrow>
           (case wr buf (g_partition_lba fs + lba) n (g_dev fs) of (rc, d) \<Rightarrow>
              (if rc > 0 then 0 else -1, fs\<lparr>g_dev := d\<rparr>))))"

definition byte_to_sector :: "u64 \<Rightarrow> u64" where
  "byte_to_sector byte_offset = byte_offset div ucast FS_SECTOR_SIZE"

definition dir_read :: "'d fs \<Rightarrow> int \<times> 'd fs" where
  "dir_read fs =
     (case fs_read_sectors (byte_to_sector BMFS_DIR_OFFSET) (BMFS_DIR_SIZE div FS_SECTOR_SIZE) fs of
        (rc, data, fs1) \<Rightarrow>
          if rc < 0 then (rc, fs1) else (rc, fs1\<lparr>g_dir := dir_of_bytes data\<rparr>))"

definition dir_write :: "'d fs \<Rightarrow> int \<times> 'd fs" where
  "dir_write fs =
     fs_write_sectors (bytes_of_dir (g_dir fs)) (byte_to_sector BMFS_DIR_OFFSET)
       (BMFS_DIR_SIZE div FS_SECTOR_SIZE) fs"

section \<open>Byte-range transfers\<close>

partial_function (option) fs_read_bytes ::
  "u64 \<Rightarrow> u64 \<Rightarrow> 'd fs \<Rightarrow> (int \<times> bytes \<times> 'd fs) option" where
  "fs_read_bytes byte_offset cnt fs =
     (if cnt = 0 then Some (0, [], fs)
      else
        (let sector = byte_to_sector byte_offset;
             offset_in_sector = (ucast (byte_offset mod ucast FS_SECTOR_SIZE) :: u32);
             avail = FS_SECTOR_SIZE - offset_in_sector
         in
         if offset_in_sector = 0 \<and> cnt \<ge> ucast FS_SECTOR_SIZE then
           (let n0 = (ucast (cnt div ucast FS_SECTOR_SIZE) :: u32);
                nsectors = (if n0 > 256 then 256 else n0);
                nbytes = (ucast nsectors * ucast FS_SECTOR_SIZE :: u64)
            in case fs_read_sectors sector nsectors fs of (rc, data, fs1) \<Rightarrow>
               if rc < 0 then Some (-1, [], fs1)
               else do {
                 (rc', rest, fs2) \<leftarrow> fs_read_bytes (byte_offset + nbytes) (cnt - nbytes) fs1;
                 Some (rc', data @ rest, fs2)
               })
         else
           (case fs_read_sectors sector 1 fs of (rc, data, fs1) \<Rightarrow>
              if rc < 0 then Some (-1, [], fs1)
              else
                (let to_copy = (if ucast avail > cnt then ucast cnt else avail) in
                 do {
                   (rc', rest, fs2) \<leftarrow> fs_read_bytes (byte_offset + ucast to_copy) (cnt - ucast to_copy) fs1;
                   Some (rc', slice (unat offset_in_sector) (unat to_copy) data @ rest, fs2)
                 }))))"

declare fs_read_bytes.simps [code]

partial_function (option) fs_write_bytes ::
  "bytes \<Rightarrow> u64 \<Rightarrow> u64 \<Rightarrow> 'd fs \<Rightarrow> (int \<times> 'd fs) option" where
  "fs_write_bytes src byte_offset cnt fs =
     (if cnt = 0 then Some (0, fs)
      else
        (let sector = byte_to_sector byte_offset;
             offset_in_sector = (ucast (byte_offset mod ucast FS_SECTOR_SIZE) :: u32);
             avail = FS_SECTOR_SIZE - offset_in_sector
         in
         if offset_in_sector = 0 \<and> cnt \<ge> ucast FS_SECTOR_SIZE then
           (let n0 = (ucast (cnt div ucast FS_SECTOR_SIZE) :: u32);
                nsectors = (if n0 > 256 then 256 else n0);
                nbytes = (ucast nsectors * ucast FS_SECTOR_SIZE :: u64)
            in case fs_write_sectors (take (unat nbytes) src) sector nsectors fs of (rc, fs1) \<Rightarrow>
               if rc < 0 then Some (-1, fs1)
               else fs_write_bytes (drop (unat nbytes) src) (byte_offset + nbytes) (cnt - nbytes) fs1)
         else
           (case fs_read_sectors sector 1 fs of (rc, data, fs1) \<Rightarrow>
              if rc < 0 then Some (-1, fs1)
              else
                (let to_copy = (if ucast avail > cnt then ucast cnt else avail);
                     buf = patch (unat offset_in_sector) (take (unat to_copy) src) data
                 in case fs_write_sectors buf sector 1 fs1 of (rc, fs2) \<Rightarrow>
                    if rc < 0 then Some (-1, fs2)
                    else fs_write_bytes (drop (unat to_copy) src) (byte_offset + ucast to_copy)
                           (cnt - ucast to_copy) fs2))))"

declare fs_write_bytes.simps [code]

section \<open>What the driver promises\<close>

text \<open>
  Storage contents are a byte per absolute address.  The driver transfers up to 256 sectors
  inside its capacity with a positive result; a read changes no contents, a write changes
  exactly the sectors it names.
\<close>

definition written :: "nat \<Rightarrow> bytes \<Rightarrow> (nat \<Rightarrow> u8) \<Rightarrow> (nat \<Rightarrow> u8)" where
  "written lo src f = (\<lambda>a. if lo \<le> a \<and> a < lo + length src then src ! (a - lo) else f a)"

definition stored :: "(nat \<Rightarrow> u8) \<Rightarrow> nat \<Rightarrow> nat \<Rightarrow> bytes" where
  "stored f lo n = map f [lo..<lo + n]"

definition storage_contract :: "('d \<Rightarrow> nat \<Rightarrow> u8) \<Rightarrow> nat \<Rightarrow> 'd storage_ops \<Rightarrow> bool" where
  "storage_contract disk cap ops \<longleftrightarrow>
     (\<exists>rd wr. st_read ops = Some rd \<and> st_write ops = Some wr \<and>
       (\<forall>d lba n. 0 < n \<and> n \<le> 256 \<and> unat lba + unat n \<le> cap \<longrightarrow>
          (\<exists>rc d'. rd d lba n = (rc, stored (disk d) (512 * unat lba) (512 * unat n), d') \<and>
                   rc > 0 \<and> disk d' = disk d)) \<and>
       (\<forall>buf d lba n. 0 < n \<and> n \<le> 256 \<and> unat lba + unat n \<le> cap \<and> length buf = 512 * unat n \<longrightarrow>
          (\<exists>rc d'. wr buf lba n d = (rc, d') \<and> rc > 0 \<and>
                   disk d' = written (512 * unat lba) buf (disk d))))"

text \<open>A mounted filesystem over such a driver: the first byte address of the partition.\<close>

definition part_base :: "'d fs \<Rightarrow> nat" where
  "part_base fs = 512 * unat (g_partition_lba fs)"

definition on_storage :: "('d \<Rightarrow> nat \<Rightarrow> u8) \<Rightarrow> nat \<Rightarrow> 'd fs \<Rightarrow> bool" where
  "on_storage disk cap fs \<longleftrightarrow>
     cap < 2 ^ 55 \<and> (\<exists>ops. g_storage fs = Some ops \<and> storage_contract disk cap ops)"

section \<open>Contents lemmas\<close>

lemma length_stored [simp]: "length (stored f lo n) = n"
  by (simp add: stored_def)

lemma stored_0 [simp]: "stored f lo 0 = []"
  by (simp add: stored_def)

lemma stored_nth [simp]: "i < n \<Longrightarrow> stored f lo n ! i = f (lo + i)"
  by (simp add: stored_def)

lemma stored_append: "stored f lo a @ stored f (lo + a) b = stored f lo (a + b)"
  by (rule nth_equalityI) (auto simp: nth_append)

lemma slice_stored: "off + n \<le> m \<Longrightarrow> slice off n (stored f lo m) = stored f (lo + off) n"
  by (rule nth_equalityI) (simp_all add: slice_nth add.assoc)

lemma written_Nil [simp]: "written lo [] f = f"
  by (auto simp: written_def fun_eq_iff)

lemma written_append: "written (lo + length x) y (written lo x f) = written lo (x @ y) f"
  by (auto simp: written_def nth_append fun_eq_iff)

lemma written_patch_stored:
  assumes "off + length x \<le> n"
  shows "written lo (patch off x (stored f lo n)) f = written (lo + off) x f"
  using assms by (auto simp: written_def nth_patch fun_eq_iff)

lemma stored_written_same: "stored (written lo x f) lo (length x) = x"
  by (rule nth_equalityI) (simp_all add: written_def)

lemma stored_written_other:
  "a + n \<le> lo \<or> lo + length x \<le> a \<Longrightarrow> stored (written lo x f) a n = stored f a n"
  by (rule nth_equalityI) (auto simp: written_def)

section \<open>Sector transfers on a contract driver\<close>

lemma byte_to_sector_unat [simp]: "unat (byte_to_sector off) = unat off div 512"
  by (simp add: byte_to_sector_def FS_SECTOR_SIZE_def unat_div)

lemma offset_in_sector_unat:
  "unat (ucast (off mod ucast FS_SECTOR_SIZE :: u64) :: u32) = unat off mod 512"
proof -
  have "unat (off mod 512) < 2 ^ 32" by (simp add: unat_mod)
  then show ?thesis by (simp add: FS_SECTOR_SIZE_def unsigned_ucast_eq take_bit_eq_mod unat_mod)
qed

lemma fs_read_sectors_ok:
  assumes "on_storage disk cap fs" "0 < n" "n \<le> 256"
    "unat (g_partition_lba fs) + unat lba + unat n \<le> cap"
  shows "\<exists>d. fs_read_sectors lba n fs =
      (0, stored (disk (g_dev fs)) (part_base fs + 512 * unat lba) (512 * unat n), fs\<lparr>g_dev := d\<rparr>)
    \<and> disk d = disk (g_dev fs)"
proof -
  obtain ops rd where ops: "g_storage fs = Some ops" "st_read ops = Some rd" and
      rd: "\<forall>d lba n. 0 < n \<and> n \<le> 256 \<and> unat lba + unat n \<le> cap \<longrightarrow>
          (\<exists>rc d'. rd d lba n = (rc, stored (disk d) (512 * unat lba) (512 * unat n), d') \<and>
                   rc > 0 \<and> disk d' = disk d)"
    using assms(1) unfolding on_storage_def storage_contract_def by blast
  have "unat (g_partition_lba fs + lba) = unat (g_partition_lba fs) + unat lba"
    using assms by (intro unat_add_lt) (simp add: on_storage_def)
  then show ?thesis
    using rd [rule_format, of n "g_partition_lba fs + lba" "g_dev fs"] assms ops
    by (auto simp: fs_read_sectors_def part_base_def distrib_left)
qed

lemma fs_write_sectors_ok:
  assumes "on_storage disk cap fs" "0 < n" "n \<le> 256" "length buf = 512 * unat n"
    "unat (g_partition_lba fs) + unat lba + unat n \<le> cap"
  shows "\<exists>d. fs_write_sectors buf lba n fs = (0, fs\<lparr>g_dev := d\<rparr>)
    \<and> disk d = written (part_base fs + 512 * unat lba) buf (disk (g_dev fs))"
proof -
  obtain ops wr where ops: "g_storage fs = Some ops" "st_write ops = Some wr" and
      wr: "\<forall>buf d lba n. 0 < n \<and> n \<le> 256 \<and> unat lba + unat n \<le> cap \<and> length buf = 512 * unat n \<longrightarrow>
          (\<exists>rc d'. wr buf lba n d = (rc, d') \<and> rc > 0 \<and>
                   disk d' = written (512 * unat lba) buf (disk d))"
    using assms(1) unfolding on_storage_def storage_contract_def by blast
  have "unat (g_partition_lba fs + lba) = unat (g_partition_lba fs) + unat lba"
    using assms by (intro unat_add_lt) (simp add: on_storage_def)
  then show ?thesis
    using wr [rule_format, of n "g_partition_lba fs + lba" buf "g_dev fs"] assms ops
    by (auto simp: fs_write_sectors_def part_base_def distrib_left)
qed

lemma on_storage_dev [simp]: "on_storage disk cap (fs\<lparr>g_dev := d\<rparr>) = on_storage disk cap fs"
  by (simp add: on_storage_def)

lemma part_base_dev [simp]: "part_base (fs\<lparr>g_dev := d\<rparr>) = part_base fs"
  by (simp add: part_base_def)

section \<open>Byte-range transfers on a contract driver\<close>

text \<open>The sizes of one iteration: of a run of whole sectors, and of a partial sector.\<close>

lemma run_sizes:
  fixes cnt :: u64
  assumes "unat cnt < 2 ^ 41" "512 \<le> unat cnt"
  defines "n0 \<equiv> (ucast (cnt div ucast FS_SECTOR_SIZE) :: u32)"
  defines "ns \<equiv> (if n0 > 256 then 256 else n0)"
  defines "nb \<equiv> (ucast ns * ucast FS_SECTOR_SIZE :: u64)"
  shows "0 < ns" "ns \<le> 256" "unat nb = 512 * unat ns" "512 * unat ns \<le> unat cnt"
proof -
  have "unat (cnt div 512) < 2 ^ 32" using assms(1) by (simp add: unat_div)
  then have n0: "unat n0 = unat cnt div 512"
    by (simp add: n0_def FS_SECTOR_SIZE_def unsigned_ucast_eq take_bit_eq_mod unat_div)
  have ns: "unat ns = min 256 (unat cnt div 512)"
    using n0 by (auto simp: ns_def word_less_nat_alt min_def)
  show "0 < ns" "ns \<le> 256" "512 * unat ns \<le> unat cnt"
    using ns assms(2) by (auto simp: word_less_nat_alt word_le_nat_alt)
  have "unat ns \<le> 256" using ns by simp
  then show "unat nb = 512 * unat ns"
    by (simp add: nb_def FS_SECTOR_SIZE_def unat_word_ariths unsigned_ucast_eq take_bit_eq_mod)
qed

lemma partial_sizes:
  fixes cnt off :: u64
  assumes "cnt \<noteq> 0"
  defines "ois \<equiv> (ucast (off mod ucast FS_SECTOR_SIZE) :: u32)"
  defines "avail \<equiv> FS_SECTOR_SIZE - ois"
  defines "tc \<equiv> (if ucast avail > cnt then ucast cnt else avail)"
  shows "unat tc = min (unat cnt) (512 - unat off mod 512)"
    "unat (ucast tc :: u64) = unat tc" "0 < unat tc"
proof -
  have ois: "unat ois = unat off mod 512" unfolding ois_def by (rule offset_in_sector_unat)
  then have "ois \<le> 512" by (simp add: word_le_nat_alt)
  then have av: "unat avail = 512 - unat off mod 512"
    using ois by (simp add: avail_def FS_SECTOR_SIZE_def unat_sub)
  have av64: "unat (ucast avail :: u64) = unat avail"
    by (simp add: unsigned_ucast_eq take_bit_eq_mod av)
  have "unat (ucast cnt :: u32) = unat cnt" if "unat cnt < 512"
    using that by (simp add: unsigned_ucast_eq take_bit_eq_mod)
  then show tc: "unat tc = min (unat cnt) (512 - unat off mod 512)"
    using av av64 by (auto simp: tc_def word_less_nat_alt)
  then show "unat (ucast tc :: u64) = unat tc"
    by (simp add: unsigned_ucast_eq take_bit_eq_mod)
  have "unat cnt \<noteq> 0" using assms(1) by (simp add: unat_eq_zero)
  then show "0 < unat tc" using tc by simp
qed

lemma full_run_cond:
  "ucast (off mod ucast FS_SECTOR_SIZE :: u64) = (0 :: u32) \<and> cnt \<ge> (ucast FS_SECTOR_SIZE :: u64)
   \<longleftrightarrow> unat off mod 512 = 0 \<and> 512 \<le> unat cnt"
proof -
  have "ucast (off mod ucast FS_SECTOR_SIZE :: u64) = (0 :: u32) \<longleftrightarrow> unat off mod 512 = 0"
    using offset_in_sector_unat [of off] by (metis unat_eq_zero)
  then show ?thesis by (simp add: FS_SECTOR_SIZE_def word_le_nat_alt)
qed

lemma unat_advance:
  assumes "unat (off :: u64) + unat cnt < 2 ^ 64" "unat (b :: u64) \<le> unat cnt"
  shows "unat (off + b) = unat off + unat b" "unat (cnt - b) = unat cnt - unat b"
  using assms by (auto intro!: unat_add_lt simp: unat_sub word_le_nat_alt)

lemma on_storage_lt:
  assumes "on_storage disk cap fs" "part_base fs + a + b \<le> 512 * cap"
  shows "a + b < 2 ^ 64"
proof -
  have "512 * cap < 2 ^ 64" using assms(1) by (simp add: on_storage_def)
  then show ?thesis using assms(2) by linarith
qed

lemma sector_bound:
  assumes "part_base fs + a + b \<le> 512 * cap" "512 * n \<le> a mod 512 + b \<or> n = 1 \<and> 0 < b"
  shows "unat (g_partition_lba fs) + a div 512 + n \<le> cap"
proof -
  have "a = 512 * (a div 512) + a mod 512" by simp
  then have *: "512 * unat (g_partition_lba fs) + 512 * (a div 512) + a mod 512 + b \<le> 512 * cap"
    using assms(1) unfolding part_base_def by linarith
  from assms(2) show ?thesis
  proof
    assume "512 * n \<le> a mod 512 + b"
    then have "512 * (unat (g_partition_lba fs) + a div 512 + n) \<le> 512 * cap"
      using * by (simp only: distrib_left; linarith)
    then show ?thesis by simp
  next
    assume n: "n = 1 \<and> 0 < b"
    then have "512 * (unat (g_partition_lba fs) + a div 512) < 512 * cap"
      using * by (simp only: distrib_left; linarith)
    then show ?thesis using n by simp
  qed
qed

lemma fs_read_bytes_ok:
  assumes "on_storage disk cap fs" "part_base fs + unat off + unat cnt \<le> 512 * cap"
    "unat cnt < 2 ^ 41"
  shows "\<exists>d. fs_read_bytes off cnt fs =
      Some (0, stored (disk (g_dev fs)) (part_base fs + unat off) (unat cnt), fs\<lparr>g_dev := d\<rparr>)
    \<and> disk d = disk (g_dev fs)"
  using assms
proof (induction "unat cnt" arbitrary: off cnt fs rule: less_induct)
  case less
  note ons = less.prems(1) and fit = less.prems(2)
  have lt: "unat off + unat cnt < 2 ^ 64" by (rule on_storage_lt [OF ons fit])
  let ?a = "unat off" and ?f = "disk (g_dev fs)"
  have step: "\<exists>d2. fs_read_bytes (off + b) (cnt - b) (fs\<lparr>g_dev := d\<rparr>) =
        Some (0, stored ?f (part_base fs + ?a + unat b) (unat cnt - unat b), fs\<lparr>g_dev := d2\<rparr>)
      \<and> disk d2 = ?f"
    if "0 < unat b" "unat b \<le> unat cnt" "disk d = ?f" for b d
    using less.hyps [of "cnt - b" "fs\<lparr>g_dev := d\<rparr>" "off + b"] that less.prems
    by (simp add: unat_advance [OF lt that(2)] add.assoc)
  consider (zero) "cnt = 0" | (run) "cnt \<noteq> 0" "?a mod 512 = 0 \<and> 512 \<le> unat cnt"
    | (part) "cnt \<noteq> 0" "\<not> (?a mod 512 = 0 \<and> 512 \<le> unat cnt)" by blast
  then show ?case
  proof cases
    case zero
    then show ?thesis by (intro exI [of _ "g_dev fs"]) (simp add: fs_read_bytes.simps)
  next
    case run
    define n0 where "n0 = (ucast (cnt div ucast FS_SECTOR_SIZE) :: u32)"
    define ns where "ns = (if n0 > 256 then 256 else n0)"
    define nb where "nb = (ucast ns * ucast FS_SECTOR_SIZE :: u64)"
    note sz = run_sizes [OF less.prems(3) conjunct2 [OF run(2)],
        folded n0_def, folded ns_def, folded nb_def]
    have "unat (g_partition_lba fs) + unat (byte_to_sector off) + unat ns \<le> cap"
      using sector_bound [OF fit, of "unat ns"] sz(4) by simp
    note rd = fs_read_sectors_ok [OF ons sz(1,2) this]
    have "512 * (?a div 512) = ?a" using run(2) by auto
    with rd obtain d where d: "fs_read_sectors (byte_to_sector off) ns fs =
        (0, stored ?f (part_base fs + ?a) (unat nb), fs\<lparr>g_dev := d\<rparr>)" "disk d = ?f"
      using sz(3) by auto
    obtain d2 where d2: "fs_read_bytes (off + nb) (cnt - nb) (fs\<lparr>g_dev := d\<rparr>) =
        Some (0, stored ?f (part_base fs + ?a + unat nb) (unat cnt - unat nb), fs\<lparr>g_dev := d2\<rparr>)"
        "disk d2 = ?f"
      using step [of nb d] sz d(2) by (auto simp: word_less_nat_alt)
    have "fs_read_bytes off cnt fs =
        Some (0, stored ?f (part_base fs + ?a) (unat nb) @
                 stored ?f (part_base fs + ?a + unat nb) (unat cnt - unat nb), fs\<lparr>g_dev := d2\<rparr>)"
      unfolding fs_read_bytes.simps [of off cnt fs] Let_def full_run_cond n0_def [symmetric]
        ns_def [symmetric] nb_def [symmetric]
      using run d(1) d2(1) by simp
    then show ?thesis using d2(2) sz by (intro exI [of _ d2]) (simp add: stored_append)
  next
    case part
    define ois where "ois = (ucast (off mod ucast FS_SECTOR_SIZE) :: u32)"
    define av where "av = FS_SECTOR_SIZE - ois"
    define tc where "tc = (if ucast av > cnt then ucast cnt else av)"
    note sz = partial_sizes [OF part(1), of off, folded ois_def, folded av_def, folded tc_def]
    have o: "unat ois = ?a mod 512" unfolding ois_def by (rule offset_in_sector_unat)
    have c: "(ois = 0 \<and> ucast FS_SECTOR_SIZE \<le> cnt) = False"
      using part(2) full_run_cond [of off cnt] by (simp add: ois_def)
    have "unat (g_partition_lba fs) + unat (byte_to_sector off) + unat (1 :: u32) \<le> cap"
      using sector_bound [OF fit, of 1] part(1) by (simp add: unat_gt_0)
    from fs_read_sectors_ok [OF ons _ _ this]
    obtain d where d: "fs_read_sectors (byte_to_sector off) 1 fs =
        (0, stored ?f (part_base fs + 512 * (?a div 512)) 512, fs\<lparr>g_dev := d\<rparr>)" "disk d = ?f"
      by auto
    have sl: "slice (unat ois) (unat tc) (stored ?f (part_base fs + 512 * (?a div 512)) 512) =
        stored ?f (part_base fs + ?a) (unat tc)"
      using sz(1) o by (subst slice_stored) (simp_all add: add.assoc)
    obtain d2 where d2: "fs_read_bytes (off + ucast tc) (cnt - ucast tc) (fs\<lparr>g_dev := d\<rparr>) =
        Some (0, stored ?f (part_base fs + ?a + unat tc) (unat cnt - unat tc), fs\<lparr>g_dev := d2\<rparr>)"
        "disk d2 = ?f"
      using step [of "ucast tc" d] sz d(2) by auto
    have "fs_read_bytes off cnt fs =
        Some (0, stored ?f (part_base fs + ?a) (unat tc) @
                 stored ?f (part_base fs + ?a + unat tc) (unat cnt - unat tc), fs\<lparr>g_dev := d2\<rparr>)"
      unfolding fs_read_bytes.simps [of off cnt fs] Let_def ois_def [symmetric]
        av_def [symmetric] tc_def [symmetric]
      using part(1) d(1) d2(1) sl by (simp add: c)
    then show ?thesis using d2(2) sz by (intro exI [of _ d2]) (simp add: stored_append)
  qed
qed

lemma fs_write_bytes_ok:
  assumes "on_storage disk cap fs" "part_base fs + unat off + unat cnt \<le> 512 * cap"
    "unat cnt < 2 ^ 41" "length src = unat cnt"
  shows "\<exists>d. fs_write_bytes src off cnt fs = Some (0, fs\<lparr>g_dev := d\<rparr>)
    \<and> disk d = written (part_base fs + unat off) src (disk (g_dev fs))"
  using assms
proof (induction "unat cnt" arbitrary: off cnt fs src rule: less_induct)
  case less
  note ons = less.prems(1) and fit = less.prems(2)
  have lt: "unat off + unat cnt < 2 ^ 64" by (rule on_storage_lt [OF ons fit])
  let ?a = "unat off" and ?f = "disk (g_dev fs)"
  have step: "\<exists>d2. fs_write_bytes (drop (unat b) src) (off + b) (cnt - b) (fs\<lparr>g_dev := d\<rparr>) =
        Some (0, fs\<lparr>g_dev := d2\<rparr>) \<and> disk d2 = written (part_base fs + ?a) src ?f"
    if "0 < unat b" "unat b \<le> unat cnt"
      "disk d = written (part_base fs + ?a) (take (unat b) src) ?f" for b d
  proof -
    have "written (part_base fs + ?a + unat b) (drop (unat b) src) (disk d)
        = written (part_base fs + ?a) src ?f"
      using written_append [of "part_base fs + ?a" "take (unat b) src" "drop (unat b) src" ?f]
        that less.prems(4) by simp
    then show ?thesis
      using less.hyps [of "cnt - b" "fs\<lparr>g_dev := d\<rparr>" "off + b" "drop (unat b) src"] that less.prems
      by (simp add: unat_advance [OF lt that(2)] add.assoc)
  qed
  consider (zero) "cnt = 0" | (run) "cnt \<noteq> 0" "?a mod 512 = 0 \<and> 512 \<le> unat cnt"
    | (part) "cnt \<noteq> 0" "\<not> (?a mod 512 = 0 \<and> 512 \<le> unat cnt)" by blast
  then show ?case
  proof cases
    case zero
    then show ?thesis using less.prems(4)
      by (intro exI [of _ "g_dev fs"]) (simp add: fs_write_bytes.simps)
  next
    case run
    define n0 where "n0 = (ucast (cnt div ucast FS_SECTOR_SIZE) :: u32)"
    define ns where "ns = (if n0 > 256 then 256 else n0)"
    define nb where "nb = (ucast ns * ucast FS_SECTOR_SIZE :: u64)"
    note sz = run_sizes [OF less.prems(3) conjunct2 [OF run(2)],
        folded n0_def, folded ns_def, folded nb_def]
    have len: "length (take (unat nb) src) = 512 * unat ns" using sz less.prems(4) by simp
    have "unat (g_partition_lba fs) + unat (byte_to_sector off) + unat ns \<le> cap"
      using sector_bound [OF fit, of "unat ns"] sz(4) by simp
    note wr = fs_write_sectors_ok [OF ons sz(1,2) len this]
    have "512 * (?a div 512) = ?a" using run(2) by auto
    with wr obtain d where d: "fs_write_sectors (take (unat nb) src) (byte_to_sector off) ns fs =
        (0, fs\<lparr>g_dev := d\<rparr>)" "disk d = written (part_base fs + ?a) (take (unat nb) src) ?f"
      by auto
    obtain d2 where d2: "fs_write_bytes (drop (unat nb) src) (off + nb) (cnt - nb) (fs\<lparr>g_dev := d\<rparr>) =
        Some (0, fs\<lparr>g_dev := d2\<rparr>)" "disk d2 = written (part_base fs + ?a) src ?f"
      using step [of nb d] sz d(2) by (auto simp: word_less_nat_alt)
    have "fs_write_bytes src off cnt fs = Some (0, fs\<lparr>g_dev := d2\<rparr>)"
      unfolding fs_write_bytes.simps [of src off cnt fs] Let_def full_run_cond n0_def [symmetric]
        ns_def [symmetric] nb_def [symmetric]
      using run d(1) d2(1) by simp
    then show ?thesis using d2(2) by blast
  next
    case part
    define ois where "ois = (ucast (off mod ucast FS_SECTOR_SIZE) :: u32)"
    define av where "av = FS_SECTOR_SIZE - ois"
    define tc where "tc = (if ucast av > cnt then ucast cnt else av)"
    define old where "old = stored ?f (part_base fs + 512 * (?a div 512)) 512"
    define buf where "buf = patch (unat ois) (take (unat tc) src) old"
    note sz = partial_sizes [OF part(1), of off, folded ois_def, folded av_def, folded tc_def]
    have o: "unat ois = ?a mod 512" unfolding ois_def by (rule offset_in_sector_unat)
    have c: "(ois = 0 \<and> ucast FS_SECTOR_SIZE \<le> cnt) = False"
      using part(2) full_run_cond [of off cnt] by (simp add: ois_def)
    have fits: "unat ois + length (take (unat tc) src) \<le> 512" using sz(1) o less.prems(4) by simp
    then have len: "length buf = 512 * unat (1 :: u32)" by (simp add: buf_def old_def)
    have bnd: "unat (g_partition_lba fs) + unat (byte_to_sector off) + unat (1 :: u32) \<le> cap"
      using sector_bound [OF fit, of 1] part(1) by (simp add: unat_gt_0)
    from fs_read_sectors_ok [OF ons _ _ this]
    obtain d where d: "fs_read_sectors (byte_to_sector off) 1 fs = (0, old, fs\<lparr>g_dev := d\<rparr>)"
        "disk d = ?f"
      by (auto simp: old_def)
    have ons1: "on_storage disk cap (fs\<lparr>g_dev := d\<rparr>)" using ons by simp
    have bnd1: "unat (g_partition_lba (fs\<lparr>g_dev := d\<rparr>)) + unat (byte_to_sector off) + unat (1 :: u32) \<le> cap"
      using bnd by simp
    from fs_write_sectors_ok [OF ons1 _ _ len bnd1]
    obtain d1 where d1: "fs_write_sectors buf (byte_to_sector off) 1 (fs\<lparr>g_dev := d\<rparr>) =
        (0, fs\<lparr>g_dev := d1\<rparr>)" "disk d1 = written (part_base fs + 512 * (?a div 512)) buf ?f"
      using d(2) by auto
    have "disk d1 = written (part_base fs + 512 * (?a div 512) + unat ois) (take (unat tc) src) ?f"
      unfolding d1(2) buf_def old_def by (rule written_patch_stored [OF fits])
    then have d1c: "disk d1 = written (part_base fs + ?a) (take (unat tc) src) ?f"
      by (simp add: o add.assoc)
    obtain d2 where d2: "fs_write_bytes (drop (unat tc) src) (off + ucast tc) (cnt - ucast tc)
        (fs\<lparr>g_dev := d1\<rparr>) = Some (0, fs\<lparr>g_dev := d2\<rparr>)"
        "disk d2 = written (part_base fs + ?a) src ?f"
      using step [of "ucast tc" d1] sz d1c by auto
    have "fs_write_bytes src off cnt fs = Some (0, fs\<lparr>g_dev := d2\<rparr>)"
      unfolding fs_write_bytes.simps [of src off cnt fs] Let_def ois_def [symmetric]
        av_def [symmetric] tc_def [symmetric]
      using part(1) d(1) d1(1) d2(1) by (simp add: c buf_def)
    then show ?thesis using d2(2) by blast
  qed
qed

section \<open>Directory transfers on a contract driver\<close>

lemma dir_sectors [simp]:
  "unat BMFS_DIR_OFFSET = 4096" "BMFS_DIR_SIZE div FS_SECTOR_SIZE = 8"
  by (simp_all add: BMFS_DIR_OFFSET_def BMFS_DIR_SIZE_def FS_SECTOR_SIZE_def)

lemma dir_write_ok:
  assumes "on_storage disk cap fs" "dir_wf (g_dir fs)" "unat (g_partition_lba fs) + 16 \<le> cap"
  shows "\<exists>d. dir_write fs = (0, fs\<lparr>g_dev := d\<rparr>) \<and>
    disk d = written (part_base fs + 4096) (bytes_of_dir (g_dir fs)) (disk (g_dev fs))"
  using fs_write_sectors_ok [OF assms(1), of 8 "bytes_of_dir (g_dir fs)" "byte_to_sector BMFS_DIR_OFFSET"]
    assms by (simp add: dir_write_def length_bytes_of_dir)

lemma dir_read_ok:
  assumes "on_storage disk cap fs" "unat (g_partition_lba fs) + 16 \<le> cap"
  shows "\<exists>d. dir_read fs = (0, fs\<lparr>g_dev := d, g_dir :=
      dir_of_bytes (stored (disk (g_dev fs)) (part_base fs + 4096) 4096)\<rparr>) \<and> disk d = disk (g_dev fs)"
  using fs_read_sectors_ok [OF assms(1), of 8 "byte_to_sector BMFS_DIR_OFFSET"] assms
  by (auto simp: dir_read_def)

end
