(* ===== verification/Bmfs.thy ===== *)
theory Bmfs
  imports Bmfs_Io
begin

text \<open>
  The public operations of the BMFS filesystem (\<^verbatim>\<open>kernel/fs.c\<close>): mount, list,
  open, read, write, size, close, create, delete and sync, with the invariant they keep and
  the abstract file store they implement: a map from names to contents.  The result
  \<open>-1\<close> is an error, as in the code; \<open>None\<close> is a transfer loop that never ends.
\<close>

section \<open>Operations\<close>

definition bmfs_tag :: bytes where
  "bmfs_tag = [0x42, 0x4D, 0x46, 0x53]"

definition fs_init ::
  "'d storage_ops option \<Rightarrow> bool \<Rightarrow> u64 \<Rightarrow> 'd fs \<Rightarrow> (int \<times> 'd fs) option" where
  "fs_init storage dma_ok partition_lba fs =
     (let fs0 = fs\<lparr>g_fds := map (\<lambda>f. f\<lparr>in_use := False\<rparr>) (g_fds fs), g_initialized := False,
                   g_partition_lba := partition_lba, g_storage := storage\<rparr>
      in case storage of None \<Rightarrow> Some (-1, fs0)
      | Some ops \<Rightarrow>
        if st_read ops = None then Some (-1, fs0)
        else if \<not> g_sector_buf fs0 \<and> \<not> dma_ok then Some (-1, fs0)
        else do {
          (rc, tag, fs2) \<leftarrow> fs_read_bytes BMFS_TAG_OFFSET 4 (fs0\<lparr>g_sector_buf := True\<rparr>);
          if rc < 0 then Some (-1, fs2)
          else if tag \<noteq> bmfs_tag then Some (-1, fs2)
          else (case dir_read fs2 of (rc, fs3) \<Rightarrow>
                  if rc < 0 then Some (-1, fs3) else Some (0, fs3\<lparr>g_initialized := True\<rparr>))
        })"

definition fs_init_default :: "'d storage_ops option \<Rightarrow> bool \<Rightarrow> 'd fs \<Rightarrow> (int \<times> 'd fs) option" where
  "fs_init_default storage dma_ok fs = fs_init storage dma_ok 0 fs"

text \<open>The calls of the listing callback, in order, and their number.\<close>

fun list_entries :: "dir \<Rightarrow> (bytes \<times> u64) list" where
  "list_entries [] = []"
| "list_entries (e # es) =
     (if first_byte e = BMFS_ENTRY_END then []
      else if first_byte e = BMFS_ENTRY_DELETED then list_entries es
      else (filename e, file_size e) # list_entries es)"

definition fs_list :: "'d fs \<Rightarrow> int \<times> (bytes \<times> u64) list" where
  "fs_list fs = (if \<not> g_initialized fs then (-1, [])
     else (int (length (list_entries (g_dir fs))), list_entries (g_dir fs)))"

definition open_fd :: "nat \<Rightarrow> bmfs_entry \<Rightarrow> fs_fd" where
  "open_fd idx e = \<lparr>in_use = True, dir_index = idx, fd_starting_block = starting_block e,
     fd_reserved_blocks = reserved_blocks e, fd_file_size = file_size e, fd_filename = filename e\<rparr>"

definition fs_open :: "bytes option \<Rightarrow> 'd fs \<Rightarrow> int \<times> 'd fs" where
  "fs_open name fs =
     (case name of None \<Rightarrow> (-1, fs)
      | Some nm \<Rightarrow>
        if \<not> g_initialized fs then (-1, fs)
        else case dir_find nm (g_dir fs) of None \<Rightarrow> (-1, fs)
        | Some idx \<Rightarrow>
          (case find_from 0 BMFS_MAX_FILES
                  (\<lambda>fd. in_use (g_fds fs ! fd) \<and> dir_index (g_fds fs ! fd) = idx) of
             Some fd \<Rightarrow> (int fd, fs)
           | None \<Rightarrow>
             (case find_from 0 BMFS_MAX_FILES (\<lambda>fd. \<not> in_use (g_fds fs ! fd)) of
                None \<Rightarrow> (-1, fs)
              | Some fd \<Rightarrow>
                  (int fd, fs\<lparr>g_fds := (g_fds fs)[fd := open_fd idx (g_dir fs ! idx)]\<rparr>))))"

definition bad_fd :: "int \<Rightarrow> 'd fs \<Rightarrow> bool" where
  "bad_fd fd fs \<longleftrightarrow> \<not> g_initialized fs \<or> fd < 0 \<or> fd \<ge> int BMFS_MAX_FILES"

definition fs_read :: "int \<Rightarrow> bool \<Rightarrow> u64 \<Rightarrow> u64 \<Rightarrow> 'd fs \<Rightarrow> (int \<times> bytes \<times> 'd fs) option" where
  "fs_read fd have_buf offset sz fs =
     (if bad_fd fd fs then Some (-1, [], fs)
      else
        (let f = g_fds fs ! nat fd in
         if \<not> in_use f then Some (-1, [], fs)
         else if \<not> have_buf \<or> sz = 0 then Some (0, [], fs)
         else if offset \<ge> fd_file_size f then Some (0, [], fs)
         else
           (let available = fd_file_size f - offset;
                sz' = (if sz > available then available else sz);
                abs_offset = fd_starting_block f * BMFS_BLOCK_SIZE + offset
            in do {
              (rc, data, fs1) \<leftarrow> fs_read_bytes abs_offset sz' fs;
              if rc < 0 then Some (-1, [], fs1) else Some (sint sz', data, fs1)
            })))"

definition storage_writes :: "'d fs \<Rightarrow> bool" where
  "storage_writes fs = (case g_storage fs of None \<Rightarrow> False | Some ops \<Rightarrow> st_write ops \<noteq> None)"

definition fs_write ::
  "int \<Rightarrow> bytes option \<Rightarrow> u64 \<Rightarrow> u64 \<Rightarrow> 'd fs \<Rightarrow> (int \<times> 'd fs) option" where
  "fs_write fd buf offset sz fs =
     (if bad_fd fd fs then Some (-1, fs)
      else
        (let f = g_fds fs ! nat fd in
         if \<not> in_use f then Some (-1, fs)
         else if \<not> storage_writes fs then Some (-1, fs)
         else case buf of None \<Rightarrow> Some (0, fs)
         | Some src \<Rightarrow>
           if sz = 0 then Some (0, fs)
           else
             (let max_size = fd_reserved_blocks f * BMFS_BLOCK_SIZE in
              if offset + sz > max_size then Some (-1, fs)
              else do {
                (rc, fs1) \<leftarrow> fs_write_bytes src (fd_starting_block f * BMFS_BLOCK_SIZE + offset) sz fs;
                if rc < 0 then Some (-1, fs1)
                else
                  (let new_end = offset + sz in
                   if new_end > fd_file_size f then
                     (case dir_write (fs1\<lparr>
                          g_fds := (g_fds fs1)[nat fd := f\<lparr>fd_file_size := new_end\<rparr>],
                          g_dir := (g_dir fs1)[dir_index f :=
                                     (g_dir fs1 ! dir_index f)\<lparr>file_size := new_end\<rparr>]\<rparr>) of
                        (rc, fs2) \<Rightarrow> Some (sint sz, fs2))
                   else Some (sint sz, fs1))
              })))"

definition fs_size :: "int \<Rightarrow> 'd fs \<Rightarrow> u64" where
  "fs_size fd fs = (if bad_fd fd fs then 0
     else if \<not> in_use (g_fds fs ! nat fd) then 0 else fd_file_size (g_fds fs ! nat fd))"

definition fs_close :: "int \<Rightarrow> 'd fs \<Rightarrow> 'd fs" where
  "fs_close fd fs = (if fd < 0 \<or> fd \<ge> int BMFS_MAX_FILES then fs
     else fs\<lparr>g_fds := (g_fds fs)[nat fd := (g_fds fs ! nat fd)\<lparr>in_use := False\<rparr>]\<rparr>)"

definition new_entry :: "bytes \<Rightarrow> u64 \<Rightarrow> u64 \<Rightarrow> bmfs_entry" where
  "new_entry name start_block reserved = \<lparr>
     filename = map (\<lambda>i. if i < length name then name ! i else 0) [0..<BMFS_MAX_FILENAME],
     starting_block = start_block, reserved_blocks = reserved, file_size = 0, unused = 0\<rparr>"

definition mark_first :: "u8 \<Rightarrow> bmfs_entry \<Rightarrow> bmfs_entry" where
  "mark_first b e = e\<lparr>filename := (filename e)[0 := b]\<rparr>"

text \<open>The end marker the code makes sure of after the new entry.\<close>

definition ensure_end :: "nat \<Rightarrow> dir \<Rightarrow> dir" where
  "ensure_end slot d =
     (if find_from (slot + 1) BMFS_MAX_FILES (\<lambda>i. first_byte (d ! i) = BMFS_ENTRY_END) = None
         \<and> slot + 1 < BMFS_MAX_FILES
      then d[slot + 1 := mark_first BMFS_ENTRY_END (d ! (slot + 1))] else d)"

definition fs_create :: "bytes option \<Rightarrow> u64 \<Rightarrow> 'd fs \<Rightarrow> int \<times> 'd fs" where
  "fs_create name reserved fs =
     (case name of None \<Rightarrow> (-1, fs)
      | Some nm \<Rightarrow>
        if \<not> g_initialized fs then (-1, fs)
        else if \<not> storage_writes fs then (-1, fs)
        else if length nm \<ge> BMFS_MAX_FILENAME then (-1, fs)
        else if length nm = 0 then (-1, fs)
        else if nm ! 0 = BMFS_ENTRY_END \<or> nm ! 0 = BMFS_ENTRY_DELETED then (-1, fs)
        else if dir_find nm (g_dir fs) \<noteq> None then (-1, fs)
        else
          (let reserved' = (if reserved = 0 then 1 else reserved) in
           case dir_find_free (g_dir fs) of None \<Rightarrow> (-1, fs)
           | Some slot \<Rightarrow>
             (let start_block = find_free_blocks reserved' (g_dir fs) in
              if start_block = 0 then (-1, fs)
              else
                (case dir_write (fs\<lparr>g_dir :=
                    ensure_end slot ((g_dir fs)[slot := new_entry nm start_block reserved'])\<rparr>) of
                   (rc, fs1) \<Rightarrow> if rc < 0 then (-1, fs1) else (0, fs1)))))"

definition fs_delete :: "bytes option \<Rightarrow> 'd fs \<Rightarrow> int \<times> 'd fs" where
  "fs_delete name fs =
     (case name of None \<Rightarrow> (-1, fs)
      | Some nm \<Rightarrow>
        if \<not> g_initialized fs then (-1, fs)
        else if \<not> storage_writes fs then (-1, fs)
        else case dir_find nm (g_dir fs) of None \<Rightarrow> (-1, fs)
        | Some idx \<Rightarrow>
          (case dir_write (fs\<lparr>
              g_fds := map (\<lambda>f. if in_use f \<and> dir_index f = idx then f\<lparr>in_use := False\<rparr> else f) (g_fds fs),
              g_dir := (g_dir fs)[idx := mark_first BMFS_ENTRY_DELETED (g_dir fs ! idx)]\<rparr>) of
             (rc, fs1) \<Rightarrow> if rc < 0 then (-1, fs1) else (0, fs1)))"

definition fs_sync :: "'d fs \<Rightarrow> int \<times> 'd fs" where
  "fs_sync fs = (if \<not> g_initialized fs then (-1, fs) else dir_write fs)"

section \<open>Invariant\<close>

text \<open>Nothing but end markers follows the first end marker.\<close>

definition tail_clear :: "dir \<Rightarrow> bool" where
  "tail_clear d \<longleftrightarrow> (\<forall>i j. i < j \<and> j < length d \<and> first_byte (d ! i) = BMFS_ENTRY_END
     \<longrightarrow> first_byte (d ! j) = BMFS_ENTRY_END)"

definition entry_ok :: "nat \<Rightarrow> bmfs_entry \<Rightarrow> bool" where
  "entry_ok limit e \<longleftrightarrow> 1 \<le> unat (starting_block e) \<and>
     unat (starting_block e) + unat (reserved_blocks e) \<le> limit \<and>
     unat (file_size e) \<le> unat (reserved_blocks e) * 2 ^ 21"

definition dir_inv :: "nat \<Rightarrow> dir \<Rightarrow> bool" where
  "dir_inv limit d \<longleftrightarrow> dir_wf d \<and> tail_clear d \<and>
     (\<forall>i. visible d i \<longrightarrow> entry_ok limit (d ! i)) \<and>
     (\<forall>i j. visible d i \<and> visible d j \<and> i \<noteq> j \<longrightarrow>
        entry_name (d ! i) \<noteq> entry_name (d ! j) \<and>
        blocks (starting_block (d ! i)) (reserved_blocks (d ! i)) \<inter>
        blocks (starting_block (d ! j)) (reserved_blocks (d ! j)) = {})"

definition fd_ok :: "dir \<Rightarrow> fs_fd \<Rightarrow> bool" where
  "fd_ok d f \<longleftrightarrow> visible d (dir_index f) \<and>
     fd_starting_block f = starting_block (d ! dir_index f) \<and>
     fd_reserved_blocks f = reserved_blocks (d ! dir_index f) \<and>
     fd_file_size f = file_size (d ! dir_index f) \<and> fd_filename f = filename (d ! dir_index f)"

definition fds_inv :: "dir \<Rightarrow> fs_fd list \<Rightarrow> bool" where
  "fds_inv d fds \<longleftrightarrow> length fds = BMFS_MAX_FILES \<and>
     (\<forall>k < length fds. in_use (fds ! k) \<longrightarrow> fd_ok d (fds ! k)) \<and>
     (\<forall>k l. k < length fds \<and> l < length fds \<and> in_use (fds ! k) \<and> in_use (fds ! l) \<and>
        dir_index (fds ! k) = dir_index (fds ! l) \<longrightarrow> k = l)"

definition fs_inv :: "nat \<Rightarrow> 'd fs \<Rightarrow> bool" where
  "fs_inv limit fs \<longleftrightarrow> limit \<le> 2 ^ 43 \<and> dir_inv limit (g_dir fs) \<and> fds_inv (g_dir fs) (g_fds fs)"

section \<open>Directory updates\<close>

definition valid_name :: "bytes \<Rightarrow> bool" where
  "valid_name nm \<longleftrightarrow> 0 < length nm \<and> length nm < 32 \<and> 0 \<notin> set nm"

definition dir_full :: "dir \<Rightarrow> bool" where
  "dir_full d \<longleftrightarrow> (\<forall>i < length d. first_byte (d ! i) \<noteq> BMFS_ENTRY_END)"

lemma visible_iff:
  assumes "tail_clear d"
  shows "visible d i \<longleftrightarrow> i < length d \<and> first_byte (d ! i) \<noteq> BMFS_ENTRY_END \<and>
    first_byte (d ! i) \<noteq> BMFS_ENTRY_DELETED"
  using assms by (auto simp: visible_def tail_clear_def) (metis le_neq_implies_less)

lemma visible_lt: "visible d i \<Longrightarrow> i < length d"
  by (simp add: visible_def)

lemma first_byte_new_entry: "nm \<noteq> [] \<Longrightarrow> first_byte (new_entry nm s r) = nm ! 0"
  by (simp add: first_byte_def new_entry_def BMFS_MAX_FILENAME_def del: upt_Suc)

lemma entry_wf_new_entry [simp]: "entry_wf (new_entry nm s r)"
  by (simp add: entry_wf_def new_entry_def)

lemma first_byte_mark: "entry_wf e \<Longrightarrow> first_byte (mark_first b e) = b"
  by (simp add: first_byte_def mark_first_def entry_wf_def BMFS_MAX_FILENAME_def)

lemma entry_wf_mark [simp]: "entry_wf (mark_first b e) = entry_wf e"
  by (simp add: entry_wf_def mark_first_def)

lemma entry_name_new_entry:
  assumes "valid_name nm"
  shows "entry_name (new_entry nm s r) = nm"
proof -
  let ?f = "map (\<lambda>i. if i < length nm then nm ! i else 0) [0..<32]"
  have "?f = nm @ replicate (32 - length nm) 0"
    using assms by (intro nth_equalityI) (auto simp: nth_append valid_name_def)
  moreover have "takeWhile (\<lambda>b. b \<noteq> 0) (nm @ replicate (32 - length nm) 0) = nm"
    using assms by (subst takeWhile_append2) (auto simp: valid_name_def)
  ultimately show ?thesis
    by (simp add: entry_name_def new_entry_def BMFS_MAX_FILENAME_def)
qed

lemma dir_inv_wf: "dir_inv limit d \<Longrightarrow> i < 64 \<Longrightarrow> entry_wf (d ! i)"
  by (simp add: dir_inv_def dir_wf_def BMFS_MAX_FILES_def)

lemma dir_inv_length: "dir_inv limit d \<Longrightarrow> length d = 64"
  by (simp add: dir_inv_def dir_wf_def BMFS_MAX_FILES_def)

lemma dir_find_iff:
  assumes inv: "dir_inv limit d" and nm: "valid_name nm"
  shows "dir_find nm d = Some i \<longleftrightarrow> visible d i \<and> entry_name (d ! i) = nm"
proof -
  have len: "length d = 64" by (rule dir_inv_length [OF inv])
  have m: "name_match nm (filename (d ! j)) \<longleftrightarrow> nm = entry_name (d ! j)" if "visible d j" for j
    using name_match_iff [of "d ! j" nm] dir_inv_wf [OF inv] nm visible_lt [OF that] len
    by (simp add: valid_name_def)
  have "dir_find nm d = Some i \<longleftrightarrow> i < 64 \<and> (visible d i \<and> entry_name (d ! i) = nm) \<and>
      (\<forall>j. j < i \<longrightarrow> \<not> (visible d j \<and> entry_name (d ! j) = nm))"
    using m by (auto simp: dir_find_eq find_from_Some len)
  also have "\<dots> \<longleftrightarrow> visible d i \<and> entry_name (d ! i) = nm"
    using inv len visible_lt unfolding dir_inv_def by (metis nat_neq_iff)
  finally show ?thesis .
qed

lemma dir_find_None_iff:
  assumes "dir_inv limit d" "valid_name nm"
  shows "dir_find nm d = None \<longleftrightarrow> (\<forall>i. visible d i \<longrightarrow> entry_name (d ! i) \<noteq> nm)"
  using dir_find_iff [OF assms] by (metis not_None_eq option.distinct(1))

lemma dir_find_free_Some:
  assumes "dir_find_free d = Some slot"
  shows "slot < length d" "first_byte (d ! slot) = BMFS_ENTRY_DELETED \<or> first_byte (d ! slot) = BMFS_ENTRY_END"
    "j < slot \<Longrightarrow> first_byte (d ! j) \<noteq> BMFS_ENTRY_DELETED \<and> first_byte (d ! j) \<noteq> BMFS_ENTRY_END"
    "\<not> visible d slot"
  using assms by (auto simp: dir_find_free_eq find_from_Some visible_def)

lemma ensure_end_id:
  assumes inv: "dir_inv limit d" and slot: "dir_find_free d = Some slot" and "\<not> dir_full d"
  shows "ensure_end slot (d[slot := e]) = d[slot := e]"
proof -
  have len: "length d = 64" by (rule dir_inv_length [OF inv])
  obtain k where k: "k < 64" "first_byte (d ! k) = BMFS_ENTRY_END"
    using assms(3) len by (auto simp: dir_full_def)
  have kge: "slot \<le> k" using dir_find_free_Some(3) [OF slot, of k] k by (cases "k < slot") auto
  have "\<exists>i. slot + 1 \<le> i \<and> i < 64 \<and> first_byte (d[slot := e] ! i) = BMFS_ENTRY_END"
    if "slot + 1 < 64"
  proof (cases "k = slot")
    case True
    then have "first_byte (d ! (slot + 1)) = BMFS_ENTRY_END"
      using inv k that len unfolding dir_inv_def tail_clear_def by (metis less_add_one)
    then show ?thesis using that by (intro exI [of _ "slot + 1"]) simp
  next
    case False
    then show ?thesis using k kge by (intro exI [of _ k]) auto
  qed
  then show ?thesis
    unfolding ensure_end_def find_from_None BMFS_MAX_FILES_def by auto
qed

lemma visible_fill:
  assumes "tail_clear d" "dir_find_free d = Some slot"
    "first_byte e \<noteq> BMFS_ENTRY_END" "first_byte e \<noteq> BMFS_ENTRY_DELETED"
  shows "tail_clear (d[slot := e])" "visible (d[slot := e]) i \<longleftrightarrow> i = slot \<or> visible d i"
proof -
  note fr = dir_find_free_Some [OF assms(2)]
  show tc: "tail_clear (d[slot := e])"
    unfolding tail_clear_def
  proof (intro allI impI)
    fix i j assume a: "i < j \<and> j < length (d[slot := e]) \<and> first_byte (d[slot := e] ! i) = BMFS_ENTRY_END"
    then have "i \<noteq> slot" using assms(3) by (auto simp: nth_list_update)
    then have i: "first_byte (d ! i) = BMFS_ENTRY_END" using a by simp
    then have "slot < i" using fr(3) [of i] \<open>i \<noteq> slot\<close> by (metis linorder_neqE_nat)
    moreover have "first_byte (d ! j) = BMFS_ENTRY_END"
      using assms(1) a i unfolding tail_clear_def by (metis length_list_update)
    ultimately show "first_byte (d[slot := e] ! j) = BMFS_ENTRY_END" using a by simp
  qed
  show "visible (d[slot := e]) i \<longleftrightarrow> i = slot \<or> visible d i"
    using fr(1) assms(3,4) by (auto simp: visible_iff [OF tc] visible_iff [OF assms(1)] nth_list_update)
qed

lemma dir_wf_update: "dir_wf d \<Longrightarrow> entry_wf e \<Longrightarrow> dir_wf (d[i := e])"
  unfolding dir_wf_def using set_update_subset_insert [of d i e] by auto

lemma find_free_blocks_free:
  assumes "limit < 2 ^ 64" "\<And>i. visible d i \<Longrightarrow>
      unat (starting_block (d ! i)) + unat (reserved_blocks (d ! i)) + unat needed \<le> limit"
    "1 + unat needed \<le> limit"
  shows "1 \<le> unat (find_free_blocks needed d)"
    "unat (find_free_blocks needed d) + unat needed \<le> limit"
    "visible d i \<Longrightarrow> blocks (find_free_blocks needed d) needed \<inter>
       blocks (starting_block (d ! i)) (reserved_blocks (d ! i)) = {}"
proof -
  let ?rs = "sort_regions (collect_regions d)"
  have rs: "sorted_regions ?rs" by (rule sort_regions_props)
  have fit: "regions_fit limit (unat needed) ?rs"
    using assms(2) by (auto simp: regions_fit_def set_collect_regions)
  have one: "unat (1 :: u64) + unat needed \<le> limit" using assms(3) by simp
  note free = gap_scan_free [OF rs fit assms(1) one]
  show "1 \<le> unat (find_free_blocks needed d)"
    "unat (find_free_blocks needed d) + unat needed \<le> limit"
    using free by (simp_all add: find_free_blocks_def)
  have "(starting_block (d ! i), reserved_blocks (d ! i)) \<in> set ?rs" if "visible d i"
    using that by (auto simp: set_collect_regions)
  then show "visible d i \<Longrightarrow> blocks (find_free_blocks needed d) needed \<inter>
       blocks (starting_block (d ! i)) (reserved_blocks (d ! i)) = {}"
    using free by (fastforce simp: find_free_blocks_def)
qed

text \<open>Room for an allocation: every file end plus the request stays below the limit.\<close>

definition room :: "nat \<Rightarrow> u64 \<Rightarrow> dir \<Rightarrow> bool" where
  "room limit needed d \<longleftrightarrow> 1 + unat needed \<le> limit \<and> (\<forall>i. visible d i \<longrightarrow>
     unat (starting_block (d ! i)) + unat (reserved_blocks (d ! i)) + unat needed \<le> limit)"

lemma dir_inv_fill:
  assumes inv: "dir_inv limit d" and lim: "limit < 2 ^ 64" and nm: "valid_name nm"
    and first: "nm ! 0 \<noteq> BMFS_ENTRY_DELETED" and new: "dir_find nm d = None"
    and slot: "dir_find_free d = Some slot" and room: "room limit needed d"
  shows "dir_inv limit (d[slot := new_entry nm (find_free_blocks needed d) needed])"
proof -
  let ?e = "new_entry nm (find_free_blocks needed d) needed" and ?d = "d[slot := new_entry nm (find_free_blocks needed d) needed]"
  have ne: "nm \<noteq> []" and nz: "nm ! 0 \<noteq> 0"
    using nm nth_mem [of 0 nm] by (auto simp: valid_name_def simp del: nth_mem)
  have fb: "first_byte ?e \<noteq> BMFS_ENTRY_END" "first_byte ?e \<noteq> BMFS_ENTRY_DELETED"
    using first nz by (simp_all add: first_byte_new_entry [OF ne] BMFS_ENTRY_END_def)
  have tc: "tail_clear d" using inv by (simp add: dir_inv_def)
  note vis = visible_fill [OF tc slot fb]
  have sl: "slot < length d" "\<not> visible d slot" using dir_find_free_Some [OF slot] by auto
  have at: "?d ! i = (if i = slot then ?e else d ! i)" for i using sl by simp
  have free: "1 \<le> unat (find_free_blocks needed d)"
    "unat (find_free_blocks needed d) + unat needed \<le> limit"
    "\<And>i. visible d i \<Longrightarrow> blocks (find_free_blocks needed d) needed \<inter>
       blocks (starting_block (d ! i)) (reserved_blocks (d ! i)) = {}"
    using find_free_blocks_free [OF lim, of d needed] room by (auto simp: room_def)
  have flds: "starting_block ?e = find_free_blocks needed d" "reserved_blocks ?e = needed"
    "file_size ?e = 0" by (simp_all add: new_entry_def)
  have ok: "entry_ok limit ?e" using free by (simp add: entry_ok_def flds)
  have apart: "entry_name (d ! i) \<noteq> entry_name ?e \<and>
      blocks (starting_block (d ! i)) (reserved_blocks (d ! i)) \<inter>
      blocks (starting_block ?e) (reserved_blocks ?e) = {}" if "visible d i" for i
    using that new free(3) [OF that]
    by (auto simp: dir_find_None_iff [OF inv nm] entry_name_new_entry [OF nm] flds)
  have old: "visible d i \<Longrightarrow> visible d j \<Longrightarrow> i \<noteq> j \<Longrightarrow> entry_name (d ! i) \<noteq> entry_name (d ! j) \<and>
      blocks (starting_block (d ! i)) (reserved_blocks (d ! i)) \<inter>
      blocks (starting_block (d ! j)) (reserved_blocks (d ! j)) = {}" for i j
    using inv by (simp add: dir_inv_def)
  show ?thesis
    unfolding dir_inv_def
  proof (intro conjI allI impI)
    show "dir_wf ?d" using inv by (simp add: dir_inv_def dir_wf_update)
    show "tail_clear ?d" by (rule vis)
    show "entry_ok limit (?d ! i)" if "visible ?d i" for i
      using that inv ok by (auto simp: at vis(2) dir_inv_def)
    fix i j assume ij: "visible ?d i \<and> visible ?d j \<and> i \<noteq> j"
    have "entry_name ?e \<noteq> entry_name (d ! j) \<and> blocks (starting_block ?e) (reserved_blocks ?e) \<inter>
        blocks (starting_block (d ! j)) (reserved_blocks (d ! j)) = {}" if "visible d j"
      using apart [OF that] by (metis Int_commute)
    then have both: "entry_name (?d ! i) \<noteq> entry_name (?d ! j) \<and>
        blocks (starting_block (?d ! i)) (reserved_blocks (?d ! i)) \<inter>
        blocks (starting_block (?d ! j)) (reserved_blocks (?d ! j)) = {}"
      using ij apart [of i] apart [of j] old [of i j] unfolding at vis(2)
      by (cases "i = slot"; cases "j = slot"; simp)
    show "entry_name (?d ! i) \<noteq> entry_name (?d ! j)" using both ..
    show "blocks (starting_block (?d ! i)) (reserved_blocks (?d ! i)) \<inter>
        blocks (starting_block (?d ! j)) (reserved_blocks (?d ! j)) = {}" using both ..
  qed
qed

lemma visible_drop:
  assumes "tail_clear d" "visible d idx" "entry_wf (d ! idx)"
  defines "d' \<equiv> d[idx := mark_first BMFS_ENTRY_DELETED (d ! idx)]"
  shows "tail_clear d'" "visible d' i \<longleftrightarrow> visible d i \<and> i \<noteq> idx"
proof -
  have idx: "idx < length d" "first_byte (d ! idx) \<noteq> BMFS_ENTRY_END"
    using assms(2) by (auto simp: visible_def)
  have fb: "first_byte (d' ! j) = (if j = idx then BMFS_ENTRY_DELETED else first_byte (d ! j))" for j
    using idx by (simp add: d'_def first_byte_mark assms(3))
  show tc: "tail_clear d'"
    using assms(1) idx(2) unfolding tail_clear_def fb
    by (auto simp: d'_def split: if_splits)
  show "visible d' i \<longleftrightarrow> visible d i \<and> i \<noteq> idx"
    unfolding visible_iff [OF tc] visible_iff [OF assms(1)] fb by (auto simp: d'_def)
qed

lemma dir_inv_drop:
  assumes inv: "dir_inv limit d" and vis: "visible d idx"
  shows "dir_inv limit (d[idx := mark_first BMFS_ENTRY_DELETED (d ! idx)])"
proof -
  let ?d = "d[idx := mark_first BMFS_ENTRY_DELETED (d ! idx)]"
  have wf: "entry_wf (d ! idx)"
    using dir_inv_wf [OF inv] visible_lt [OF vis] dir_inv_length [OF inv] by simp
  have tc: "tail_clear d" using inv by (simp add: dir_inv_def)
  note v = visible_drop [OF tc vis wf]
  have at: "?d ! i = d ! i" if "i \<noteq> idx" for i using that by simp
  have "dir_wf ?d" using inv wf by (simp add: dir_inv_def dir_wf_update)
  then show ?thesis using inv v unfolding dir_inv_def by (simp add: at)
qed

text \<open>Changing the recorded size of a file.\<close>

lemma visible_resize:
  assumes "idx < length d"
  shows "visible (d[idx := (d ! idx)\<lparr>file_size := n\<rparr>]) i \<longleftrightarrow> visible d i"
proof -
  have "first_byte (d[idx := (d ! idx)\<lparr>file_size := n\<rparr>] ! j) = first_byte (d ! j)" for j
    using assms by (cases "j = idx") (simp_all add: first_byte_def)
  then show ?thesis by (simp add: visible_def)
qed

lemma dir_inv_resize:
  assumes inv: "dir_inv limit d" and vis: "visible d idx"
    and n: "unat n \<le> unat (reserved_blocks (d ! idx)) * 2 ^ 21"
  shows "dir_inv limit (d[idx := (d ! idx)\<lparr>file_size := n\<rparr>])"
proof -
  let ?d = "d[idx := (d ! idx)\<lparr>file_size := n\<rparr>]"
  have idx: "idx < length d" by (rule visible_lt [OF vis])
  have at: "?d ! i = (if i = idx then (d ! idx)\<lparr>file_size := n\<rparr> else d ! i)" for i using idx by simp
  have fb: "first_byte (?d ! i) = first_byte (d ! i)" "entry_name (?d ! i) = entry_name (d ! i)"
    "starting_block (?d ! i) = starting_block (d ! i)"
    "reserved_blocks (?d ! i) = reserved_blocks (d ! i)" for i
    by (simp_all add: at first_byte_def entry_name_def)
  have "entry_wf (d ! idx)" using inv idx by (simp add: dir_inv_def dir_wf_def)
  then have wf: "dir_wf ?d" using inv by (intro dir_wf_update) (simp_all add: dir_inv_def entry_wf_def)
  have ok: "entry_ok limit (?d ! i)" if "visible d i" for i
    using that inv vis n by (auto simp: at dir_inv_def entry_ok_def)
  show ?thesis
    using inv wf ok
    unfolding dir_inv_def visible_resize [OF idx] tail_clear_def fb length_list_update by blast
qed

section \<open>Transfers touch the device only\<close>

lemma fs_read_sectors_frame: "\<exists>d. snd (snd (fs_read_sectors lba n fs)) = fs\<lparr>g_dev := d\<rparr>"
  by (cases fs) (auto simp: fs_read_sectors_def split: option.splits prod.splits)

lemma fs_write_sectors_frame: "\<exists>d. snd (fs_write_sectors buf lba n fs) = fs\<lparr>g_dev := d\<rparr>"
  by (cases fs) (auto simp: fs_write_sectors_def split: option.splits prod.splits)

lemma dir_write_frame: "\<exists>d. snd (dir_write fs) = fs\<lparr>g_dev := d\<rparr>"
  by (simp add: dir_write_def fs_write_sectors_frame)

lemma dev_refl: "\<exists>d. fs = fs\<lparr>g_dev := d\<rparr>"
  by (cases fs) auto

lemma read_then_dev:
  "fs_read_sectors lba n fs = (rc, data, fs1) \<Longrightarrow> \<exists>d. fs1 = fs\<lparr>g_dev := d\<rparr>"
  using fs_read_sectors_frame [of lba n fs] by simp

lemma write_then_dev:
  "fs_write_sectors buf lba n fs = (rc, fs1) \<Longrightarrow> \<exists>d. fs1 = fs\<lparr>g_dev := d\<rparr>"
  using fs_write_sectors_frame [of buf lba n fs] by simp

lemma dev_ex: "\<exists>d'. fs\<lparr>g_dev := d\<rparr> = fs\<lparr>g_dev := d'\<rparr>"
  by blast

lemma if_eq_cases:
  "(if c then x else y) = z \<Longrightarrow> (c \<Longrightarrow> x = z \<Longrightarrow> P) \<Longrightarrow> (\<not> c \<Longrightarrow> y = z \<Longrightarrow> P) \<Longrightarrow> P"
  by (cases c) auto

lemma read_step_frame:
  assumes IH: "\<forall>a b fs1 r1. rec a b fs1 = Some r1 \<longrightarrow> (\<exists>d. snd (snd r1) = fs1\<lparr>g_dev := d\<rparr>)"
    and eq: "(case fs_read_sectors lba n fs of (rc, data, fs1) \<Rightarrow>
      if rc < 0 then Some (-1, [], fs1)
      else rec a b fs1 \<bind> (\<lambda>(rc', rest, fs2). Some (rc', g data rest, fs2))) = Some r"
  shows "\<exists>d. snd (snd r) = fs\<lparr>g_dev := d\<rparr>"
proof -
  obtain rc data fs1 where rd: "fs_read_sectors lba n fs = (rc, data, fs1)"
    by (cases "fs_read_sectors lba n fs")
  obtain d where fs1: "fs1 = fs\<lparr>g_dev := d\<rparr>" using read_then_dev [OF rd] by blast
  show ?thesis
  proof (cases "rc < 0")
    case True
    then have "snd (snd r) = fs\<lparr>g_dev := d\<rparr>" using eq rd fs1 by auto
    then show ?thesis ..
  next
    case False
    then obtain r1 where r1: "rec a b fs1 = Some r1" "snd (snd r) = snd (snd r1)"
      using eq rd by (auto simp: bind_eq_Some_conv)
    then obtain d' where "snd (snd r1) = fs1\<lparr>g_dev := d'\<rparr>" using IH by blast
    then have "snd (snd r) = fs\<lparr>g_dev := d'\<rparr>" using r1 fs1 by simp
    then show ?thesis ..
  qed
qed

lemma write_step_frame:
  assumes IH: "\<forall>s a b fs1 r1. rec s a b fs1 = Some r1 \<longrightarrow> (\<exists>d. snd r1 = fs1\<lparr>g_dev := d\<rparr>)"
    and eq: "(case fs_write_sectors buf lba n fs of (rc, fs1) \<Rightarrow>
      if rc < 0 then Some (-1, fs1) else rec s a b fs1) = Some r"
  shows "\<exists>d. snd r = fs\<lparr>g_dev := d\<rparr>"
proof -
  obtain rc fs1 where wr: "fs_write_sectors buf lba n fs = (rc, fs1)"
    by (cases "fs_write_sectors buf lba n fs")
  obtain d where fs1: "fs1 = fs\<lparr>g_dev := d\<rparr>" using write_then_dev [OF wr] by blast
  show ?thesis
  proof (cases "rc < 0")
    case True
    then have "snd r = fs\<lparr>g_dev := d\<rparr>" using eq wr fs1 by auto
    then show ?thesis ..
  next
    case False
    then have "rec s a b fs1 = Some r" using eq wr by simp
    then obtain d' where "snd r = fs1\<lparr>g_dev := d'\<rparr>" using IH by blast
    then have "snd r = fs\<lparr>g_dev := d'\<rparr>" using fs1 by simp
    then show ?thesis ..
  qed
qed

lemma modify_step_frame:
  assumes IH: "\<forall>s a b fs1 r1. rec s a b fs1 = Some r1 \<longrightarrow> (\<exists>d. snd r1 = fs1\<lparr>g_dev := d\<rparr>)"
    and eq: "(case fs_read_sectors lba n fs of (rc, data, fs1) \<Rightarrow>
      if rc < 0 then Some (-1, fs1)
      else case fs_write_sectors (g data) lba m fs1 of (rc, fs2) \<Rightarrow>
             if rc < 0 then Some (-1, fs2) else rec s a b fs2) = Some r"
  shows "\<exists>d. snd r = fs\<lparr>g_dev := d\<rparr>"
proof -
  obtain rc data fs1 where rd: "fs_read_sectors lba n fs = (rc, data, fs1)"
    by (cases "fs_read_sectors lba n fs")
  obtain d where fs1: "fs1 = fs\<lparr>g_dev := d\<rparr>" using read_then_dev [OF rd] by blast
  show ?thesis
  proof (cases "rc < 0")
    case True
    then have "snd r = fs\<lparr>g_dev := d\<rparr>" using eq rd fs1 by auto
    then show ?thesis ..
  next
    case False
    then have "(case fs_write_sectors (g data) lba m fs1 of (rc, fs2) \<Rightarrow>
             if rc < 0 then Some (-1, fs2) else rec s a b fs2) = Some r" using eq rd by simp
    from write_step_frame [OF IH this] obtain d' where "snd r = fs1\<lparr>g_dev := d'\<rparr>" by blast
    then have "snd r = fs\<lparr>g_dev := d'\<rparr>" using fs1 by simp
    then show ?thesis ..
  qed
qed

lemma fs_read_bytes_frame:
  assumes "fs_read_bytes off cnt fs = Some r"
  shows "\<exists>d. snd (snd r) = fs\<lparr>g_dev := d\<rparr>"
proof -
  have "(\<lambda>off cnt fs r. \<exists>d. snd (snd r) = fs\<lparr>g_dev := d\<rparr>) off cnt fs r"
  proof (rule fs_read_bytes.raw_induct [OF _ assms], goal_cases)
    case (1 rec off cnt fs r)
    have IH: "\<forall>a b fs1 r1. rec a b fs1 = Some r1 \<longrightarrow> (\<exists>d. snd (snd r1) = fs1\<lparr>g_dev := d\<rparr>)"
      using 1(1) by blast
    from 1(2) show ?case
      unfolding Let_def
      apply (elim if_eq_cases)
      subgoal by (auto intro: dev_refl)
      subgoal by (rule read_step_frame [OF IH])
      subgoal by (rule read_step_frame [OF IH])
      done
  qed
  then show ?thesis .
qed

lemma fs_write_bytes_frame:
  assumes "fs_write_bytes src off cnt fs = Some r"
  shows "\<exists>d. snd r = fs\<lparr>g_dev := d\<rparr>"
proof -
  have "(\<lambda>src off cnt fs r. \<exists>d. snd r = fs\<lparr>g_dev := d\<rparr>) src off cnt fs r"
  proof (rule fs_write_bytes.raw_induct [OF _ assms], goal_cases)
    case (1 rec src off cnt fs r)
    have IH: "\<forall>s a b fs1 r1. rec s a b fs1 = Some r1 \<longrightarrow> (\<exists>d. snd r1 = fs1\<lparr>g_dev := d\<rparr>)"
      using 1(1) by blast
    from 1(2) show ?case
      unfolding Let_def
      apply (elim if_eq_cases)
      subgoal by (auto intro: dev_refl)
      subgoal by (rule write_step_frame [OF IH])
      subgoal by (rule modify_step_frame [OF IH])
      done
  qed
  then show ?thesis .
qed

section \<open>The operations keep the invariant\<close>

lemma fs_inv_dev [simp]: "fs_inv limit (fs\<lparr>g_dev := d\<rparr>) = fs_inv limit fs"
  by (simp add: fs_inv_def)

lemma fds_inv_mono:
  assumes "fds_inv d fds"
    and "\<And>k. k < length fds \<Longrightarrow> in_use (fds ! k) \<Longrightarrow> visible d (dir_index (fds ! k)) \<Longrightarrow>
        visible d' (dir_index (fds ! k)) \<and> d' ! dir_index (fds ! k) = d ! dir_index (fds ! k)"
  shows "fds_inv d' fds"
  using assms unfolding fds_inv_def fd_ok_def by metis

lemma fds_refl: "\<exists>fds. fs = fs\<lparr>g_fds := fds\<rparr>"
  by (rule exI [of _ "g_fds fs"]) simp

lemma fds_inv_open:
  assumes inv: "fds_inv d fds" and k: "k < length fds" and f: "in_use f" "fd_ok d f"
    and others: "\<And>l. l < length fds \<Longrightarrow> in_use (fds ! l) \<Longrightarrow> dir_index (fds ! l) \<noteq> dir_index f"
  shows "fds_inv d (fds[k := f])"
proof -
  have at: "fds[k := f] ! l = (if l = k then f else fds ! l)" for l using k by simp
  show ?thesis
    unfolding fds_inv_def at length_list_update
  proof (intro conjI allI impI)
    show "length fds = BMFS_MAX_FILES" using inv by (simp add: fds_inv_def)
    show "fd_ok d (if l = k then f else fds ! l)" if "l < length fds" "in_use (if l = k then f else fds ! l)" for l
      using that inv f by (auto simp: fds_inv_def)
    fix l m
    assume a: "l < length fds \<and> m < length fds \<and> in_use (if l = k then f else fds ! l) \<and>
      in_use (if m = k then f else fds ! m) \<and>
      dir_index (if l = k then f else fds ! l) = dir_index (if m = k then f else fds ! m)"
    show "l = m"
    proof (cases "l = k \<or> m = k")
      case True
      then show ?thesis using a others [of l] others [of m] by (auto split: if_splits)
    next
      case False
      then show ?thesis using a inv by (simp add: fds_inv_def)
    qed
  qed
qed

lemma fs_open_result:
  assumes inv: "fs_inv limit fs" and find: "dir_find nm (g_dir fs) = Some idx" and vis: "visible (g_dir fs) idx"
    and ret: "fs_open (Some nm) fs = (r, fs')" and ini: "g_initialized fs"
  shows "fs_inv limit fs'" "g_dir fs' = g_dir fs"
    "r \<noteq> -1 \<Longrightarrow> 0 \<le> r \<and> r < 64 \<and> in_use (g_fds fs' ! nat r) \<and> dir_index (g_fds fs' ! nat r) = idx"
    "\<exists>fds. fs' = fs\<lparr>g_fds := fds\<rparr>"
proof -
  have len: "length (g_fds fs) = 64" using inv by (simp add: fs_inv_def fds_inv_def BMFS_MAX_FILES_def)
  let ?P = "\<lambda>fd. in_use (g_fds fs ! fd) \<and> dir_index (g_fds fs ! fd) = idx"
  let ?Q = "\<lambda>fd. \<not> in_use (g_fds fs ! fd)"
  have "fs_inv limit fs' \<and> g_dir fs' = g_dir fs \<and>
      (r \<noteq> -1 \<longrightarrow> 0 \<le> r \<and> r < 64 \<and> in_use (g_fds fs' ! nat r) \<and> dir_index (g_fds fs' ! nat r) = idx) \<and>
      (\<exists>fds. fs' = fs\<lparr>g_fds := fds\<rparr>)"
  proof (cases "find_from 0 BMFS_MAX_FILES ?P")
    case (Some fd)
    then have "r = int fd" "fs' = fs" using ret find ini by (auto simp: fs_open_def)
    moreover have "fd < 64" "?P fd" using Some by (auto simp: find_from_Some BMFS_MAX_FILES_def)
    ultimately show ?thesis using inv by (auto intro: fds_refl)
  next
    case None
    note none = None
    show ?thesis
    proof (cases "find_from 0 BMFS_MAX_FILES ?Q")
      case None
      then have "r = -1" "fs' = fs" using ret find ini none by (auto simp: fs_open_def)
      then show ?thesis using inv by (auto intro: fds_refl)
    next
      case (Some fd)
      let ?f = "open_fd idx (g_dir fs ! idx)"
      have r: "r = int fd" "fs' = fs\<lparr>g_fds := (g_fds fs)[fd := ?f]\<rparr>"
        using ret find ini none Some by (auto simp: fs_open_def)
      have fd: "fd < 64" using Some by (auto simp: find_from_Some BMFS_MAX_FILES_def)
      have new: "in_use ?f" "dir_index ?f = idx" "fd_ok (g_dir fs) ?f"
        using vis by (simp_all add: open_fd_def fd_ok_def)
      have others: "\<not> ?P k" if "k < 64" for k
        using none that by (auto simp: find_from_None BMFS_MAX_FILES_def)
      have "fds_inv (g_dir fs) ((g_fds fs)[fd := ?f])"
        using inv new others len fd by (intro fds_inv_open) (auto simp: fs_inv_def)
      then show ?thesis using r fd inv len new by (auto simp: fs_inv_def)
    qed
  qed
  then show "fs_inv limit fs'" "g_dir fs' = g_dir fs"
    "r \<noteq> -1 \<Longrightarrow> 0 \<le> r \<and> r < 64 \<and> in_use (g_fds fs' ! nat r) \<and> dir_index (g_fds fs' ! nat r) = idx"
    "\<exists>fds. fs' = fs\<lparr>g_fds := fds\<rparr>" by auto
qed

text \<open>Closing descriptors keeps the descriptor invariant.\<close>

lemma fds_inv_closed:
  assumes "fds_inv d fds" "length fds' = length fds"
    and "\<And>k. k < length fds \<Longrightarrow> in_use (fds' ! k) \<Longrightarrow> fds' ! k = fds ! k"
  shows "fds_inv d fds'"
  unfolding fds_inv_def
proof (intro conjI allI impI)
  show "length fds' = BMFS_MAX_FILES" using assms(1,2) by (simp add: fds_inv_def)
  show "fd_ok d (fds' ! k)" if k: "k < length fds'" "in_use (fds' ! k)" for k
  proof -
    have "fds' ! k = fds ! k" using k assms(2,3) by simp
    then show ?thesis using k assms(1,2) unfolding fds_inv_def by metis
  qed
  fix k l
  assume "k < length fds' \<and> l < length fds' \<and> in_use (fds' ! k) \<and> in_use (fds' ! l) \<and>
    dir_index (fds' ! k) = dir_index (fds' ! l)"
  moreover from this have "fds' ! k = fds ! k" "fds' ! l = fds ! l" using assms(2,3) by simp_all
  ultimately show "k = l" using assms(1,2) unfolding fds_inv_def by metis
qed

lemma fs_close_inv:
  assumes "fs_inv limit fs"
  shows "fs_inv limit (fs_close fd fs)"
proof -
  have closed: "fds_inv d (fds[k := (fds ! k)\<lparr>in_use := False\<rparr>])" if "fds_inv d fds" for d fds k
  proof (rule fds_inv_closed [OF that])
    fix l assume "l < length fds" "in_use (fds[k := (fds ! k)\<lparr>in_use := False\<rparr>] ! l)"
    then show "fds[k := (fds ! k)\<lparr>in_use := False\<rparr>] ! l = fds ! l" by (cases "k = l") auto
  qed simp
  show ?thesis
    using assms closed [of "g_dir fs" "g_fds fs" "nat fd"] by (simp add: fs_close_def fs_inv_def)
qed

lemma fs_read_frame:
  assumes "fs_read fd b off sz fs = Some (r, data, fs')"
  shows "\<exists>d. fs' = fs\<lparr>g_dev := d\<rparr>"
proof -
  have bnd: "\<exists>d. fs' = fs\<lparr>g_dev := d\<rparr>"
    if "(fs_read_bytes x y fs \<bind> (\<lambda>(rc, dt, fs1). if rc < 0 then Some (-1, [], fs1) else Some (z, dt, fs1)))
        = Some (r, data, fs')" for x y z
  proof -
    from that obtain q where q: "fs_read_bytes x y fs = Some q" by (cases "fs_read_bytes x y fs") auto
    with that have "fs' = snd (snd q)" by (cases q) (simp split: if_splits)
    with fs_read_bytes_frame [OF q] show ?thesis by simp
  qed
  have triv: "\<exists>d. fs' = fs\<lparr>g_dev := d\<rparr>" if "Some (x, y, fs) = Some (r, data, fs')" for x y
    using that dev_refl [of fs] by simp
  from assms show ?thesis
    unfolding fs_read_def Let_def by (elim if_eq_cases) (erule triv bnd)+
qed

lemma fs_read_inv: "fs_inv limit fs \<Longrightarrow> fs_read fd b off sz fs = Some (r, data, fs') \<Longrightarrow> fs_inv limit fs'"
  using fs_read_frame [of fd b off sz fs r data fs'] by auto

lemma fs_sync_inv: "fs_inv limit fs \<Longrightarrow> fs_inv limit (snd (fs_sync fs))"
  using dir_write_frame [of fs] by (auto simp: fs_sync_def)

end
