(* ===== verification/Bmfs_Store.thy ===== *)
theory Bmfs_Store
  imports Bmfs
begin

text \<open>
  The file store BMFS implements: a map from names to contents.  A mounted filesystem over a
  storage driver that keeps its contract is abstracted to this map; creating, deleting,
  writing and reading refine the corresponding map operations, and the on-disk directory
  always equals the cached one, so that mounting again gives the same files.
\<close>

section \<open>Abstraction\<close>

definition file_base :: "'d fs \<Rightarrow> bmfs_entry \<Rightarrow> nat" where
  "file_base fs e = part_base fs + unat (starting_block e) * 2 ^ 21"

definition file_data :: "('d \<Rightarrow> nat \<Rightarrow> u8) \<Rightarrow> 'd fs \<Rightarrow> bmfs_entry \<Rightarrow> bytes" where
  "file_data disk fs e = stored (disk (g_dev fs)) (file_base fs e) (unat (file_size e))"

definition files :: "('d \<Rightarrow> nat \<Rightarrow> u8) \<Rightarrow> 'd fs \<Rightarrow> bytes \<Rightarrow> bytes option" where
  "files disk fs nm =
     (if valid_name nm then
        case dir_find nm (g_dir fs) of None \<Rightarrow> None | Some i \<Rightarrow> Some (file_data disk fs (g_dir fs ! i))
      else None)"

text \<open>The on-disk directory is the cached one, and the volume carries the tag.\<close>

definition synced :: "('d \<Rightarrow> nat \<Rightarrow> u8) \<Rightarrow> 'd fs \<Rightarrow> bool" where
  "synced disk fs \<longleftrightarrow>
     stored (disk (g_dev fs)) (part_base fs + 1024) 4 = bmfs_tag \<and>
     stored (disk (g_dev fs)) (part_base fs + 4096) 4096 = bytes_of_dir (g_dir fs)"

definition mounted :: "('d \<Rightarrow> nat \<Rightarrow> u8) \<Rightarrow> nat \<Rightarrow> nat \<Rightarrow> 'd fs \<Rightarrow> bool" where
  "mounted disk cap limit fs \<longleftrightarrow> fs_inv limit fs \<and> g_initialized fs \<and> g_sector_buf fs \<and>
     on_storage disk cap fs \<and> 1 \<le> limit \<and> part_base fs + limit * 2 ^ 21 \<le> 512 * cap \<and>
     synced disk fs"

section \<open>Frame lemmas\<close>

lemma mounted_storage_writes: "mounted disk cap limit fs \<Longrightarrow> storage_writes fs"
  by (auto simp: mounted_def on_storage_def storage_contract_def storage_writes_def)

lemma mounted_dir_room: "mounted disk cap limit fs \<Longrightarrow> unat (g_partition_lba fs) + 16 \<le> cap"
proof -
  assume "mounted disk cap limit fs"
  then have "part_base fs + limit * 2 ^ 21 \<le> 512 * cap" "1 \<le> limit" by (simp_all add: mounted_def)
  then have "part_base fs + 2 ^ 21 \<le> 512 * cap" by (simp add: le_trans [rotated])
  then show ?thesis by (simp add: part_base_def)
qed

lemma file_base_simps [simp]:
  "file_base (fs\<lparr>g_dev := d\<rparr>) e = file_base fs e" "file_base (fs\<lparr>g_dir := dd\<rparr>) e = file_base fs e"
  "file_base (fs\<lparr>g_fds := ff\<rparr>) e = file_base fs e"
  "part_base (fs\<lparr>g_dir := dd\<rparr>) = part_base fs" "part_base (fs\<lparr>g_fds := ff\<rparr>) = part_base fs"
  by (simp_all add: file_base_def part_base_def)

lemma on_storage_simps [simp]:
  "on_storage disk cap (fs\<lparr>g_dir := dd\<rparr>) = on_storage disk cap fs"
  "on_storage disk cap (fs\<lparr>g_fds := ff\<rparr>) = on_storage disk cap fs"
  by (simp_all add: on_storage_def)

text \<open>A visible file lies beyond the metadata block.\<close>

lemma file_base_ge:
  assumes "fs_inv limit fs" "visible (g_dir fs) i"
  shows "part_base fs + 2 ^ 21 \<le> file_base fs (g_dir fs ! i)"
proof -
  have "1 \<le> unat (starting_block (g_dir fs ! i))"
    using assms by (simp add: fs_inv_def dir_inv_def entry_ok_def)
  then show ?thesis by (simp add: file_base_def)
qed

lemma file_end_le:
  assumes "mounted disk cap limit fs" "visible (g_dir fs) i"
  shows "file_base fs (g_dir fs ! i) + unat (reserved_blocks (g_dir fs ! i)) * 2 ^ 21 \<le> 512 * cap"
proof -
  have e: "unat (starting_block (g_dir fs ! i)) + unat (reserved_blocks (g_dir fs ! i)) \<le> limit"
    using assms by (simp add: mounted_def fs_inv_def dir_inv_def entry_ok_def)
  have "file_base fs (g_dir fs ! i) + unat (reserved_blocks (g_dir fs ! i)) * 2 ^ 21 =
      part_base fs + (unat (starting_block (g_dir fs ! i)) + unat (reserved_blocks (g_dir fs ! i))) * 2 ^ 21"
    by (simp only: file_base_def distrib_right add.assoc)
  also have "\<dots> \<le> part_base fs + limit * 2 ^ 21" using e by simp
  finally show ?thesis using assms(1) by (simp add: mounted_def)
qed

lemma blocks_disjoint_apart:
  assumes "blocks a m \<inter> blocks b n = {}" "0 < unat m" "0 < unat n"
  shows "(unat a + unat m) * 2 ^ 21 \<le> unat b * 2 ^ 21 \<or> (unat b + unat n) * 2 ^ 21 \<le> unat a * (2 ^ 21 :: nat)"
proof -
  have "unat a + unat m \<le> unat b \<or> unat b + unat n \<le> unat a"
  proof (rule ccontr)
    assume "\<not> ?thesis"
    then have "max (unat a) (unat b) \<in> blocks a m \<inter> blocks b n"
      using assms(2,3) by (auto simp: blocks_def)
    then show False using assms(1) by simp
  qed
  then show ?thesis by (auto intro: mult_le_mono1)
qed

text \<open>Bytes written inside the reserved area of one file leave every other file alone.\<close>

lemma other_file_untouched:
  assumes inv: "fs_inv limit fs" and i: "visible (g_dir fs) i" and j: "visible (g_dir fs) j" and "i \<noteq> j"
    and src: "off + length src \<le> unat (reserved_blocks (g_dir fs ! i)) * 2 ^ 21"
    and d: "disk d = written (file_base fs (g_dir fs ! i) + off) src (disk (g_dev fs))"
  shows "file_data disk (fs\<lparr>g_dev := d\<rparr>) (g_dir fs ! j) = file_data disk fs (g_dir fs ! j)"
proof (cases "file_size (g_dir fs ! j) = 0 \<or> src = []")
  case True
  then show ?thesis using d by (auto simp: file_data_def)
next
  case False
  let ?i = "g_dir fs ! i" and ?j = "g_dir fs ! j"
  have szj: "unat (file_size ?j) \<le> unat (reserved_blocks ?j) * 2 ^ 21"
    using inv j by (simp add: fs_inv_def dir_inv_def entry_ok_def)
  have "0 < unat (file_size ?j)" using False by (simp add: unat_gt_0)
  then have pj: "0 < unat (reserved_blocks ?j)" using szj by (cases "unat (reserved_blocks ?j)") auto
  have "0 < length src" using False by simp
  then have pi: "0 < unat (reserved_blocks ?i)" using src by (cases "unat (reserved_blocks ?i)") auto
  have "blocks (starting_block ?i) (reserved_blocks ?i) \<inter> blocks (starting_block ?j) (reserved_blocks ?j) = {}"
    using inv i j \<open>i \<noteq> j\<close> by (simp add: fs_inv_def dir_inv_def)
  from blocks_disjoint_apart [OF this pi pj]
  have "file_base fs ?j + unat (file_size ?j) \<le> file_base fs ?i + off \<or>
      file_base fs ?i + off + length src \<le> file_base fs ?j"
    using szj src unfolding file_base_def distrib_right by linarith
  then show ?thesis
    unfolding file_data_def using d by (simp add: stored_written_other)
qed

text \<open>Writing the directory changes the directory area only.\<close>

lemma dir_write_mounted:
  assumes ons: "on_storage disk cap fs" and room: "unat (g_partition_lba fs) + 16 \<le> cap"
    and inv: "fs_inv limit fs" and tag: "stored (disk (g_dev fs)) (part_base fs + 1024) 4 = bmfs_tag"
  obtains d where "dir_write fs = (0, fs\<lparr>g_dev := d\<rparr>)" "synced disk (fs\<lparr>g_dev := d\<rparr>)"
    "\<And>e. 1 \<le> unat (starting_block e) \<Longrightarrow> file_data disk (fs\<lparr>g_dev := d\<rparr>) e = file_data disk fs e"
proof -
  have wf: "dir_wf (g_dir fs)" using inv by (simp add: fs_inv_def dir_inv_def)
  obtain d where d: "dir_write fs = (0, fs\<lparr>g_dev := d\<rparr>)"
      "disk d = written (part_base fs + 4096) (bytes_of_dir (g_dir fs)) (disk (g_dev fs))"
    using dir_write_ok [OF ons wf room] by blast
  have len: "length (bytes_of_dir (g_dir fs)) = 4096" by (rule length_bytes_of_dir [OF wf])
  have "stored (disk d) (part_base fs + 4096) 4096 = bytes_of_dir (g_dir fs)"
    using stored_written_same [of "part_base fs + 4096" "bytes_of_dir (g_dir fs)"] len by (simp add: d(2))
  moreover have "stored (disk d) (part_base fs + 1024) 4 = bmfs_tag"
    using tag by (simp add: d(2) stored_written_other)
  ultimately have "synced disk (fs\<lparr>g_dev := d\<rparr>)" by (simp add: synced_def)
  moreover have "file_data disk (fs\<lparr>g_dev := d\<rparr>) e = file_data disk fs e" if "1 \<le> unat (starting_block e)" for e
  proof -
    have "part_base fs + 2 ^ 21 \<le> file_base fs e" using that by (simp add: file_base_def)
    then show ?thesis by (simp add: file_data_def d(2) stored_written_other len)
  qed
  ultimately show ?thesis using that d(1) by blast
qed

lemma files_eqI:
  assumes "dir_inv limit (g_dir fs)" "dir_inv limit (g_dir fs')"
    and "\<And>nm i. valid_name nm \<Longrightarrow> visible (g_dir fs') i \<Longrightarrow> entry_name (g_dir fs' ! i) = nm \<Longrightarrow>
        F nm = Some (file_data disk fs' (g_dir fs' ! i))"
    and "\<And>nm. valid_name nm \<Longrightarrow> (\<And>i. visible (g_dir fs') i \<Longrightarrow> entry_name (g_dir fs' ! i) \<noteq> nm) \<Longrightarrow> F nm = None"
    and "\<And>nm. \<not> valid_name nm \<Longrightarrow> F nm = None"
  shows "files disk fs' = F"
proof
  fix nm
  show "files disk fs' nm = F nm"
  proof (cases "valid_name nm")
    case True
    note fi = dir_find_iff [OF assms(2) True] and fn = dir_find_None_iff [OF assms(2) True]
    show ?thesis
    proof (cases "dir_find nm (g_dir fs')")
      case None
      then have "F nm = None" using fn assms(4) [OF True] by blast
      then show ?thesis using None by (simp add: files_def)
    next
      case (Some i)
      then have "F nm = Some (file_data disk fs' (g_dir fs' ! i))" using fi assms(3) [OF True] by blast
      then show ?thesis using Some True by (simp add: files_def)
    qed
  next
    case False
    then show ?thesis using assms(5) by (simp add: files_def)
  qed
qed

lemma files_visible:
  assumes "dir_inv limit (g_dir fs)" "visible (g_dir fs) i" "valid_name (entry_name (g_dir fs ! i))"
  shows "files disk fs (entry_name (g_dir fs ! i)) = Some (file_data disk fs (g_dir fs ! i))"
  using dir_find_iff [OF assms(1,3), of i] assms by (simp add: files_def)

lemma files_None:
  assumes "dir_inv limit (g_dir fs)" "valid_name nm"
  shows "files disk fs nm = None \<longleftrightarrow> dir_find nm (g_dir fs) = None"
  using assms by (simp add: files_def split: option.splits)

section \<open>Create\<close>

text \<open>Filling a free directory slot with an empty file and writing the directory.\<close>

lemma fill_mounted:
  assumes mnt: "mounted disk cap limit fs" and k: "dir_find_free (g_dir fs) = Some k"
    and fb: "first_byte e \<noteq> BMFS_ENTRY_END" "first_byte e \<noteq> BMFS_ENTRY_DELETED"
    and dinv': "dir_inv limit ((g_dir fs)[k := e])"
  obtains d where "dir_write (fs\<lparr>g_dir := (g_dir fs)[k := e]\<rparr>) = (0, fs\<lparr>g_dir := (g_dir fs)[k := e], g_dev := d\<rparr>)"
    "mounted disk cap limit (fs\<lparr>g_dir := (g_dir fs)[k := e], g_dev := d\<rparr>)"
    "\<And>x. 1 \<le> unat (starting_block x) \<Longrightarrow>
       file_data disk (fs\<lparr>g_dir := (g_dir fs)[k := e], g_dev := d\<rparr>) x = file_data disk fs x"
proof -
  let ?d = "(g_dir fs)[k := e]"
  have inv: "fs_inv limit fs" and dinv: "dir_inv limit (g_dir fs)"
    using mnt by (auto simp: mounted_def fs_inv_def)
  have tc: "tail_clear (g_dir fs)" using dinv by (simp add: dir_inv_def)
  note vis = visible_fill(2) [OF tc k fb]
  have ks: "k < length (g_dir fs)" "\<not> visible (g_dir fs) k" using dir_find_free_Some [OF k] by auto
  have "fds_inv ?d (g_fds fs)"
  proof (rule fds_inv_mono)
    show "fds_inv (g_dir fs) (g_fds fs)" using inv by (simp add: fs_inv_def)
    fix l assume v: "visible (g_dir fs) (dir_index (g_fds fs ! l))"
    then have "dir_index (g_fds fs ! l) \<noteq> k" using ks(2) by metis
    then show "visible ?d (dir_index (g_fds fs ! l)) \<and>
        ?d ! dir_index (g_fds fs ! l) = g_dir fs ! dir_index (g_fds fs ! l)"
      using v vis by simp
  qed
  then have inv1: "fs_inv limit (fs\<lparr>g_dir := ?d\<rparr>)" using inv dinv' by (simp add: fs_inv_def)
  have ons: "on_storage disk cap (fs\<lparr>g_dir := ?d\<rparr>)" using mnt by (simp add: mounted_def)
  have dr: "unat (g_partition_lba (fs\<lparr>g_dir := ?d\<rparr>)) + 16 \<le> cap" using mounted_dir_room [OF mnt] by simp
  have tag: "stored (disk (g_dev (fs\<lparr>g_dir := ?d\<rparr>))) (part_base (fs\<lparr>g_dir := ?d\<rparr>) + 1024) 4 = bmfs_tag"
    using mnt by (simp add: mounted_def synced_def)
  obtain d where d: "dir_write (fs\<lparr>g_dir := ?d\<rparr>) = (0, fs\<lparr>g_dir := ?d, g_dev := d\<rparr>)"
      "synced disk (fs\<lparr>g_dir := ?d, g_dev := d\<rparr>)"
      "\<And>x. 1 \<le> unat (starting_block x) \<Longrightarrow>
         file_data disk (fs\<lparr>g_dir := ?d, g_dev := d\<rparr>) x = file_data disk (fs\<lparr>g_dir := ?d\<rparr>) x"
    using dir_write_mounted [OF ons dr inv1 tag] by blast
  have "mounted disk cap limit (fs\<lparr>g_dir := ?d, g_dev := d\<rparr>)" using mnt inv1 d(2) by (simp add: mounted_def)
  then show ?thesis using that d(1,3) by (simp add: file_data_def)
qed

lemma files_fill:
  assumes dinv: "dir_inv limit (g_dir fs)" and k: "dir_find_free (g_dir fs) = Some k"
    and fb: "first_byte e \<noteq> BMFS_ENTRY_END" "first_byte e \<noteq> BMFS_ENTRY_DELETED"
    and e: "entry_name e = nm" "valid_name nm" "dir_find nm (g_dir fs) = None" "file_size e = 0"
    and fs': "dir_inv limit (g_dir fs')" "g_dir fs' = (g_dir fs)[k := e]"
    and fd: "\<And>x. 1 \<le> unat (starting_block x) \<Longrightarrow> file_data disk fs' x = file_data disk fs x"
  shows "files disk fs' = (files disk fs)(nm \<mapsto> [])"
proof (rule files_eqI [OF dinv fs'(1)])
  have tc: "tail_clear (g_dir fs)" using dinv by (simp add: dir_inv_def)
  have vis: "visible (g_dir fs') i \<longleftrightarrow> i = k \<or> visible (g_dir fs) i" for i
    using visible_fill(2) [OF tc k fb] fs'(2) by simp
  have ks: "k < length (g_dir fs)" "\<not> visible (g_dir fs) k" using dir_find_free_Some [OF k] by auto
  have at: "g_dir fs' ! i = (if i = k then e else g_dir fs ! i)" for i using ks fs'(2) by simp
  have none: "visible (g_dir fs) i \<Longrightarrow> entry_name (g_dir fs ! i) \<noteq> nm" for i
    using e(3) dir_find_None_iff [OF dinv e(2)] by blast
  {
    fix n i assume n: "valid_name n" "visible (g_dir fs') i" "entry_name (g_dir fs' ! i) = n"
    show "((files disk fs)(nm \<mapsto> [])) n = Some (file_data disk fs' (g_dir fs' ! i))"
    proof (cases "i = k")
      case True
      then show ?thesis using n e at by (simp add: file_data_def)
    next
      case False
      then have v: "visible (g_dir fs) i" "entry_name (g_dir fs ! i) = n" using n vis at by simp_all
      have "1 \<le> unat (starting_block (g_dir fs ! i))"
        using v dinv by (simp add: dir_inv_def entry_ok_def)
      then show ?thesis
        using False at fd v n(1) none [OF v(1)] files_visible [OF dinv v(1)] by auto
    qed
  next
    fix n assume n: "valid_name n" "\<And>i. visible (g_dir fs') i \<Longrightarrow> entry_name (g_dir fs' ! i) \<noteq> n"
    have "n \<noteq> nm" using n(2) [of k] vis at e by simp
    moreover have "entry_name (g_dir fs ! i) \<noteq> n" if v: "visible (g_dir fs) i" for i
    proof -
      have "i \<noteq> k" using v ks by metis
      then show ?thesis using n(2) [of i] v vis at by simp
    qed
    ultimately show "((files disk fs)(nm \<mapsto> [])) n = None"
      using files_None [OF dinv n(1)] dir_find_None_iff [OF dinv n(1)] by simp
  next
    fix n assume "\<not> valid_name n"
    then show "((files disk fs)(nm \<mapsto> [])) n = None" using e by (auto simp: files_def)
  }
qed

lemma fs_create_ok:
  assumes mnt: "mounted disk cap limit fs" and nm: "valid_name nm" "nm ! 0 \<noteq> BMFS_ENTRY_DELETED"
    and new: "files disk fs nm = None" and slot: "dir_find_free (g_dir fs) \<noteq> None"
    and nfull: "\<not> dir_full (g_dir fs)" and room: "room limit (if r = 0 then 1 else r) (g_dir fs)"
  obtains fs' where "fs_create (Some nm) r fs = (0, fs')" "mounted disk cap limit fs'"
    "files disk fs' = (files disk fs)(nm \<mapsto> [])"
proof -
  define rr where "rr = (if r = 0 then 1 else r)"
  define b where "b = find_free_blocks rr (g_dir fs)"
  define e where "e = new_entry nm b rr"
  have dinv: "dir_inv limit (g_dir fs)" and lim: "limit < 2 ^ 64"
    using mnt by (auto simp: mounted_def fs_inv_def)
  obtain k where k: "dir_find_free (g_dir fs) = Some k" using slot by auto
  have nf: "dir_find nm (g_dir fs) = None" using new files_None [OF dinv nm(1)] by simp
  have dinv': "dir_inv limit ((g_dir fs)[k := e])"
    unfolding e_def b_def by (rule dir_inv_fill [OF dinv lim nm nf k room [folded rr_def]])
  have ne: "nm \<noteq> []" and nz: "nm ! 0 \<noteq> 0"
    using nm nth_mem [of 0 nm] by (auto simp: valid_name_def simp del: nth_mem)
  have fb: "first_byte e \<noteq> BMFS_ENTRY_END" "first_byte e \<noteq> BMFS_ENTRY_DELETED"
    using nm(2) nz by (simp_all add: e_def first_byte_new_entry [OF ne] BMFS_ENTRY_END_def)
  have "1 \<le> unat b"
    using find_free_blocks_free(1) [OF lim, of "g_dir fs" rr] room by (simp add: b_def rr_def room_def)
  then have b0: "b \<noteq> 0" by (metis unat_0 not_one_le_zero)
  obtain d where d: "dir_write (fs\<lparr>g_dir := (g_dir fs)[k := e]\<rparr>) = (0, fs\<lparr>g_dir := (g_dir fs)[k := e], g_dev := d\<rparr>)"
    "mounted disk cap limit (fs\<lparr>g_dir := (g_dir fs)[k := e], g_dev := d\<rparr>)"
    "\<And>x. 1 \<le> unat (starting_block x) \<Longrightarrow>
       file_data disk (fs\<lparr>g_dir := (g_dir fs)[k := e], g_dev := d\<rparr>) x = file_data disk fs x"
    using fill_mounted [OF mnt k fb dinv'] by blast
  let ?fs = "fs\<lparr>g_dir := (g_dir fs)[k := e], g_dev := d\<rparr>"
  have len: "length nm < BMFS_MAX_FILENAME" using nm by (simp add: valid_name_def BMFS_MAX_FILENAME_def)
  have ret: "fs_create (Some nm) r fs = (0, ?fs)"
    unfolding fs_create_def Let_def rr_def [symmetric] b_def [symmetric] e_def [symmetric]
    using mnt mounted_storage_writes [OF mnt] len ne nz nm(2) nf k b0 d(1) ensure_end_id [OF dinv k nfull]
    by (simp add: mounted_def BMFS_ENTRY_END_def b_def [symmetric] e_def [symmetric])
  have "files disk ?fs = (files disk fs)(nm \<mapsto> [])"
  proof (rule files_fill [OF dinv k fb _ nm(1) nf])
    show "entry_name e = nm" "file_size e = 0"
      using entry_name_new_entry [OF nm(1)] by (simp_all add: e_def new_entry_def)
  qed (use dinv' d(3) in simp_all)
  then show ?thesis using that ret d(2) by blast
qed

section \<open>Delete\<close>

lemma fs_delete_ok:
  assumes mnt: "mounted disk cap limit fs" and nm: "valid_name nm" and old: "files disk fs nm \<noteq> None"
  obtains fs' where "fs_delete (Some nm) fs = (0, fs')" "mounted disk cap limit fs'"
    "files disk fs' = (files disk fs)(nm := None)"
proof -
  have inv: "fs_inv limit fs" and dinv: "dir_inv limit (g_dir fs)"
    using mnt by (auto simp: mounted_def fs_inv_def)
  obtain k where k: "dir_find nm (g_dir fs) = Some k" using old files_None [OF dinv nm] by auto
  then have vk: "visible (g_dir fs) k" "entry_name (g_dir fs ! k) = nm" using dir_find_iff [OF dinv nm] by auto
  define dd where "dd = (g_dir fs)[k := mark_first BMFS_ENTRY_DELETED (g_dir fs ! k)]"
  define ff where "ff = map (\<lambda>f. if in_use f \<and> dir_index f = k then f\<lparr>in_use := False\<rparr> else f) (g_fds fs)"
  define fs1 where "fs1 = fs\<lparr>g_fds := ff, g_dir := dd\<rparr>"
  have dinv': "dir_inv limit dd" unfolding dd_def by (rule dir_inv_drop [OF dinv vk(1)])
  have wf: "entry_wf (g_dir fs ! k)"
    using dir_inv_wf [OF dinv] visible_lt [OF vk(1)] dir_inv_length [OF dinv] by simp
  have tc: "tail_clear (g_dir fs)" using dinv by (simp add: dir_inv_def)
  note vis = visible_drop(2) [OF tc vk(1) wf, folded dd_def]
  have at: "i \<noteq> k \<Longrightarrow> dd ! i = g_dir fs ! i" for i by (simp add: dd_def)
  have "fds_inv (g_dir fs) ff"
  proof (rule fds_inv_closed)
    show "fds_inv (g_dir fs) (g_fds fs)" using inv by (simp add: fs_inv_def)
    show "length ff = length (g_fds fs)" by (simp add: ff_def)
    show "\<And>l. l < length (g_fds fs) \<Longrightarrow> in_use (ff ! l) \<Longrightarrow> ff ! l = g_fds fs ! l"
      by (auto simp: ff_def split: if_splits)
  qed
  then have "fds_inv dd ff"
  proof (rule fds_inv_mono)
    fix l assume l: "l < length ff" "in_use (ff ! l)" "visible (g_dir fs) (dir_index (ff ! l))"
    then have "dir_index (ff ! l) \<noteq> k" by (auto simp: ff_def split: if_splits)
    then show "visible dd (dir_index (ff ! l)) \<and> dd ! dir_index (ff ! l) = g_dir fs ! dir_index (ff ! l)"
      using l vis at by simp
  qed
  then have inv1: "fs_inv limit fs1" using inv dinv' by (simp add: fs_inv_def fs1_def)
  have ons: "on_storage disk cap fs1" using mnt by (simp add: mounted_def fs1_def)
  have dr: "unat (g_partition_lba fs1) + 16 \<le> cap" using mounted_dir_room [OF mnt] by (simp add: fs1_def)
  have tag: "stored (disk (g_dev fs1)) (part_base fs1 + 1024) 4 = bmfs_tag"
    using mnt by (simp add: mounted_def synced_def fs1_def)
  obtain d where d: "dir_write fs1 = (0, fs1\<lparr>g_dev := d\<rparr>)" "synced disk (fs1\<lparr>g_dev := d\<rparr>)"
      "\<And>x. 1 \<le> unat (starting_block x) \<Longrightarrow> file_data disk (fs1\<lparr>g_dev := d\<rparr>) x = file_data disk fs1 x"
    using dir_write_mounted [OF ons dr inv1 tag] by blast
  let ?fs = "fs1\<lparr>g_dev := d\<rparr>"
  have ret: "fs_delete (Some nm) fs = (0, ?fs)"
    using mnt mounted_storage_writes [OF mnt] k d(1)
    by (simp add: fs_delete_def mounted_def fs1_def ff_def dd_def)
  have mnt': "mounted disk cap limit ?fs" using mnt inv1 d(2) by (simp add: mounted_def fs1_def)
  have fd: "file_data disk ?fs (g_dir fs ! i) = file_data disk fs (g_dir fs ! i)" if "visible (g_dir fs) i" for i
    using d(3) [of "g_dir fs ! i"] that dinv by (simp add: dir_inv_def entry_ok_def file_data_def fs1_def)
  have "files disk ?fs = (files disk fs)(nm := None)"
  proof (rule files_eqI [OF dinv])
    show "dir_inv limit (g_dir ?fs)" using dinv' by (simp add: fs1_def)
    fix n i assume "valid_name n" "visible (g_dir ?fs) i" "entry_name (g_dir ?fs ! i) = n"
    then have n: "valid_name n" "visible dd i" "entry_name (dd ! i) = n" by (simp_all add: fs1_def)
    then have v: "visible (g_dir fs) i" "i \<noteq> k" "entry_name (g_dir fs ! i) = n" using vis at by auto
    then have "n \<noteq> nm" using dinv vk unfolding dir_inv_def by metis
    then show "((files disk fs)(nm := None)) n = Some (file_data disk ?fs (g_dir ?fs ! i))"
      using v n(1) fd [OF v(1)] files_visible [OF dinv v(1)] at [OF v(2)] by (simp add: fs1_def)
  next
    fix n assume n: "valid_name n" "\<And>i. visible (g_dir ?fs) i \<Longrightarrow> entry_name (g_dir ?fs ! i) \<noteq> n"
    have "files disk fs n = None" if "n \<noteq> nm"
    proof -
      have "entry_name (g_dir fs ! i) \<noteq> n" if v: "visible (g_dir fs) i" for i
        using n(2) [of i] v vis at vk \<open>n \<noteq> nm\<close> by (cases "i = k") (simp_all add: fs1_def)
      then show ?thesis using files_None [OF dinv n(1)] dir_find_None_iff [OF dinv n(1)] by simp
    qed
    then show "((files disk fs)(nm := None)) n = None" by simp
  next
    fix n assume "\<not> valid_name n"
    then show "((files disk fs)(nm := None)) n = None" by (simp add: files_def)
  qed
  then show ?thesis using that ret mnt' by blast
qed

section \<open>Write\<close>

lemma stored_overwrite:
  assumes "off \<le> n"
  shows "stored (written (lo + off) src f) lo (max n (off + length src)) =
    take off (stored f lo n) @ src @ drop (off + length src) (stored f lo n)"
proof (rule nth_equalityI)
  show "length (stored (written (lo + off) src f) lo (max n (off + length src))) =
      length (take off (stored f lo n) @ src @ drop (off + length src) (stored f lo n))"
    using assms by simp
  fix i assume "i < length (stored (written (lo + off) src f) lo (max n (off + length src)))"
  then show "stored (written (lo + off) src f) lo (max n (off + length src)) ! i =
      (take off (stored f lo n) @ src @ drop (off + length src) (stored f lo n)) ! i"
    using assms by (auto simp: written_def nth_append)
qed

lemma files_resize:
  assumes dinv: "dir_inv limit (g_dir fs)" and v: "visible (g_dir fs) i"
    and nm: "entry_name (g_dir fs ! i) = nm" "valid_name nm"
    and fs': "dir_inv limit (g_dir fs')" "g_dir fs' = (g_dir fs)[i := (g_dir fs ! i)\<lparr>file_size := n\<rparr>]"
    and same: "\<And>j. visible (g_dir fs) j \<Longrightarrow> j \<noteq> i \<Longrightarrow> file_data disk fs' (g_dir fs ! j) = file_data disk fs (g_dir fs ! j)"
    and c: "file_data disk fs' ((g_dir fs ! i)\<lparr>file_size := n\<rparr>) = c"
  shows "files disk fs' = (files disk fs)(nm \<mapsto> c)"
proof (rule files_eqI [OF dinv fs'(1)])
  have i: "i < length (g_dir fs)" by (rule visible_lt [OF v])
  have vis: "visible (g_dir fs') j = visible (g_dir fs) j" for j
    using visible_resize [OF i] fs'(2) by simp
  have at: "g_dir fs' ! j = (if j = i then (g_dir fs ! i)\<lparr>file_size := n\<rparr> else g_dir fs ! j)" for j
    using i fs'(2) by simp
  have nme: "entry_name (g_dir fs' ! j) = entry_name (g_dir fs ! j)" for j
    by (simp add: at entry_name_def)
  {
    fix m j assume m: "valid_name m" "visible (g_dir fs') j" "entry_name (g_dir fs' ! j) = m"
    then have vj: "visible (g_dir fs) j" "entry_name (g_dir fs ! j) = m" using vis nme by simp_all
    show "((files disk fs)(nm \<mapsto> c)) m = Some (file_data disk fs' (g_dir fs' ! j))"
    proof (cases "j = i")
      case True
      then show ?thesis using vj nm c at by simp
    next
      case False
      then have "m \<noteq> nm" using dinv v vj nm unfolding dir_inv_def by metis
      then show ?thesis using False vj m(1) same at files_visible [OF dinv vj(1)] by simp
    qed
  next
    fix m assume m: "valid_name m" "\<And>j. visible (g_dir fs') j \<Longrightarrow> entry_name (g_dir fs' ! j) \<noteq> m"
    then have "m \<noteq> nm" using v nm vis nme by metis
    moreover have "dir_find m (g_dir fs) = None"
      using m dir_find_None_iff [OF dinv m(1)] vis nme by simp
    ultimately show "((files disk fs)(nm \<mapsto> c)) m = None"
      using files_None [OF dinv m(1)] by simp
  next
    fix m assume "\<not> valid_name m"
    then show "((files disk fs)(nm \<mapsto> c)) m = None" using nm by (auto simp: files_def)
  }
qed

text \<open>The descriptor of an open file and the address arithmetic of its transfers.\<close>

definition open_on :: "int \<Rightarrow> nat \<Rightarrow> 'd fs \<Rightarrow> bool" where
  "open_on fd i fs \<longleftrightarrow> 0 \<le> fd \<and> fd < 64 \<and> in_use (g_fds fs ! nat fd) \<and> dir_index (g_fds fs ! nat fd) = i"

lemma open_on_entry:
  assumes "fs_inv limit fs" "open_on fd i fs"
  shows "visible (g_dir fs) i" "entry_ok limit (g_dir fs ! i)"
    "fd_starting_block (g_fds fs ! nat fd) = starting_block (g_dir fs ! i)"
    "fd_reserved_blocks (g_fds fs ! nat fd) = reserved_blocks (g_dir fs ! i)"
    "fd_file_size (g_fds fs ! nat fd) = file_size (g_dir fs ! i)"
    "fd_filename (g_fds fs ! nat fd) = filename (g_dir fs ! i)"
proof -
  have "fd_ok (g_dir fs) (g_fds fs ! nat fd)"
    using assms unfolding fs_inv_def fds_inv_def open_on_def BMFS_MAX_FILES_def
    by (metis nat_less_iff of_nat_numeral)
  then show "visible (g_dir fs) i"
    "fd_starting_block (g_fds fs ! nat fd) = starting_block (g_dir fs ! i)"
    "fd_reserved_blocks (g_fds fs ! nat fd) = reserved_blocks (g_dir fs ! i)"
    "fd_file_size (g_fds fs ! nat fd) = file_size (g_dir fs ! i)"
    "fd_filename (g_fds fs ! nat fd) = filename (g_dir fs ! i)"
    using assms(2) by (simp_all add: fd_ok_def open_on_def)
  then show "entry_ok limit (g_dir fs ! i)" using assms(1) by (simp add: fs_inv_def dir_inv_def)
qed

lemma entry_words:
  assumes "entry_ok limit e" "limit \<le> 2 ^ 43"
  shows "unat (reserved_blocks e * BMFS_BLOCK_SIZE) = unat (reserved_blocks e) * 2 ^ 21"
    "unat off \<le> unat (reserved_blocks e) * 2 ^ 21 \<Longrightarrow>
     unat (starting_block e * BMFS_BLOCK_SIZE + off) = unat (starting_block e) * 2 ^ 21 + unat off
     \<or> unat off = unat (reserved_blocks e) * 2 ^ 21"
proof -
  let ?s = "unat (starting_block e)" and ?r = "unat (reserved_blocks e)"
  have sr: "1 \<le> ?s" "?s + ?r \<le> 2 ^ 43" using assms by (auto simp: entry_ok_def)
  then have tot: "(?s + ?r) * 2 ^ 21 \<le> 2 ^ 64" by simp
  have bs: "unat BMFS_BLOCK_SIZE = 2 ^ 21" by (simp add: BMFS_BLOCK_SIZE_def)
  have "?r * 2 ^ 21 < 2 ^ 64" using sr by simp
  then show "unat (reserved_blocks e * BMFS_BLOCK_SIZE) = ?r * 2 ^ 21"
    by (simp only: unat_word_ariths bs) simp
  assume off: "unat off \<le> ?r * 2 ^ 21"
  show "unat (starting_block e * BMFS_BLOCK_SIZE + off) = ?s * 2 ^ 21 + unat off \<or> unat off = ?r * 2 ^ 21"
  proof (cases "unat off = ?r * 2 ^ 21")
    case False
    then have lt: "?s * 2 ^ 21 + unat off < 2 ^ 64" using off tot unfolding distrib_right by linarith
    then have "unat (starting_block e * BMFS_BLOCK_SIZE) = ?s * 2 ^ 21"
      by (simp only: unat_word_ariths bs) simp
    then show ?thesis using lt unat_add_lt [of "starting_block e * BMFS_BLOCK_SIZE" off] by simp
  qed simp
qed

text \<open>What a data write does to the store before the recorded size is updated.\<close>

lemma data_write_ok:
  assumes mnt: "mounted disk cap limit fs" and op: "open_on fd i fs"
    and fit: "unat off + length src \<le> unat (reserved_blocks (g_dir fs ! i)) * 2 ^ 21"
    and sz: "unat sz = length src" "0 < length src" "length src < 2 ^ 41"
  obtains d where
    "fs_write_bytes src (starting_block (g_dir fs ! i) * BMFS_BLOCK_SIZE + off) sz fs = Some (0, fs\<lparr>g_dev := d\<rparr>)"
    "disk d = written (file_base fs (g_dir fs ! i) + unat off) src (disk (g_dev fs))"
    "stored (disk d) (part_base fs + 1024) 4 = bmfs_tag"
    "stored (disk d) (part_base fs + 4096) 4096 = bytes_of_dir (g_dir fs)"
proof -
  let ?e = "g_dir fs ! i"
  have inv: "fs_inv limit fs" and ons: "on_storage disk cap fs" using mnt by (simp_all add: mounted_def)
  note oe = open_on_entry [OF inv op]
  have lim: "limit \<le> 2 ^ 43" using inv by (simp add: fs_inv_def)
  have at: "unat (starting_block ?e * BMFS_BLOCK_SIZE + off) = unat (starting_block ?e) * 2 ^ 21 + unat off"
    using entry_words(2) [OF oe(2) lim, of off] fit sz(2) by linarith
  have "part_base fs + unat (starting_block ?e * BMFS_BLOCK_SIZE + off) + unat sz \<le> 512 * cap"
    using file_end_le [OF mnt oe(1)] fit sz(1) unfolding at file_base_def by linarith
  from fs_write_bytes_ok [OF ons this _ sz(1) [symmetric]] sz
  obtain d where d: "fs_write_bytes src (starting_block ?e * BMFS_BLOCK_SIZE + off) sz fs = Some (0, fs\<lparr>g_dev := d\<rparr>)"
      "disk d = written (file_base fs ?e + unat off) src (disk (g_dev fs))"
    by (auto simp: at file_base_def add.assoc)
  have "part_base fs + 2 ^ 21 \<le> file_base fs ?e" by (rule file_base_ge [OF inv oe(1)])
  then have "stored (disk d) (part_base fs + a) n = stored (disk (g_dev fs)) (part_base fs + a) n"
    if "a + n \<le> 2 ^ 21" for a n
    using that unfolding d(2) by (intro stored_written_other) linarith
  then have "stored (disk d) (part_base fs + 1024) 4 = bmfs_tag"
    "stored (disk d) (part_base fs + 4096) 4096 = bytes_of_dir (g_dir fs)"
    using mnt by (simp_all add: mounted_def synced_def)
  with d that show ?thesis by blast
qed

lemma write_word_sum:
  assumes "unat off + unat (sz :: u64) \<le> m" "unat mx = m"
  shows "\<not> off + sz > mx" "unat (off + sz) = unat off + unat sz"
proof -
  show s: "unat (off + sz) = unat off + unat sz"
    using assms unat_u64_lt [of mx] by (intro unat_add_lt) simp
  show "\<not> off + sz > mx" using s assms by (simp add: word_less_nat_alt)
qed

lemma fds_inv_resize:
  assumes inv: "fds_inv d fds" and k: "k < length fds" "in_use (fds ! k)" "dir_index (fds ! k) = i"
    and i: "i < length d"
  shows "fds_inv (d[i := (d ! i)\<lparr>file_size := n\<rparr>]) (fds[k := (fds ! k)\<lparr>fd_file_size := n\<rparr>])"
proof -
  let ?d = "d[i := (d ! i)\<lparr>file_size := n\<rparr>]" and ?f = "fds[k := (fds ! k)\<lparr>fd_file_size := n\<rparr>]"
  have f: "?f ! l = (if l = k then (fds ! k)\<lparr>fd_file_size := n\<rparr> else fds ! l)" for l using k by simp
  have flds: "in_use (?f ! l) = in_use (fds ! l)" "dir_index (?f ! l) = dir_index (fds ! l)" for l
    by (simp_all add: f)
  have d: "?d ! j = (if j = i then (d ! i)\<lparr>file_size := n\<rparr> else d ! j)" for j using i by simp
  have other: "dir_index (fds ! l) \<noteq> i" if "l < length fds" "in_use (fds ! l)" "l \<noteq> k" for l
    using that inv k unfolding fds_inv_def by metis
  show ?thesis
    unfolding fds_inv_def flds length_list_update
  proof (intro conjI allI impI)
    show "length fds = BMFS_MAX_FILES" using inv by (simp add: fds_inv_def)
    fix l assume l: "l < length fds" "in_use (fds ! l)"
    then have ok: "fd_ok d (fds ! l)" using inv unfolding fds_inv_def by metis
    show "fd_ok ?d (?f ! l)"
      using ok k other [OF l] visible_resize [OF i] unfolding fd_ok_def flds
      by (cases "l = k") (simp_all add: f d)
  next
    fix l m assume "l < length fds \<and> m < length fds \<and> in_use (fds ! l) \<and> in_use (fds ! m) \<and>
      dir_index (fds ! l) = dir_index (fds ! m)"
    then show "l = m" using inv unfolding fds_inv_def by metis
  qed
qed

lemma fs_write_ok:
  assumes mnt: "mounted disk cap limit fs" and op: "open_on fd i fs"
    and nm: "entry_name (g_dir fs ! i) = nm" "valid_name nm"
    and fit: "unat off + length src \<le> unat (reserved_blocks (g_dir fs ! i)) * 2 ^ 21"
    and off: "unat off \<le> unat (file_size (g_dir fs ! i))"
    and sz: "unat sz = length src" "0 < length src" "length src < 2 ^ 41"
  obtains fs' where "fs_write fd (Some src) off sz fs = Some (int (length src), fs')"
    "mounted disk cap limit fs'" "open_on fd i fs'"
    "files disk fs' = (files disk fs)(nm \<mapsto> take (unat off) (file_data disk fs (g_dir fs ! i)) @ src @
       drop (unat off + length src) (file_data disk fs (g_dir fs ! i)))"
proof -
  define e where "e = g_dir fs ! i"
  define f where "f = g_fds fs ! nat fd"
  let ?c = "file_data disk fs e" and ?new = "off + sz"
  have inv: "fs_inv limit fs" and dinv: "dir_inv limit (g_dir fs)" and lim: "limit \<le> 2 ^ 43"
    using mnt by (auto simp: mounted_def fs_inv_def)
  note oe = open_on_entry [OF inv op, folded e_def f_def]
  have len: "length (g_fds fs) = 64" using inv by (simp add: fs_inv_def fds_inv_def BMFS_MAX_FILES_def)
  have fd: "0 \<le> fd" "fd < 64" "in_use f" "dir_index f = i" "nat fd < length (g_fds fs)"
    using op len by (auto simp: open_on_def f_def)
  have mx: "unat (reserved_blocks e * BMFS_BLOCK_SIZE) = unat (reserved_blocks e) * 2 ^ 21"
    using entry_words(1) [OF oe(2) lim] by simp
  note sm = write_word_sum [of off sz, OF fit [folded sz(1) e_def] mx]
  obtain d where d: "fs_write_bytes src (starting_block e * BMFS_BLOCK_SIZE + off) sz fs = Some (0, fs\<lparr>g_dev := d\<rparr>)"
    "disk d = written (file_base fs e + unat off) src (disk (g_dev fs))"
    "stored (disk d) (part_base fs + 1024) 4 = bmfs_tag"
    "stored (disk d) (part_base fs + 4096) 4096 = bytes_of_dir (g_dir fs)"
    using data_write_ok [OF mnt op fit sz, folded e_def] by blast
  have sint: "sint sz = int (length src)" using sz sint_small [of sz] by simp
  have same: "file_data disk (fs\<lparr>g_dev := d\<rparr>) (g_dir fs ! j) = file_data disk fs (g_dir fs ! j)"
    if "visible (g_dir fs) j" "j \<noteq> i" for j
    by (rule other_file_untouched [OF inv oe(1) that(1) that(2) [symmetric] fit d(2) [unfolded e_def]])
  have mine: "stored (disk d) (file_base fs e) (max (unat (file_size e)) (unat off + length src)) =
      take (unat off) ?c @ src @ drop (unat off + length src) ?c"
    unfolding d(2) file_data_def by (rule stored_overwrite) (use off in \<open>simp add: e_def\<close>)
  have szn: "sz \<noteq> 0" using sz by auto
  have sw: "storage_writes fs" by (rule mounted_storage_writes [OF mnt])
  have ini: "g_initialized fs" using mnt by (simp add: mounted_def)
  show ?thesis
  proof (cases "?new > file_size e")
    case False
    let ?fs = "fs\<lparr>g_dev := d\<rparr>"
    have "unat off + length src \<le> unat (file_size e)"
      using False sm(2) sz(1) by (simp add: word_less_nat_alt)
    then have c: "file_data disk ?fs (e\<lparr>file_size := file_size e\<rparr>) =
        take (unat off) ?c @ src @ drop (unat off + length src) ?c"
      using mine by (simp add: file_data_def max_absorb1)
    have "fs_write fd (Some src) off sz fs = Some (int (length src), ?fs)"
      using ini fd szn sw sm(1) d(1) False oe sint
      by (simp add: fs_write_def bad_fd_def BMFS_MAX_FILES_def Let_def f_def [symmetric])
    moreover have "mounted disk cap limit ?fs" using mnt d(3,4) by (simp add: mounted_def synced_def)
    moreover have "files disk ?fs = (files disk fs)(nm \<mapsto> take (unat off) ?c @ src @
        drop (unat off + length src) ?c)"
    proof (rule files_resize [OF dinv oe(1) nm, where n = "file_size e"])
      show "dir_inv limit (g_dir ?fs)" using dinv by simp
      show "g_dir ?fs = (g_dir fs)[i := (g_dir fs ! i)\<lparr>file_size := file_size e\<rparr>]"
        by (simp add: e_def)
      show "file_data disk ?fs ((g_dir fs ! i)\<lparr>file_size := file_size e\<rparr>) =
          take (unat off) ?c @ src @ drop (unat off + length src) ?c"
        using c by (simp only: e_def)
    qed (rule same)
    moreover have "open_on fd i ?fs" using op by (simp add: open_on_def)
    ultimately show ?thesis using that unfolding e_def by blast
  next
    case True
    define dd where "dd = (g_dir fs)[i := e\<lparr>file_size := ?new\<rparr>]"
    define ff where "ff = (g_fds fs)[nat fd := f\<lparr>fd_file_size := ?new\<rparr>]"
    define fs1 where "fs1 = fs\<lparr>g_dev := d, g_fds := ff, g_dir := dd\<rparr>"
    have il: "i < length (g_dir fs)" by (rule visible_lt [OF oe(1)])
    have dinv': "dir_inv limit dd"
      unfolding dd_def e_def by (rule dir_inv_resize [OF dinv oe(1)]) (use fit sm(2) sz(1) in simp)
    have fi: "fds_inv (g_dir fs) (g_fds fs)" using inv by (simp add: fs_inv_def)
    have "fds_inv dd ff"
      unfolding dd_def ff_def e_def f_def
      by (rule fds_inv_resize [OF fi fd(5,3,4) [unfolded f_def] il])
    then have inv1: "fs_inv limit fs1" using lim dinv' by (simp add: fs_inv_def fs1_def)
    have ons1: "on_storage disk cap fs1" using mnt by (simp add: mounted_def fs1_def)
    have dr1: "unat (g_partition_lba fs1) + 16 \<le> cap" using mounted_dir_room [OF mnt] by (simp add: fs1_def)
    have tag1: "stored (disk (g_dev fs1)) (part_base fs1 + 1024) 4 = bmfs_tag"
      using d(3) by (simp add: fs1_def)
    obtain d' where d': "dir_write fs1 = (0, fs1\<lparr>g_dev := d'\<rparr>)" "synced disk (fs1\<lparr>g_dev := d'\<rparr>)"
        "\<And>x. 1 \<le> unat (starting_block x) \<Longrightarrow> file_data disk (fs1\<lparr>g_dev := d'\<rparr>) x = file_data disk fs1 x"
      using dir_write_mounted [OF ons1 dr1 inv1 tag1] by blast
    let ?fs = "fs1\<lparr>g_dev := d'\<rparr>"
    have "fs_write fd (Some src) off sz fs = Some (int (length src), ?fs)"
      using ini fd szn sw sm(1) d(1) True oe sint d'(1)
      by (simp add: fs_write_def bad_fd_def BMFS_MAX_FILES_def Let_def f_def [symmetric]
          e_def [symmetric] fs1_def dd_def ff_def)
    moreover have "g_initialized fs1" "g_sector_buf fs1" "part_base fs1 = part_base fs" "1 \<le> limit"
        "part_base fs + limit * 2 ^ 21 \<le> 512 * cap"
      using mnt by (simp_all add: mounted_def fs1_def)
    then have "mounted disk cap limit ?fs" using inv1 ons1 d'(2) by (simp add: mounted_def)
    moreover have "files disk ?fs = (files disk fs)(nm \<mapsto> take (unat off) ?c @ src @
        drop (unat off + length src) ?c)"
    proof (rule files_resize [OF dinv oe(1) nm])
      show "dir_inv limit (g_dir ?fs)" using dinv' by (simp add: fs1_def)
      show "g_dir ?fs = (g_dir fs)[i := (g_dir fs ! i)\<lparr>file_size := ?new\<rparr>]"
        by (simp add: fs1_def dd_def e_def)
      show "file_data disk ?fs (g_dir fs ! j) = file_data disk fs (g_dir fs ! j)"
        if v: "visible (g_dir fs) j" "j \<noteq> i" for j
        using d'(3) [of "g_dir fs ! j"] same [OF v] v dinv
        by (simp add: dir_inv_def entry_ok_def file_data_def fs1_def)
      have "1 \<le> unat (starting_block e)" using oe(2) by (simp add: entry_ok_def)
      then have "file_data disk ?fs (e\<lparr>file_size := ?new\<rparr>) = file_data disk fs1 (e\<lparr>file_size := ?new\<rparr>)"
        by (intro d'(3)) simp
      also have "\<dots> = stored (disk d) (file_base fs e) (unat off + length src)"
        using sm(2) sz(1) by (simp add: file_data_def fs1_def file_base_def part_base_def)
      finally show "file_data disk ?fs ((g_dir fs ! i)\<lparr>file_size := ?new\<rparr>) =
          take (unat off) ?c @ src @ drop (unat off + length src) ?c"
        using mine True sm(2) sz(1) by (simp add: word_less_nat_alt max_absorb2 e_def)
    qed
    moreover have "open_on fd i ?fs" using fd by (simp add: open_on_def fs1_def ff_def)
    ultimately show ?thesis using that unfolding e_def by blast
  qed
qed

section \<open>Read and open\<close>

lemma same_disk:
  assumes "mounted disk cap limit fs" "disk d = disk (g_dev fs)"
  shows "mounted disk cap limit (fs\<lparr>g_dev := d\<rparr>)" "files disk (fs\<lparr>g_dev := d\<rparr>) = files disk fs"
proof -
  show "mounted disk cap limit (fs\<lparr>g_dev := d\<rparr>)" using assms by (simp add: mounted_def synced_def)
  show "files disk (fs\<lparr>g_dev := d\<rparr>) = files disk fs"
    by (rule ext) (simp add: files_def file_data_def assms(2) split: option.split)
qed

lemma stored_slice:
  "off \<le> m \<Longrightarrow> stored f (lo + off) (min n (m - off)) = take n (drop off (stored f lo m))"
  by (rule nth_equalityI) (auto simp: less_diff_conv ac_simps)

lemma fs_read_ok:
  assumes mnt: "mounted disk cap limit fs" and op: "open_on fd i fs"
    and off: "unat off < unat (file_size (g_dir fs ! i))" and sz: "0 < unat sz" "unat sz < 2 ^ 41"
  defines "c \<equiv> file_data disk fs (g_dir fs ! i)"
  obtains fs' where
    "fs_read fd True off sz fs =
       Some (int (length (take (unat sz) (drop (unat off) c))), take (unat sz) (drop (unat off) c), fs')"
    "mounted disk cap limit fs'" "files disk fs' = files disk fs" "\<exists>d. fs' = fs\<lparr>g_dev := d\<rparr>"
proof -
  define e where "e = g_dir fs ! i"
  define f where "f = g_fds fs ! nat fd"
  define n where "n = (if sz > file_size e - off then file_size e - off else sz)"
  have inv: "fs_inv limit fs" and lim: "limit \<le> 2 ^ 43" and ons: "on_storage disk cap fs"
    using mnt by (auto simp: mounted_def fs_inv_def)
  note oe = open_on_entry [OF inv op, folded e_def f_def]
  have lt: "off < file_size e" using off by (simp add: e_def word_less_nat_alt)
  have av: "unat (file_size e - off) = unat (file_size e) - unat off"
    using lt by (simp add: unat_sub word_le_nat_alt word_less_nat_alt)
  have n: "unat n = min (unat sz) (unat (file_size e) - unat off)"
    using av by (simp add: n_def word_less_nat_alt min_def)
  have szr: "unat (file_size e) \<le> unat (reserved_blocks e) * 2 ^ 21" using oe(2) by (simp add: entry_ok_def)
  have at: "unat (starting_block e * BMFS_BLOCK_SIZE + off) = unat (starting_block e) * 2 ^ 21 + unat off"
    using entry_words(2) [OF oe(2) lim, of off] off szr by (simp add: e_def)
  have "part_base fs + unat (starting_block e * BMFS_BLOCK_SIZE + off) + unat n \<le> 512 * cap"
    using file_end_le [OF mnt oe(1), folded e_def] szr off [folded e_def] n
    unfolding at file_base_def by (simp add: min_def split: if_splits)
  moreover have "unat n < 2 ^ 41" using n sz by simp
  ultimately obtain d where d: "fs_read_bytes (starting_block e * BMFS_BLOCK_SIZE + off) n fs =
      Some (0, stored (disk (g_dev fs)) (file_base fs e + unat off) (unat n), fs\<lparr>g_dev := d\<rparr>)"
      "disk d = disk (g_dev fs)"
    using fs_read_bytes_ok [OF ons] by (fastforce simp: at file_base_def add.assoc)
  have dat: "stored (disk (g_dev fs)) (file_base fs e + unat off) (unat n) = take (unat sz) (drop (unat off) c)"
    using stored_slice [of "unat off" "unat (file_size e)"] off
    unfolding n c_def file_data_def e_def by simp
  have len: "length (take (unat sz) (drop (unat off) c)) = unat n"
    unfolding dat [symmetric] by simp
  have sint: "sint n = int (unat n)" using n sz by (intro sint_small) simp
  have "\<not> fd_file_size f \<le> off" using lt oe(5) by simp
  then have "fs_read fd True off sz fs =
      Some (int (unat n), take (unat sz) (drop (unat off) c), fs\<lparr>g_dev := d\<rparr>)"
    using mnt op sz d(1) oe sint dat
    by (simp add: fs_read_def bad_fd_def BMFS_MAX_FILES_def Let_def f_def [symmetric] mounted_def
        open_on_def n_def [symmetric] unat_gt_0)
  then show ?thesis using that same_disk [OF mnt d(2)] len by metis
qed

lemma fs_open_ok:
  assumes mnt: "mounted disk cap limit fs" and nm: "valid_name nm" and old: "files disk fs nm \<noteq> None"
    and ret: "fs_open (Some nm) fs = (fd, fs')" "fd \<noteq> -1"
  obtains i where "open_on fd i fs'" "mounted disk cap limit fs'" "files disk fs' = files disk fs"
    "entry_name (g_dir fs' ! i) = nm" "files disk fs' nm = Some (file_data disk fs' (g_dir fs' ! i))"
proof -
  have inv: "fs_inv limit fs" and dinv: "dir_inv limit (g_dir fs)" and ini: "g_initialized fs"
    using mnt by (auto simp: mounted_def fs_inv_def)
  obtain i where i: "dir_find nm (g_dir fs) = Some i" using old files_None [OF dinv nm] by auto
  then have v: "visible (g_dir fs) i" "entry_name (g_dir fs ! i) = nm" using dir_find_iff [OF dinv nm] by auto
  note r = fs_open_result [OF inv i v(1) ret(1) ini]
  obtain ff where fs': "fs' = fs\<lparr>g_fds := ff\<rparr>" using r(4) by blast
  have "mounted disk cap limit fs'" using mnt r(1) by (simp add: mounted_def synced_def fs')
  moreover have fl: "files disk fs' = files disk fs"
    by (auto simp: files_def file_data_def fs' fun_eq_iff split: option.splits)
  moreover have "open_on fd i fs'" using r(3) [OF ret(2)] by (simp add: open_on_def)
  moreover have "files disk fs' nm = Some (file_data disk fs' (g_dir fs' ! i))"
    using i nm by (simp add: files_def fs')
  ultimately show ?thesis using that v(2) by (simp add: fs')
qed

section \<open>Mounting again\<close>

lemma fs_init_remount:
  assumes mnt: "mounted disk cap limit fs"
  obtains fs' where "fs_init (g_storage fs) dma_ok (g_partition_lba fs) fs = Some (0, fs')"
    "mounted disk cap limit fs'" "files disk fs' = files disk fs" "\<forall>f \<in> set (g_fds fs'). \<not> in_use f"
proof -
  obtain ops rd where ops: "g_storage fs = Some ops" "st_read ops = Some rd"
    using mnt by (auto simp: mounted_def on_storage_def storage_contract_def)
  define fs0 where "fs0 = fs\<lparr>g_fds := map (\<lambda>f. f\<lparr>in_use := False\<rparr>) (g_fds fs), g_initialized := False,
      g_partition_lba := g_partition_lba fs, g_storage := g_storage fs, g_sector_buf := True\<rparr>"
  have dr: "unat (g_partition_lba fs0) + 16 \<le> cap" using mounted_dir_room [OF mnt] by (simp add: fs0_def)
  have ons0: "on_storage disk cap fs0" using mnt by (simp add: mounted_def on_storage_def fs0_def)
  have pb0: "part_base fs0 = part_base fs" "g_dev fs0 = g_dev fs" "g_dir fs0 = g_dir fs"
    by (simp_all add: fs0_def part_base_def)
  have "part_base fs0 + unat BMFS_TAG_OFFSET + unat (4 :: u64) \<le> 512 * cap"
    using dr by (simp add: part_base_def BMFS_TAG_OFFSET_def)
  from fs_read_bytes_ok [OF ons0 this]
  obtain d where d: "fs_read_bytes BMFS_TAG_OFFSET 4 fs0 = Some (0, bmfs_tag, fs0\<lparr>g_dev := d\<rparr>)"
      "disk d = disk (g_dev fs)"
    using mnt by (auto simp: mounted_def synced_def pb0 BMFS_TAG_OFFSET_def)
  have ons1: "on_storage disk cap (fs0\<lparr>g_dev := d\<rparr>)" using ons0 by simp
  have wf: "dir_wf (g_dir fs)" using mnt by (simp add: mounted_def fs_inv_def dir_inv_def)
  from dir_read_ok [OF ons1] dr
  obtain d' where d': "dir_read (fs0\<lparr>g_dev := d\<rparr>) = (0, fs0\<lparr>g_dev := d', g_dir := g_dir fs\<rparr>)"
      "disk d' = disk (g_dev fs)"
    using mnt d(2) dir_of_bytes_of_dir [OF wf] by (auto simp: mounted_def synced_def pb0)
  let ?fs = "fs0\<lparr>g_dev := d', g_dir := g_dir fs, g_initialized := True\<rparr>"
  have ret: "fs_init (g_storage fs) dma_ok (g_partition_lba fs) fs = Some (0, ?fs)"
    using ops d(1) d'(1) mnt by (simp add: fs_init_def Let_def fs0_def mounted_def)
  have fi: "fds_inv (g_dir fs) (map (\<lambda>f. f\<lparr>in_use := False\<rparr>) (g_fds fs))"
    by (rule fds_inv_closed [of _ "g_fds fs"]) (use mnt in \<open>simp_all add: mounted_def fs_inv_def\<close>)
  have m: "mounted disk cap limit ?fs"
    using mnt fi d'(2) ons0
    by (simp add: mounted_def fs_inv_def synced_def on_storage_def fs0_def part_base_def)
  have "files disk ?fs = files disk fs"
    by (rule ext) (simp add: files_def file_data_def file_base_def part_base_def fs0_def d'(2)
        split: option.split)
  moreover have "\<forall>f \<in> set (g_fds ?fs). \<not> in_use f" by (auto simp: fs0_def)
  ultimately show ?thesis using that ret m by blast
qed

section \<open>Where the code loses or overwrites files\<close>

text \<open>
  A full directory has no end marker.  After a deletion the freed slot is found, no end
  marker is found behind it, and the entry next to it is turned into one.
\<close>

lemma ensure_end_hides:
  assumes "length d = 64" "\<forall>e \<in> set d. entry_wf e" "slot + 1 < 64"
    and "\<And>i. slot < i \<Longrightarrow> i < 64 \<Longrightarrow> first_byte (d ! i) \<noteq> BMFS_ENTRY_END" and "slot < j"
  shows "\<not> visible (ensure_end slot d) j"
proof -
  have "ensure_end slot d = d[slot + 1 := mark_first BMFS_ENTRY_END (d ! (slot + 1))]"
    using assms by (auto simp: ensure_end_def find_from_None BMFS_MAX_FILES_def)
  moreover have "first_byte (mark_first BMFS_ENTRY_END (d ! (slot + 1))) = BMFS_ENTRY_END"
    using assms by (intro first_byte_mark) simp
  ultimately show ?thesis using assms(1,3,5) by (auto simp: visible_def Suc_le_eq intro!: exI [of _ "slot + 1"])
qed

lemma fs_create_dir:
  assumes "g_initialized fs" "storage_writes fs" "valid_name nm" "nm ! 0 \<noteq> BMFS_ENTRY_DELETED"
    "dir_find nm (g_dir fs) = None" "dir_find_free (g_dir fs) = Some slot"
    "find_free_blocks (if r = 0 then 1 else r) (g_dir fs) \<noteq> 0"
  shows "g_dir (snd (fs_create (Some nm) r fs)) = ensure_end slot ((g_dir fs)[slot :=
    new_entry nm (find_free_blocks (if r = 0 then 1 else r) (g_dir fs)) (if r = 0 then 1 else r)])"
proof -
  define rr where "rr = (if r = 0 then 1 else r)"
  define fs1 where "fs1 = fs\<lparr>g_dir := ensure_end slot ((g_dir fs)[slot :=
    new_entry nm (find_free_blocks rr (g_dir fs)) rr])\<rparr>"
  have nz: "nm ! 0 \<noteq> BMFS_ENTRY_END" "nm \<noteq> []" "\<not> BMFS_MAX_FILENAME \<le> length nm"
    using assms(3) nth_mem [of 0 nm]
    by (auto simp: valid_name_def BMFS_MAX_FILENAME_def BMFS_ENTRY_END_def simp del: nth_mem)
  obtain rc fs2 where dw: "dir_write fs1 = (rc, fs2)" by (cases "dir_write fs1")
  have "snd (fs_create (Some nm) r fs) = snd (dir_write fs1)"
    unfolding fs_create_def Let_def rr_def [symmetric]
    using assms(1,2,4-6) assms(7) [folded rr_def] nz dw by (simp add: fs1_def [symmetric])
  moreover obtain d where "snd (dir_write fs1) = fs1\<lparr>g_dev := d\<rparr>"
    using dir_write_frame [of fs1] by blast
  ultimately show ?thesis by (simp add: fs1_def rr_def)
qed

text \<open>The bound check of the write operation adds in 64 bits: a huge offset passes it.\<close>

lemma wrapped_write_ok:
  assumes mnt: "mounted disk cap limit fs" and op: "open_on fd i fs"
    and old: "512 \<le> unat (file_size (g_dir fs ! i))" and src: "length src = 1024"
    and off: "unat off = 2 ^ 64 - 512" and sz: "unat sz = 1024"
  obtains fs' where "fs_write fd (Some src) off sz fs = Some (1024, fs')"
    "stored (disk (g_dev fs')) (file_base fs (g_dir fs ! i) - 512) 512 = take 512 src"
proof -
  define e where "e = g_dir fs ! i"
  define f where "f = g_fds fs ! nat fd"
  have inv: "fs_inv limit fs" and lim: "limit \<le> 2 ^ 43" and ons: "on_storage disk cap fs"
    using mnt by (auto simp: mounted_def fs_inv_def)
  note oe = open_on_entry [OF inv op, folded e_def f_def]
  have old': "512 \<le> unat (file_size e)" using old by (simp add: e_def)
  have "unat (file_size e) \<le> unat (reserved_blocks e) * 2 ^ 21" using oe(2) by (simp add: entry_ok_def)
  then have res: "1 \<le> unat (reserved_blocks e)" using old' by (cases "unat (reserved_blocks e)") auto
  have s: "1 \<le> unat (starting_block e)" "unat (starting_block e) + 1 \<le> 2 ^ 43"
    using oe(2) res lim by (auto simp: entry_ok_def)
  have bs: "unat BMFS_BLOCK_SIZE = 2 ^ 21" by (simp add: BMFS_BLOCK_SIZE_def)
  have sb: "unat (starting_block e * BMFS_BLOCK_SIZE) = unat (starting_block e) * 2 ^ 21"
    using s by (simp only: unat_word_ariths bs) simp
  have at: "unat (starting_block e * BMFS_BLOCK_SIZE + off) = unat (starting_block e) * 2 ^ 21 - 512"
  proof -
    have "unat (starting_block e * BMFS_BLOCK_SIZE + off) =
        (unat (starting_block e) * 2 ^ 21 + (2 ^ 64 - 512)) mod 2 ^ 64"
      by (simp only: unat_word_ariths(1) sb off) simp
    also have "unat (starting_block e) * 2 ^ 21 + (2 ^ 64 - 512) = (unat (starting_block e) * 2 ^ 21 - 512) + 2 ^ 64"
      using s(1) by simp
    also have "\<dots> mod 2 ^ 64 = (unat (starting_block e) * 2 ^ 21 - 512) mod 2 ^ 64"
      by (rule mod_add_self2)
    also have "\<dots> = unat (starting_block e) * 2 ^ 21 - 512"
      using s(2) by (intro mod_less) simp
    finally show ?thesis .
  qed
  have fb: "file_base fs e - 512 = part_base fs + (unat (starting_block e) * 2 ^ 21 - 512)"
    "512 \<le> unat (starting_block e) * 2 ^ 21"
    using s(1) by (simp_all add: file_base_def)
  have r21: "1 * 2 ^ 21 \<le> unat (reserved_blocks e) * (2 ^ 21 :: nat)" using res by simp
  have fit: "part_base fs + unat (starting_block e * BMFS_BLOCK_SIZE + off) + unat sz \<le> 512 * cap"
    using file_end_le [OF mnt oe(1), folded e_def] r21 fb(2) sz unfolding at file_base_def by simp
  obtain d where d: "fs_write_bytes src (starting_block e * BMFS_BLOCK_SIZE + off) sz fs = Some (0, fs\<lparr>g_dev := d\<rparr>)"
      "disk d = written (file_base fs e - 512) src (disk (g_dev fs))"
    using fs_write_bytes_ok [OF ons fit, of src] src sz unfolding at fb(1) by auto
  have st: "stored (disk d) (file_base fs e - 512) 512 = take 512 src"
    unfolding d(2) by (rule nth_equalityI) (simp_all add: written_def src)
  have mx: "unat (reserved_blocks e * BMFS_BLOCK_SIZE) = unat (reserved_blocks e) * 2 ^ 21"
    using entry_words(1) [OF oe(2) lim] by simp
  have sum: "unat (off + sz) = 512" by (simp only: unat_word_ariths(1) off sz) simp
  have ok: "\<not> off + sz > reserved_blocks e * BMFS_BLOCK_SIZE" "\<not> off + sz > file_size e"
    using mx r21 sum old' by (simp_all add: word_less_nat_alt)
  have "sz \<noteq> 0" using sz by auto
  moreover have "sint sz = 1024" using sint_small [of sz] sz by simp
  ultimately have "fs_write fd (Some src) off sz fs = Some (1024, fs\<lparr>g_dev := d\<rparr>)"
    using mnt op mounted_storage_writes [OF mnt] ok d(1) oe
    by (simp add: fs_write_def bad_fd_def BMFS_MAX_FILES_def Let_def f_def [symmetric] mounted_def
        open_on_def)
  then show ?thesis using that st by (simp add: e_def)
qed

end
