(* ===== verification/Bmfs_Props.thy ===== *)
theory Bmfs_Props
  imports Bmfs_Store
begin

text \<open>
  The properties of the BMFS filesystem, and a mounted example volume on a memory-backed
  storage device on which they are instantiated.
\<close>

section \<open>An example volume\<close>

definition ram_ops :: "(nat \<Rightarrow> u8) storage_ops" where
  "ram_ops = \<lparr>
     st_read = Some (\<lambda>d lba n. (1, stored d (512 * unat lba) (512 * unat n), d)),
     st_write = Some (\<lambda>buf lba n d. (1, written (512 * unat lba) buf d))\<rparr>"

definition blank_entry :: bmfs_entry where
  "blank_entry = \<lparr>filename = replicate 32 0, starting_block = 0, reserved_blocks = 0,
     file_size = 0, unused = 0\<rparr>"

definition closed_fd :: fs_fd where
  "closed_fd = \<lparr>in_use = False, dir_index = 0, fd_starting_block = 0, fd_reserved_blocks = 0,
     fd_file_size = 0, fd_filename = replicate 32 0\<rparr>"

text \<open>One file \<^verbatim>\<open>A\<close> of 600 zero bytes in block 1, opened as descriptor 0.\<close>

definition demo_entry :: bmfs_entry where
  "demo_entry = (new_entry [65] 1 1)\<lparr>file_size := 600\<rparr>"

definition demo_dir :: dir where
  "demo_dir = demo_entry # replicate 63 blank_entry"

definition demo_disk :: "nat \<Rightarrow> u8" where
  "demo_disk = written 1024 bmfs_tag (written 4096 (bytes_of_dir demo_dir) (\<lambda>_. 0))"

definition demo_fs :: "(nat \<Rightarrow> u8) fs" where
  "demo_fs = \<lparr>g_dir = demo_dir, g_fds = open_fd 0 demo_entry # replicate 63 closed_fd,
     g_partition_lba = 0, g_storage = Some ram_ops, g_initialized = True, g_sector_buf = True,
     g_dev = demo_disk\<rparr>"

lemma demo_fs_simps [simp]:
  "g_dir demo_fs = demo_dir" "g_fds demo_fs = open_fd 0 demo_entry # replicate 63 closed_fd"
  "g_partition_lba demo_fs = 0" "g_storage demo_fs = Some ram_ops" "g_initialized demo_fs"
  "g_sector_buf demo_fs" "g_dev demo_fs = demo_disk"
  by (simp_all add: demo_fs_def)

definition ram_disk :: "(nat \<Rightarrow> u8) \<Rightarrow> nat \<Rightarrow> u8" where
  "ram_disk d = d"

lemma ram_ops_read: "st_read ram_ops = Some (\<lambda>d lba n. (1, stored d (512 * unat lba) (512 * unat n), d))"
  unfolding ram_ops_def storage_ops.simps by (rule refl)

lemma ram_ops_write: "st_write ram_ops = Some (\<lambda>buf lba n d. (1, written (512 * unat lba) buf d))"
  unfolding ram_ops_def storage_ops.simps by (rule refl)

lemma ram_contract: "storage_contract ram_disk cap ram_ops"
  by (simp add: storage_contract_def ram_ops_def ram_disk_def)

lemma demo_first:
  "i < 64 \<Longrightarrow> first_byte (demo_dir ! i) = (if i = 0 then 65 else BMFS_ENTRY_END)"
  by (cases i) (simp_all add: demo_dir_def first_byte_def demo_entry_def new_entry_def
      blank_entry_def BMFS_MAX_FILENAME_def BMFS_ENTRY_END_def del: upt_Suc)

lemma demo_entry_wf: "entry_wf demo_entry" "entry_wf blank_entry"
  by (simp_all add: entry_wf_def demo_entry_def new_entry_def blank_entry_def BMFS_MAX_FILENAME_def)

lemma demo_wf: "dir_wf demo_dir"
  using demo_entry_wf by (auto simp: dir_wf_def demo_dir_def BMFS_MAX_FILES_def)

lemma demo_tail: "tail_clear demo_dir"
  using demo_wf by (auto simp: tail_clear_def dir_wf_def BMFS_MAX_FILES_def demo_first BMFS_ENTRY_END_def
      split: if_splits)

lemma demo_visible: "visible demo_dir i \<longleftrightarrow> i = 0"
  using demo_wf demo_first [of i]
  by (auto simp: visible_iff [OF demo_tail] dir_wf_def BMFS_defs split: if_splits)

lemma demo_name: "entry_name demo_entry = [65]"
proof -
  have "entry_name demo_entry = entry_name (new_entry [65] 1 1)"
    by (simp add: demo_entry_def entry_name_def)
  then show ?thesis using entry_name_new_entry [of "[65]" 1 1] by (simp add: valid_name_def)
qed

lemma demo_0 [simp]: "demo_dir ! 0 = demo_entry"
  by (simp add: demo_dir_def)

lemma demo_inv: "fs_inv 8 demo_fs"
proof -
  have "dir_inv 8 demo_dir"
    using demo_wf demo_tail
    by (auto simp: dir_inv_def demo_visible entry_ok_def) (simp_all add: demo_entry_def new_entry_def)
  moreover have "fd_ok demo_dir (open_fd 0 demo_entry)"
    by (simp add: fd_ok_def open_fd_def demo_visible)
  ultimately show ?thesis
    by (auto simp: fs_inv_def fds_inv_def BMFS_MAX_FILES_def nth_Cons closed_fd_def
        split: nat.splits)
qed

lemma demo_mounted: "mounted ram_disk 100000 8 demo_fs"
proof -
  have len: "length (bytes_of_dir demo_dir) = 4096" by (rule length_bytes_of_dir [OF demo_wf])
  have "stored demo_disk 4096 4096 = bytes_of_dir demo_dir"
    unfolding demo_disk_def
    using stored_written_same [of 4096 "bytes_of_dir demo_dir"] len
    by (subst stored_written_other) (simp_all add: bmfs_tag_def)
  moreover have "stored demo_disk 1024 4 = bmfs_tag"
    unfolding demo_disk_def using stored_written_same [of 1024 bmfs_tag]
    by (simp add: bmfs_tag_def numeral_eq_Suc)
  ultimately have "synced ram_disk demo_fs"
    by (simp add: synced_def part_base_def ram_disk_def)
  then show ?thesis
    using demo_inv ram_contract [of 100000] by (simp add: mounted_def on_storage_def part_base_def)
qed

lemma demo_open: "open_on 0 0 demo_fs"
  by (simp add: open_on_def open_fd_def)

lemma demo_fields: "reserved_blocks demo_entry = 1" "file_size demo_entry = 600" "starting_block demo_entry = 1"
  by (simp_all add: demo_entry_def new_entry_def)

lemma demo_find: "dir_find [65] demo_dir = Some 0" "dir_find [66] demo_dir = None"
proof -
  have inv: "dir_inv 8 demo_dir" using demo_inv by (simp add: fs_inv_def)
  show "dir_find [65] demo_dir = Some 0"
    using dir_find_iff [OF inv, of "[65]" 0] by (simp add: demo_visible demo_name valid_name_def)
  show "dir_find [66] demo_dir = None"
    using dir_find_None_iff [OF inv, of "[66]"] by (simp add: demo_visible demo_name valid_name_def)
qed

lemma demo_names: "valid_name [65]" "valid_name [66]"
  by (simp_all add: valid_name_def)

lemma demo_files: "files ram_disk demo_fs [65] \<noteq> None" "files ram_disk demo_fs [66] = None"
  by (simp_all add: files_def demo_find demo_names)

lemma demo_free: "dir_find_free demo_dir = Some 1" "\<not> dir_full demo_dir"
proof -
  have [simp]: "length demo_dir = 64" by (simp add: demo_dir_def)
  show "dir_find_free demo_dir = Some 1"
    using demo_first [of 0] by (simp add: dir_find_free_eq find_from_Some demo_first BMFS_defs)
  show "\<not> dir_full demo_dir" by (auto simp: dir_full_def demo_first intro: exI [of _ 1])
qed

lemma demo_room: "room 8 1 demo_dir"
  by (simp add: room_def demo_visible demo_fields)

section \<open>Properties\<close>

text \<open>
  C7. Creating a file with a fresh valid name refines adding an empty file to the store: on a
  mounted volume with a free slot, an end marker and room below the block limit it succeeds,
  keeps the volume mounted (directory, descriptors and on-disk directory consistent, block
  areas disjoint), and changes the contents of no other file.
\<close>

theorem fs_create_refines:
  assumes "mounted disk cap limit fs" "valid_name nm" "nm ! 0 \<noteq> BMFS_ENTRY_DELETED"
    "files disk fs nm = None" "dir_find_free (g_dir fs) \<noteq> None" "\<not> dir_full (g_dir fs)"
    "room limit (if r = 0 then 1 else r) (g_dir fs)"
  shows "\<exists>fs'. fs_create (Some nm) r fs = (0, fs') \<and> mounted disk cap limit fs' \<and>
    files disk fs' = (files disk fs)(nm \<mapsto> [])"
  using fs_create_ok [OF assms] by blast

theorem fs_create_refines_witness:
  "\<exists>fs'. fs_create (Some [66]) 1 demo_fs = (0, fs') \<and> mounted ram_disk 100000 8 fs' \<and>
    files ram_disk fs' = (files ram_disk demo_fs)([66] \<mapsto> [])"
  by (rule fs_create_refines)
    (simp_all add: demo_mounted demo_names demo_files demo_free demo_room BMFS_ENTRY_DELETED_def)

text \<open>
  C2. Deleting an existing file refines removing it from the store and keeps every other file.
\<close>

theorem fs_delete_refines:
  assumes "mounted disk cap limit fs" "valid_name nm" "files disk fs nm \<noteq> None"
  shows "\<exists>fs'. fs_delete (Some nm) fs = (0, fs') \<and> mounted disk cap limit fs' \<and>
    files disk fs' = (files disk fs)(nm := None)"
  using fs_delete_ok [OF assms] by blast

theorem fs_delete_refines_witness:
  "\<exists>fs'. fs_delete (Some [65]) demo_fs = (0, fs') \<and> mounted ram_disk 100000 8 fs' \<and>
    files ram_disk fs' = (files ram_disk demo_fs)([65] := None)"
  using fs_delete_refines [OF demo_mounted demo_names(1) demo_files(1)] .

text \<open>
  C6. Writing at an offset inside an open file, within its reserved area, refines overwriting
  that range of its contents (growing the file when the range ends past it); all other files,
  the volume tag and the directory stay as they are.
\<close>

theorem fs_write_refines:
  assumes "mounted disk cap limit fs" "open_on fd i fs"
    "entry_name (g_dir fs ! i) = nm" "valid_name nm"
    "unat off + length src \<le> unat (reserved_blocks (g_dir fs ! i)) * 2 ^ 21"
    "unat off \<le> unat (file_size (g_dir fs ! i))"
    "unat sz = length src" "0 < length src" "length src < 2 ^ 41"
  shows "\<exists>fs'. fs_write fd (Some src) off sz fs = Some (int (length src), fs') \<and>
    mounted disk cap limit fs' \<and> open_on fd i fs' \<and>
    files disk fs' = (files disk fs)(nm \<mapsto> take (unat off) (file_data disk fs (g_dir fs ! i)) @ src @
       drop (unat off + length src) (file_data disk fs (g_dir fs ! i)))"
  using fs_write_ok [OF assms] by blast

theorem fs_write_refines_witness:
  "\<exists>fs'. fs_write 0 (Some [1, 2, 3]) 599 3 demo_fs = Some (3, fs') \<and> mounted ram_disk 100000 8 fs'"
  using fs_write_refines [OF demo_mounted demo_open, of "[65]" 599 "[1, 2, 3]" 3]
  by (simp add: demo_name demo_names demo_fields) blast

text \<open>
  C8. Reading inside an open file returns exactly the requested part of its contents, cut off at
  the end of the file, and changes nothing.
\<close>

theorem fs_read_refines:
  assumes "mounted disk cap limit fs" "open_on fd i fs"
    "unat off < unat (file_size (g_dir fs ! i))" "0 < unat sz" "unat sz < 2 ^ 41"
  shows "\<exists>fs' out. fs_read fd True off sz fs = Some (int (length out), out, fs') \<and>
    out = take (unat sz) (drop (unat off) (file_data disk fs (g_dir fs ! i))) \<and>
    mounted disk cap limit fs' \<and> files disk fs' = files disk fs"
  using fs_read_ok [OF assms] by blast

theorem fs_read_refines_witness:
  "\<exists>fs' out. fs_read 0 True 590 100 demo_fs = Some (int (length out), out, fs') \<and> length out = 10"
proof -
  obtain fs' out where "fs_read 0 True 590 100 demo_fs = Some (int (length out), out, fs')"
      "out = take 100 (drop 590 (file_data ram_disk demo_fs demo_entry))"
    using fs_read_refines [OF demo_mounted demo_open, of 590 100] by (auto simp: demo_fields)
  then show ?thesis by (intro exI [of _ fs'] exI [of _ out]) (simp add: file_data_def demo_fields)
qed

text \<open>
  Runs of the filesystem: a sequence of calls, each made where the property of that call applies, beside what the calls
  should do to a store of named byte strings. The store is tracked on its own; no rule looks at the disk.
\<close>

inductive fs_run :: "nat \<Rightarrow> 'd fs \<Rightarrow> (bytes \<Rightarrow> bytes option) \<Rightarrow> 'd fs \<Rightarrow> (bytes \<Rightarrow> bytes option) \<Rightarrow> bool"
  for limit fs0 m0 where
  run_start: "fs_run limit fs0 m0 fs0 m0"
| run_create: "fs_run limit fs0 m0 fs m \<Longrightarrow> valid_name nm \<Longrightarrow> nm ! 0 \<noteq> BMFS_ENTRY_DELETED \<Longrightarrow> m nm = None \<Longrightarrow>
    dir_find_free (g_dir fs) \<noteq> None \<Longrightarrow> \<not> dir_full (g_dir fs) \<Longrightarrow> room limit (if r = 0 then 1 else r) (g_dir fs) \<Longrightarrow>
    fs_create (Some nm) r fs = (rc, fs') \<Longrightarrow> fs_run limit fs0 m0 fs' (m(nm \<mapsto> []))"
| run_delete: "fs_run limit fs0 m0 fs m \<Longrightarrow> valid_name nm \<Longrightarrow> m nm \<noteq> None \<Longrightarrow> fs_delete (Some nm) fs = (rc, fs') \<Longrightarrow>
    fs_run limit fs0 m0 fs' (m(nm := None))"
| run_open: "fs_run limit fs0 m0 fs m \<Longrightarrow> valid_name nm \<Longrightarrow> m nm \<noteq> None \<Longrightarrow> fs_open (Some nm) fs = (fd, fs') \<Longrightarrow> fd \<noteq> -1 \<Longrightarrow>
    fs_run limit fs0 m0 fs' m"
| run_close: "fs_run limit fs0 m0 fs m \<Longrightarrow> fs_run limit fs0 m0 (fs_close fd fs) m"
| run_write: "fs_run limit fs0 m0 fs m \<Longrightarrow> open_on fd i fs \<Longrightarrow> entry_name (g_dir fs ! i) = nm \<Longrightarrow> m nm = Some c \<Longrightarrow>
    valid_name nm \<Longrightarrow> unat off + length src \<le> unat (reserved_blocks (g_dir fs ! i)) * 2 ^ 21 \<Longrightarrow> unat off \<le> length c \<Longrightarrow>
    unat sz = length src \<Longrightarrow> 0 < length src \<Longrightarrow> length src < 2 ^ 41 \<Longrightarrow> fs_write fd (Some src) off sz fs = Some (n, fs') \<Longrightarrow>
    fs_run limit fs0 m0 fs' (m(nm \<mapsto> take (unat off) c @ src @ drop (unat off + length src) c))"
| run_read: "fs_run limit fs0 m0 fs m \<Longrightarrow> open_on fd i fs \<Longrightarrow> unat off < unat (file_size (g_dir fs ! i)) \<Longrightarrow> 0 < unat sz \<Longrightarrow>
    unat sz < 2 ^ 41 \<Longrightarrow> fs_read fd True off sz fs = Some (n, out, fs') \<Longrightarrow> fs_run limit fs0 m0 fs' m"
| run_mount: "fs_run limit fs0 m0 fs m \<Longrightarrow> fs_init (g_storage fs) dma_ok (g_partition_lba fs) fs = Some (rc, fs') \<Longrightarrow>
    fs_run limit fs0 m0 fs' m"

lemma fs_close_files:
  "mounted disk cap limit fs \<Longrightarrow> mounted disk cap limit (fs_close fd fs) \<and> files disk (fs_close fd fs) = files disk fs"
  using fs_close_inv [of limit fs fd]
  by (auto simp: mounted_def fs_close_def synced_def on_storage_def part_base_def files_def file_data_def file_base_def
      fun_eq_iff split: option.splits)

lemma fs_run_refines:
  assumes "fs_run limit fs0 m0 fs m" "mounted disk cap limit fs0" "m0 = files disk fs0"
  shows "mounted disk cap limit fs \<and> m = files disk fs"
  using assms(1)
proof (induction rule: fs_run.induct)
  case run_start
  show ?case using assms(2,3) by simp
next
  case (run_create fs m nm r rc fs')
  then show ?case using fs_create_ok [of disk cap limit fs nm r] by (metis prod.inject)
next
  case (run_delete fs m nm rc fs')
  then show ?case using fs_delete_ok [of disk cap limit fs nm] by (metis prod.inject)
next
  case (run_open fs m nm fd fs')
  then show ?case using fs_open_ok [of disk cap limit fs nm fd fs'] by metis
next
  case (run_close fs m fd)
  then show ?case using fs_close_files by metis
next
  case (run_write fs m fd i nm c off src sz n fs')
  have mnt: "mounted disk cap limit fs" and m: "m = files disk fs" using run_write.IH by simp_all
  have inv: "fs_inv limit fs" using mnt by (simp add: mounted_def)
  then have dinv: "dir_inv limit (g_dir fs)" by (simp add: fs_inv_def)
  have "files disk fs nm = Some (file_data disk fs (g_dir fs ! i))"
    using files_visible [OF dinv open_on_entry(1) [OF inv run_write.hyps(2)]] run_write.hyps(3,5) by simp
  then have c: "c = file_data disk fs (g_dir fs ! i)" using run_write.hyps(4) m by simp
  have "unat off \<le> unat (file_size (g_dir fs ! i))" using run_write.hyps(7) by (simp add: c file_data_def)
  from fs_write_ok [OF mnt run_write.hyps(2,3,5,6) this run_write.hyps(8-10)] show ?case
    using run_write.hyps(11) m c by (metis option.inject prod.inject)
next
  case (run_read fs m fd i off sz n out fs')
  then have mnt: "mounted disk cap limit fs" and m: "m = files disk fs" by simp_all
  from fs_read_ok [OF mnt run_read.hyps(2-5)] show ?case
    using run_read.hyps(6) m by (metis option.inject prod.inject)
next
  case (run_mount fs m dma_ok rc fs')
  then show ?case using fs_init_remount [of disk cap limit fs dma_ok] by (metis option.inject prod.inject)
qed

text \<open>
  C9. Nothing lives in memory only. After any run of creations, deletions, openings, closings, reads, writes and
  remounts on a mounted volume, each made where its own property applies, mounting the volume again succeeds, closes
  every descriptor, and the files read from the disk are exactly those the run should have left: the store obtained from
  the initial files by adding, removing and splicing named byte strings, call by call.
\<close>

theorem fs_remount_keeps_files:
  assumes "mounted disk cap limit fs" "fs_run limit fs (files disk fs) fs1 m"
  shows "\<exists>fs'. fs_init (g_storage fs1) dma_ok (g_partition_lba fs1) fs1 = Some (0, fs') \<and>
    mounted disk cap limit fs' \<and> files disk fs' = m \<and> (\<forall>f \<in> set (g_fds fs'). \<not> in_use f)"
  using fs_run_refines [OF assms(2,1) refl] fs_init_remount [of disk cap limit fs1 dma_ok] by metis

text \<open>A file is created and the one that was there is deleted.\<close>

theorem fs_remount_keeps_files_witness:
  "\<exists>fs1 fs'. fs_init (g_storage fs1) True (g_partition_lba fs1) fs1 = Some (0, fs') \<and>
    mounted ram_disk 100000 8 fs' \<and> files ram_disk fs' = (files ram_disk demo_fs)([66] \<mapsto> [], [65] := None)"
proof -
  obtain rc fs1 where c: "fs_create (Some [66]) 1 demo_fs = (rc, fs1)" by (cases "fs_create (Some [66]) 1 demo_fs")
  have a: "fs_run 8 demo_fs (files ram_disk demo_fs) fs1 ((files ram_disk demo_fs)([66] \<mapsto> []))"
    by (rule run_create [OF run_start, where r = 1 and rc = rc])
      (use c in \<open>simp_all add: demo_names demo_files demo_free demo_room BMFS_ENTRY_DELETED_def\<close>)
  obtain rc2 fs2 where d: "fs_delete (Some [65]) fs1 = (rc2, fs2)" by (cases "fs_delete (Some [65]) fs1")
  have "fs_run 8 demo_fs (files ram_disk demo_fs) fs2 ((files ram_disk demo_fs)([66] \<mapsto> [], [65] := None))"
    by (rule run_delete [OF a demo_names(1) _ d]) (simp add: demo_files)
  from fs_remount_keeps_files [OF demo_mounted this, of True] show ?thesis by blast
qed

text \<open>
  The block allocator: when every allocated area and the request fit below the limit, the
  returned blocks start at 1 or later, end below the limit and are free of every visible file.
\<close>

theorem find_free_blocks_disjoint:
  assumes "limit < 2 ^ 64" "room limit needed d" "visible d i"
  shows "1 \<le> unat (find_free_blocks needed d) \<and>
    unat (find_free_blocks needed d) + unat needed \<le> limit \<and>
    blocks (find_free_blocks needed d) needed \<inter>
    blocks (starting_block (d ! i)) (reserved_blocks (d ! i)) = {}"
  using find_free_blocks_free [of limit d needed] assms by (auto simp: room_def)

theorem find_free_blocks_disjoint_witness:
  "blocks (find_free_blocks 1 demo_dir) 1 \<inter> blocks 1 1 = {}"
  using find_free_blocks_disjoint [of 8 1 demo_dir 0] by (simp add: demo_room demo_visible demo_fields)

text \<open>
  C37. In a directory without an end marker (64 entries in use or deleted), creating a file in the
  slot of a deleted one turns the entry after that slot into the end marker: every file stored
  behind the slot can no longer be found.
\<close>

theorem create_in_full_directory_loses_files:
  assumes "g_initialized fs" "storage_writes fs" "dir_wf (g_dir fs)" "dir_full (g_dir fs)"
    "valid_name nm" "nm ! 0 \<noteq> BMFS_ENTRY_DELETED" "dir_find nm (g_dir fs) = None"
    "dir_find_free (g_dir fs) = Some slot" "slot < 63"
    "find_free_blocks (if r = 0 then 1 else r) (g_dir fs) \<noteq> 0" "slot < j"
  shows "\<not> visible (g_dir (snd (fs_create (Some nm) r fs))) j"
proof -
  let ?e = "new_entry nm (find_free_blocks (if r = 0 then 1 else r) (g_dir fs)) (if r = 0 then 1 else r)"
  have "\<not> visible (ensure_end slot ((g_dir fs)[slot := ?e])) j"
  proof (rule ensure_end_hides)
    show "length ((g_dir fs)[slot := ?e]) = 64" "\<forall>e \<in> set ((g_dir fs)[slot := ?e]). entry_wf e"
      using dir_wf_update [OF assms(3), of ?e slot] by (simp_all add: dir_wf_def BMFS_MAX_FILES_def)
    show "first_byte ((g_dir fs)[slot := ?e] ! i) \<noteq> BMFS_ENTRY_END" if "slot < i" "i < 64" for i
      using that assms(3,4) by (simp add: dir_full_def dir_wf_def BMFS_MAX_FILES_def)
  qed (use assms in simp_all)
  then show ?thesis using fs_create_dir [OF assms(1,2,5-8,10)] by simp
qed

definition full_dir :: dir where
  "full_dir = (map (\<lambda>i. new_entry [word_of_nat (i + 65)] (word_of_nat (i + 1)) 1) [0..<64])
     [0 := mark_first BMFS_ENTRY_DELETED (new_entry [65] 1 1)]"

theorem create_in_full_directory_loses_files_witness:
  "visible full_dir 5 \<and>
   \<not> visible (g_dir (snd (fs_create (Some [200]) 1 (demo_fs\<lparr>g_dir := full_dir\<rparr>)))) 5"
proof
  have fb: "\<forall>i < 64. first_byte (full_dir ! i) \<noteq> BMFS_ENTRY_END \<and>
      (first_byte (full_dir ! i) = BMFS_ENTRY_DELETED \<longleftrightarrow> i = 0)" by code_simp
  have len: "length full_dir = 64" by (simp add: full_dir_def)
  show "visible full_dir 5" using fb len by (auto simp: visible_def)
  have "dir_wf full_dir" by (simp add: dir_wf_def full_dir_def BMFS_MAX_FILES_def) code_simp
  moreover have "dir_full full_dir" using fb len by (simp add: dir_full_def)
  moreover have "dir_find [200] full_dir = None" "dir_find_free full_dir = Some 0"
      "find_free_blocks 1 full_dir \<noteq> 0" by code_simp+
  ultimately show "\<not> visible (g_dir (snd (fs_create (Some [200]) 1 (demo_fs\<lparr>g_dir := full_dir\<rparr>)))) 5"
    using mounted_storage_writes [OF demo_mounted]
    by (intro create_in_full_directory_loses_files [where slot = 0])
      (simp_all add: valid_name_def BMFS_ENTRY_DELETED_def storage_writes_def)
qed

text \<open>
  The bound check of a write adds offset and size in 64 bits and wraps: a write at offset
  2^64 - 512 of 1024 bytes to a file of at least 512 bytes is accepted and overwrites the 512
  bytes in front of the file's area, which belong to another file or to the metadata.
\<close>

theorem wrapped_write_escapes:
  assumes "mounted disk cap limit fs" "open_on fd i fs" "512 \<le> unat (file_size (g_dir fs ! i))"
    "length src = 1024" "unat off = 2 ^ 64 - 512" "unat sz = 1024"
  shows "\<exists>fs'. fs_write fd (Some src) off sz fs = Some (1024, fs') \<and>
    stored (disk (g_dev fs')) (file_base fs (g_dir fs ! i) - 512) 512 = take 512 src"
  using wrapped_write_ok [OF assms] by blast

theorem wrapped_write_escapes_witness:
  "\<exists>fs'. fs_write 0 (Some (replicate 1024 7)) 0xFFFFFFFFFFFFFE00 1024 demo_fs = Some (1024, fs') \<and>
    stored (ram_disk (g_dev fs')) (file_base demo_fs demo_entry - 512) 512 = replicate 512 7"
  using wrapped_write_escapes [OF demo_mounted demo_open, of "replicate 1024 7" "0xFFFFFFFFFFFFFE00" 1024]
  by (simp add: demo_fields)

end
