(* ===== verification/Sha512.thy ===== *)
theory Sha512
  imports Prelude
begin

text \<open>
  The SHA-512 implementation of \<^verbatim>\<open>store/verify.c\<close>: the compression function, the
  streaming context with its 128-byte buffer, and the one-call hash.  The reference is the
  hash of FIPS 180-4: the message is padded to whole blocks and the compression function is
  folded over them.  The update loop does not end when the buffer is already full, which is
  the result \<open>None\<close>; the contexts the code builds are never in that state.
\<close>

section \<open>Compression function\<close>

definition sha512_k :: "u64 list" where
  "sha512_k = [
    0x428A2F98D728AE22, 0x7137449123EF65CD, 0xB5C0FBCFEC4D3B2F,
    0xE9B5DBA58189DBBC, 0x3956C25BF348B538, 0x59F111F1B605D019,
    0x923F82A4AF194F9B, 0xAB1C5ED5DA6D8118, 0xD807AA98A3030242,
    0x12835B0145706FBE, 0x243185BE4EE4B28C, 0x550C7DC3D5FFB4E2,
    0x72BE5D74F27B896F, 0x80DEB1FE3B1696B1, 0x9BDC06A725C71235,
    0xC19BF174CF692694, 0xE49B69C19EF14AD2, 0xEFBE4786384F25E3,
    0x0FC19DC68B8CD5B5, 0x240CA1CC77AC9C65, 0x2DE92C6F592B0275,
    0x4A7484AA6EA6E483, 0x5CB0A9DCBD41FBD4, 0x76F988DA831153B5,
    0x983E5152EE66DFAB, 0xA831C66D2DB43210, 0xB00327C898FB213F,
    0xBF597FC7BEEF0EE4, 0xC6E00BF33DA88FC2, 0xD5A79147930AA725,
    0x06CA6351E003826F, 0x142929670A0E6E70, 0x27B70A8546D22FFC,
    0x2E1B21385C26C926, 0x4D2C6DFC5AC42AED, 0x53380D139D95B3DF,
    0x650A73548BAF63DE, 0x766A0ABB3C77B2A8, 0x81C2C92E47EDAEE6,
    0x92722C851482353B, 0xA2BFE8A14CF10364, 0xA81A664BBC423001,
    0xC24B8B70D0F89791, 0xC76C51A30654BE30, 0xD192E819D6EF5218,
    0xD69906245565A910, 0xF40E35855771202A, 0x106AA07032BBD1B8,
    0x19A4C116B8D2D0C8, 0x1E376C085141AB53, 0x2748774CDF8EEB99,
    0x34B0BCB5E19B48A8, 0x391C0CB3C5C95A63, 0x4ED8AA4AE3418ACB,
    0x5B9CCA4F7763E373, 0x682E6FF3D6B2B8A3, 0x748F82EE5DEFB2FC,
    0x78A5636F43172F60, 0x84C87814A1F0AB72, 0x8CC702081A6439EC,
    0x90BEFFFA23631E28, 0xA4506CEBDE82BDE9, 0xBEF9A3F7B2C67915,
    0xC67178F2E372532B, 0xCA273ECEEA26619C, 0xD186B8C721C0C207,
    0xEADA7DD6CDE0EB1E, 0xF57D4F7FEE6ED178, 0x06F067AA72176FBA,
    0x0A637DC5A2C898A6, 0x113F9804BEF90DAE, 0x1B710B35131C471B,
    0x28DB77F523047D84, 0x32CAAB7B40C72493, 0x3C9EBE0A15C9BEBC,
    0x431D67C49C100D4C, 0x4CC5D4BECB3E42B6, 0x597F299CFC657E2A,
    0x5FCB6FAB3AD6FAEC, 0x6C44198C4A475817]"

definition rotr64 :: "u64 \<Rightarrow> nat \<Rightarrow> u64" where
  "rotr64 x n = (drop_bit n x) OR (push_bit (64 - n) x)"

definition block_word :: "bytes \<Rightarrow> nat \<Rightarrow> u64" where
  "block_word block i = fold (\<lambda>j w. (push_bit 8 w) OR ucast (block ! (i * 8 + j))) [0..<8] 0"

definition schedule_word :: "u64 list \<Rightarrow> nat \<Rightarrow> u64" where
  "schedule_word w i =
     (let s0 = rotr64 (w ! (i - 15)) 1 XOR rotr64 (w ! (i - 15)) 8 XOR drop_bit 7 (w ! (i - 15));
          s1 = rotr64 (w ! (i - 2)) 19 XOR rotr64 (w ! (i - 2)) 61 XOR drop_bit 6 (w ! (i - 2))
      in w ! (i - 16) + s0 + w ! (i - 7) + s1)"

definition schedule :: "bytes \<Rightarrow> u64 list" where
  "schedule block = fold (\<lambda>i w. w @ [schedule_word w i]) [16..<80] (map (block_word block) [0..<16])"

type_synonym sha_vars = "u64 \<times> u64 \<times> u64 \<times> u64 \<times> u64 \<times> u64 \<times> u64 \<times> u64"

fun sha512_round :: "u64 list \<Rightarrow> nat \<Rightarrow> sha_vars \<Rightarrow> sha_vars" where
  "sha512_round w i (a, b, c, d, e, f, g, h) =
     (let S1 = rotr64 e 14 XOR rotr64 e 18 XOR rotr64 e 41;
          ch = (e AND f) XOR (NOT e AND g);
          temp1 = h + S1 + ch + sha512_k ! i + w ! i;
          S0 = rotr64 a 28 XOR rotr64 a 34 XOR rotr64 a 39;
          maj = (a AND b) XOR (a AND c) XOR (b AND c);
          temp2 = S0 + maj
      in (temp1 + temp2, a, b, c, d + temp1, e, f, g))"

definition sha512_compress :: "u64 list \<Rightarrow> bytes \<Rightarrow> u64 list" where
  "sha512_compress st block =
     (let w = schedule block in
      case fold (sha512_round w) [0..<80]
             (st ! 0, st ! 1, st ! 2, st ! 3, st ! 4, st ! 5, st ! 6, st ! 7) of
        (a, b, c, d, e, f, g, h) \<Rightarrow>
          [st ! 0 + a, st ! 1 + b, st ! 2 + c, st ! 3 + d,
           st ! 4 + e, st ! 5 + f, st ! 6 + g, st ! 7 + h])"

section \<open>Streaming context\<close>

record sha512_ctx =
  sha_state :: "u64 list"
  sha_count :: u64
  sha_buffer :: bytes
  sha_buf_len :: u32

definition sha512_init :: "sha512_ctx \<Rightarrow> sha512_ctx" where
  "sha512_init ctx = ctx\<lparr>
     sha_state := [0x6A09E667F3BCC908, 0xBB67AE8584CAA73B, 0x3C6EF372FE94F82B, 0xA54FF53A5F1D36F1,
                   0x510E527FADE682D1, 0x9B05688C2B3E6C1F, 0x1F83D9ABFB41BD6B, 0x5BE0CD19137E2179],
     sha_count := 0, sha_buf_len := 0\<rparr>"

partial_function (option) sha512_update :: "sha512_ctx \<Rightarrow> bytes \<Rightarrow> sha512_ctx option" where
  "sha512_update ctx data =
     (if data = [] then Some ctx
      else
        (let space = 128 - sha_buf_len ctx;
             chunk = (if word_of_nat (length data) < (ucast space :: u64) then word_of_nat (length data) else space);
             ctx1 = ctx\<lparr>sha_buffer := patch (unat (sha_buf_len ctx)) (take (unat chunk) data) (sha_buffer ctx),
                        sha_buf_len := sha_buf_len ctx + chunk,
                        sha_count := sha_count ctx + ucast chunk\<rparr>;
             ctx2 = (if sha_buf_len ctx1 = 128
                     then ctx1\<lparr>sha_state := sha512_compress (sha_state ctx1) (sha_buffer ctx1), sha_buf_len := 0\<rparr>
                     else ctx1)
         in sha512_update ctx2 (drop (unat chunk) data)))"

declare sha512_update.simps [code]

function zero_fill :: "nat \<Rightarrow> nat \<Rightarrow> bytes \<Rightarrow> bytes" where
  "zero_fill lim bl buf = (if bl < lim then zero_fill lim (bl + 1) (buf[bl := 0]) else buf)"
  by auto
termination by (relation "measure (\<lambda>(lim, bl, _). lim - bl)") auto

declare zero_fill.simps [simp del]

definition be64 :: "u64 \<Rightarrow> bytes" where
  "be64 w = map (\<lambda>i. ucast (drop_bit (56 - i * 8) w)) [0..<8]"

definition sha512_final :: "sha512_ctx \<Rightarrow> bytes" where
  "sha512_final ctx =
     (let bits = sha_count ctx * 8;
          buf1 = (sha_buffer ctx)[unat (sha_buf_len ctx) := 0x80];
          bl1 = unat (sha_buf_len ctx + 1);
          (st2, buf2, bl2) = (if bl1 > 112
             then (sha512_compress (sha_state ctx) (zero_fill 128 bl1 buf1), zero_fill 128 bl1 buf1, 0)
             else (sha_state ctx, buf1, bl1));
          buf3 = zero_fill 112 bl2 buf2;
          buf4 = patch 120 (be64 bits) (patch 112 (replicate 8 0) buf3);
          st = sha512_compress st2 buf4
      in concat (map be64 st))"

definition sha512 :: "sha512_ctx \<Rightarrow> bytes \<Rightarrow> bytes option" where
  "sha512 ctx data =
     (case sha512_update (sha512_init ctx) data of None \<Rightarrow> None | Some c \<Rightarrow> Some (sha512_final c))"

section \<open>Absorbing whole blocks\<close>

text \<open>
  The reference: compress the leading whole blocks of a byte string and keep the rest.
\<close>

function absorb :: "('s \<Rightarrow> bytes \<Rightarrow> 's) \<Rightarrow> nat \<Rightarrow> 's \<Rightarrow> bytes \<Rightarrow> 's \<times> bytes" where
  "absorb f n st xs =
     (if 0 < n \<and> n \<le> length xs then absorb f n (f st (take n xs)) (drop n xs) else (st, xs))"
  by auto
termination by (relation "measure (\<lambda>(f, n, st, xs). length xs)") auto

declare absorb.simps [simp del]

lemma absorb_short [simp]: "length xs < n \<Longrightarrow> absorb f n st xs = (st, xs)"
  by (simp add: absorb.simps)

lemma absorb_block:
  "0 < n \<Longrightarrow> length xs = n \<Longrightarrow> absorb f n st (xs @ ys) = absorb f n (f st xs) ys"
  by (subst absorb.simps) simp

lemma absorb_rest:
  "0 < n \<Longrightarrow> length (snd (absorb f n st xs)) = length xs mod n"
proof (induction f n st xs rule: absorb.induct)
  case (1 f n st xs)
  then show ?case by (subst absorb.simps) (auto simp: le_mod_geq)
qed

lemma absorb_append:
  "0 < n \<Longrightarrow> absorb f n st (xs @ ys) = absorb f n (fst (absorb f n st xs)) (snd (absorb f n st xs) @ ys)"
proof (induction f n st xs rule: absorb.induct)
  case (1 f n st xs)
  show ?case
  proof (cases "n \<le> length xs")
    case True
    have "absorb f n st (xs @ ys) = absorb f n (f st (take n xs)) (drop n xs @ ys)"
      using absorb_block [of n "take n xs" f st "drop n xs @ ys"] True 1(2) by (simp flip: append_assoc)
    moreover have "absorb f n st xs = absorb f n (f st (take n xs)) (drop n xs)"
      using True 1(2) by (subst absorb.simps) simp
    ultimately show ?thesis using 1 True by simp
  next
    case False
    then show ?thesis by simp
  qed
qed

section \<open>The interface of a streaming hash\<close>

text \<open>
  What a user of a streaming context relies on: feeding bytes to a valid context always
  succeeds, gives a valid context, and absorbs the bytes after what is pending.
\<close>

locale stream_hash =
  fixes valid :: "'c \<Rightarrow> bool" and chain :: "'c \<Rightarrow> 's" and pending :: "'c \<Rightarrow> bytes"
    and total :: "'c \<Rightarrow> u64" and feed :: "'c \<Rightarrow> bytes \<Rightarrow> 'c option"
    and compress :: "'s \<Rightarrow> bytes \<Rightarrow> 's" and block :: nat and max_len :: nat
  assumes block_pos: "0 < block"
    and feed_absorbs: "valid c \<Longrightarrow> length xs < max_len \<Longrightarrow>
      \<exists>c'. feed c xs = Some c' \<and> valid c' \<and>
        (chain c', pending c') = absorb compress block (chain c) (pending c @ xs) \<and>
        total c' = total c + word_of_nat (length xs)"
begin

lemma feed_twice:
  assumes "valid c" "length xs < max_len" "length ys < max_len" "length (xs @ ys) < max_len"
  obtains c1 c2 c3 where "feed c xs = Some c1" "feed c1 ys = Some c2" "feed c (xs @ ys) = Some c3"
    "valid c2" "chain c2 = chain c3" "pending c2 = pending c3" "total c2 = total c3"
proof -
  obtain c1 where c1: "feed c xs = Some c1" "valid c1"
      "(chain c1, pending c1) = absorb compress block (chain c) (pending c @ xs)"
      "total c1 = total c + word_of_nat (length xs)"
    using feed_absorbs [OF assms(1,2)] by blast
  obtain c2 where c2: "feed c1 ys = Some c2" "valid c2"
      "(chain c2, pending c2) = absorb compress block (chain c1) (pending c1 @ ys)"
      "total c2 = total c1 + word_of_nat (length ys)"
    using feed_absorbs [OF c1(2) assms(3)] by blast
  obtain c3 where c3: "feed c (xs @ ys) = Some c3" "valid c3"
      "(chain c3, pending c3) = absorb compress block (chain c) (pending c @ xs @ ys)"
      "total c3 = total c + word_of_nat (length (xs @ ys))"
    using feed_absorbs [OF assms(1,4)] by blast
  have "absorb compress block (chain c) ((pending c @ xs) @ ys) =
      absorb compress block (chain c1) (pending c1 @ ys)"
    using absorb_append [OF block_pos, of compress "chain c" "pending c @ xs" ys]
    by (simp add: c1(3) [symmetric])
  then have "(chain c2, pending c2) = (chain c3, pending c3)" using c2(3) c3(3) by simp
  moreover have "total c2 = total c3" using c1(4) c2(4) c3(4) by (simp add: of_nat_add)
  ultimately show ?thesis using that c1(1) c2(1,2) c3(1) by blast
qed

lemma feed_all:
  assumes "valid c" "length xs < max_len" "pending c = []"
  obtains c' where "feed c xs = Some c'" "valid c'" "(chain c', pending c') = absorb compress block (chain c) xs"
    "length (pending c') = length xs mod block" "total c' = total c + word_of_nat (length xs)"
proof -
  obtain c' where c': "feed c xs = Some c'" "valid c'"
      "(chain c', pending c') = absorb compress block (chain c) xs"
      "total c' = total c + word_of_nat (length xs)"
    using feed_absorbs [OF assms(1,2)] assms(3) by auto
  have "length (snd (absorb compress block (chain c) xs)) = length xs mod block"
    by (rule absorb_rest [OF block_pos])
  then show ?thesis using that c' by (metis snd_conv)
qed

text \<open>A context that has absorbed \<open>m\<close> and is fed \<open>xs\<close> has absorbed \<open>m @ xs\<close>.\<close>

lemma feed_more:
  assumes "valid c" "(chain c, pending c) = absorb compress block iv m" "total c = word_of_nat (length m)"
    "length xs < max_len"
  obtains c' where "feed c xs = Some c'" "valid c'" "(chain c', pending c') = absorb compress block iv (m @ xs)"
    "total c' = word_of_nat (length (m @ xs))"
proof -
  obtain c' where c': "feed c xs = Some c'" "valid c'"
      "(chain c', pending c') = absorb compress block (chain c) (pending c @ xs)"
      "total c' = total c + word_of_nat (length xs)"
    using feed_absorbs [OF assms(1,4)] by auto
  have "absorb compress block (chain c) (pending c @ xs) = absorb compress block iv (m @ xs)"
    unfolding absorb_append [OF block_pos, of compress iv m xs] by (simp add: assms(2) [symmetric])
  then show ?thesis using that c' assms(3) by simp
qed

end

section \<open>The context of the code is such a streaming hash\<close>

definition sha_valid :: "sha512_ctx \<Rightarrow> bool" where
  "sha_valid c \<longleftrightarrow> length (sha_buffer c) = 128 \<and> unat (sha_buf_len c) < 128"

definition sha_pending :: "sha512_ctx \<Rightarrow> bytes" where
  "sha_pending c = take (unat (sha_buf_len c)) (sha_buffer c)"

lemma unat_chunk:
  assumes "unat (bl :: u32) < 128" "n < 2 ^ 64"
  defines "chunk \<equiv> (if word_of_nat n < (ucast (128 - bl) :: u64) then word_of_nat n else 128 - bl)"
  shows "unat chunk = min n (128 - unat bl)" "unat (ucast chunk :: u64) = unat chunk"
    "unat (bl + chunk) = unat bl + unat chunk"
proof -
  have sp: "unat (128 - bl) = 128 - unat bl"
    using assms(1) by (simp add: unat_sub word_le_nat_alt)
  have up: "unat (ucast x :: u64) = unat x" for x :: u32
    using unat_u32_lt [of x] by (simp add: unsigned_ucast_eq take_bit_eq_mod)
  have n64: "unat (word_of_nat n :: u64) = n"
    using assms(2) unfolding unat_of_nat by simp
  have n32: "unat (word_of_nat n :: u32) = n" if "n < 128"
    using that unfolding unat_of_nat by simp
  show c: "unat chunk = min n (128 - unat bl)"
    using n32 by (auto simp: chunk_def word_less_nat_alt n64 up sp)
  show "unat (ucast chunk :: u64) = unat chunk" by (rule up)
  have "unat bl + unat chunk < 2 ^ 32" using c assms(1) by simp
  then show "unat (bl + chunk) = unat bl + unat chunk" by (simp add: unat_word_ariths)
qed

lemma take_patch_prefix:
  "off + length xs \<le> length bs \<Longrightarrow> take (off + length xs) (patch off xs bs) = take off bs @ xs"
  by (simp add: patch_def)

lemma sha512_update_absorbs:
  assumes "sha_valid c" "length xs < 2 ^ 64"
  shows "\<exists>c'. sha512_update c xs = Some c' \<and> sha_valid c' \<and>
    (sha_state c', sha_pending c') = absorb sha512_compress 128 (sha_state c) (sha_pending c @ xs) \<and>
    sha_count c' = sha_count c + word_of_nat (length xs)"
  using assms
proof (induction "length xs" arbitrary: c xs rule: less_induct)
  case less
  show ?case
  proof (cases "xs = []")
    case True
    moreover have "length (sha_pending c) < 128" using less.prems(1) by (simp add: sha_valid_def sha_pending_def)
    ultimately show ?thesis using less.prems(1) by (subst sha512_update.simps) simp
  next
    case False
    define chunk where "chunk = (if word_of_nat (length xs) < (ucast (128 - sha_buf_len c) :: u64)
        then word_of_nat (length xs) else 128 - sha_buf_len c)"
    define c1 where "c1 = c\<lparr>sha_buffer := patch (unat (sha_buf_len c)) (take (unat chunk) xs) (sha_buffer c),
        sha_buf_len := sha_buf_len c + chunk, sha_count := sha_count c + ucast chunk\<rparr>"
    define c2 where "c2 = (if sha_buf_len c1 = 128
        then c1\<lparr>sha_state := sha512_compress (sha_state c1) (sha_buffer c1), sha_buf_len := 0\<rparr> else c1)"
    have bl: "unat (sha_buf_len c) < 128" "length (sha_buffer c) = 128"
      using less.prems(1) by (simp_all add: sha_valid_def)
    note ch = unat_chunk [OF bl(1) less.prems(2), folded chunk_def]
    have pos: "0 < unat chunk" "unat chunk \<le> length xs" using ch(1) False bl(1) by auto
    have len: "length (sha_buffer c1) = 128"
      using bl ch(1) by (simp add: c1_def)
    have pre: "take (unat (sha_buf_len c1)) (sha_buffer c1) = sha_pending c @ take (unat chunk) xs"
      using take_patch_prefix [of "unat (sha_buf_len c)" "take (unat chunk) xs" "sha_buffer c"] bl ch
      by (simp add: c1_def sha_pending_def min_def split: if_splits)
    have bl1: "unat (sha_buf_len c1) = unat (sha_buf_len c) + unat chunk" "unat (sha_buf_len c1) \<le> 128"
      using ch bl(1) by (simp_all add: c1_def)
    have c2: "sha_valid c2 \<and> absorb sha512_compress 128 (sha_state c2) (sha_pending c2 @ ys) =
        absorb sha512_compress 128 (sha_state c) ((sha_pending c @ take (unat chunk) xs) @ ys)" for ys
    proof (cases "sha_buf_len c1 = 128")
      case True
      then have "sha_buffer c1 = sha_pending c @ take (unat chunk) xs" using pre len by simp
      then show ?thesis
        using True len absorb_block [of 128 "sha_buffer c1" sha512_compress "sha_state c" ys]
        by (simp add: c2_def sha_valid_def sha_pending_def c1_def)
    next
      case False
      then have "unat (sha_buf_len c1) \<noteq> 128" by (simp add: word_unat_eq_iff)
      then show ?thesis
        using False len bl1(2) pre by (simp add: c2_def sha_valid_def sha_pending_def) (simp add: c1_def)
    qed
    have "length (drop (unat chunk) xs) < length xs" using pos by simp
    moreover have "length (drop (unat chunk) xs) < 2 ^ 64" using less.prems(2) by simp
    ultimately obtain c' where c': "sha512_update c2 (drop (unat chunk) xs) = Some c'" "sha_valid c'"
        "(sha_state c', sha_pending c') =
           absorb sha512_compress 128 (sha_state c2) (sha_pending c2 @ drop (unat chunk) xs)"
        "sha_count c' = sha_count c2 + word_of_nat (length (drop (unat chunk) xs))"
      using less.hyps [of "drop (unat chunk) xs" c2] c2 by blast
    have "sha512_update c xs = Some c'"
      unfolding sha512_update.simps [of c xs] Let_def chunk_def [symmetric] c1_def [symmetric]
        c2_def [symmetric]
      using False c'(1) by simp
    moreover have "(sha_state c', sha_pending c') = absorb sha512_compress 128 (sha_state c) (sha_pending c @ xs)"
      using c'(3) c2 [of "drop (unat chunk) xs"] by simp
    moreover have "sha_count c' = sha_count c + word_of_nat (length xs)"
    proof -
      have "sha_count c2 = sha_count c + word_of_nat (unat chunk)"
        using ch(2) by (simp add: c2_def c1_def)
      then show ?thesis using c'(4) pos(2) by (simp add: of_nat_diff)
    qed
    ultimately show ?thesis using c'(2) by blast
  qed
qed

interpretation sha: stream_hash sha_valid sha_state sha_pending sha_count sha512_update sha512_compress 128 "2 ^ 64"
proof
  show "0 < (128 :: nat)" by simp
  show "\<exists>c'. sha512_update c xs = Some c' \<and> sha_valid c' \<and>
      (sha_state c', sha_pending c') = absorb sha512_compress 128 (sha_state c) (sha_pending c @ xs) \<and>
      sha_count c' = sha_count c + word_of_nat (length xs)"
    if "sha_valid c" "length xs < 2 ^ 64" for c xs
    using that by (rule sha512_update_absorbs)
qed

section \<open>Padding\<close>

text \<open>The padding of FIPS 180-4: a one bit, zeros, and the length in bits as 16 big-endian bytes.\<close>

definition sha_padding :: "nat \<Rightarrow> bytes" where
  "sha_padding n = [0x80] @ replicate ((239 - n mod 128) mod 128) 0 @ rev (le_bytes 16 (8 * n))"

definition sha512_spec :: "u64 list \<Rightarrow> bytes \<Rightarrow> bytes" where
  "sha512_spec iv m = concat (map be64 (fst (absorb sha512_compress 128 iv (m @ sha_padding (length m)))))"

lemma zero_fill_patch:
  "lim \<le> length buf \<Longrightarrow> bl \<le> lim \<Longrightarrow> zero_fill lim bl buf = patch bl (replicate (lim - bl) 0) buf"
proof (induction "lim - bl" arbitrary: bl buf)
  case 0
  then have "lim = bl" by simp
  then show ?case by (simp add: zero_fill.simps [of bl bl] patch_def)
next
  case (Suc k)
  then have bl: "bl < lim" by simp
  have "zero_fill lim bl buf = patch (bl + 1) (replicate (lim - (bl + 1)) 0) (buf[bl := 0])"
    using Suc bl by (subst zero_fill.simps) simp
  also have "\<dots> = patch bl (replicate (lim - bl) 0) buf"
    using Suc.prems bl
    by (intro nth_equalityI) (auto simp: nth_patch nth_list_update)
  finally show ?case .
qed

lemma be64_rev: "be64 w = rev (put64 w)"
proof (rule nth_equalityI)
  show "length (be64 w) = length (rev (put64 w))" by (simp add: be64_def)
  fix i assume "i < length (be64 w)"
  then have i: "i < 8" by (simp add: be64_def)
  then have "56 - i * 8 = 8 * (7 - i)" by simp
  then show "be64 w ! i = rev (put64 w) ! i"
    using i by (simp add: be64_def rev_nth put64_nth)
qed

lemma length_field:
  assumes "n < 2 ^ 61" "unat bits = 8 * n"
  shows "replicate 8 0 @ be64 bits = rev (le_bytes 16 (8 * n))"
proof -
  have "8 * n div 256 ^ 8 = 0" using assms(1) by simp
  then have "le_bytes (8 + 8) (8 * n) = le_bytes 8 (8 * n) @ replicate 8 0"
    by (simp only: le_bytes_split le_bytes_0)
  then show ?thesis using assms(2) by (simp add: be64_rev put64_def)
qed

lemma zero_fill_prefix:
  assumes "take j buf = x" "length x = j" "j \<le> lim" "lim \<le> length buf"
  shows "take lim (zero_fill lim j buf) = x @ replicate (lim - j) 0" "length (zero_fill lim j buf) = length buf"
  using assms by (simp_all add: zero_fill_patch patch_def)

lemma length_block:
  assumes "length buf = 128" "length z = 8" "length b = 8"
  shows "patch 120 b (patch 112 z buf) = take 112 buf @ z @ b"
  using assms by (simp add: patch_def)

lemma length_be64 [simp]: "length (be64 w) = 8"
  by (simp add: be64_def)

text \<open>The last block or two that the final step compresses are the pending bytes and the padding.\<close>

lemma sha512_final_pads:
  assumes valid: "sha_valid c" and n: "n < 2 ^ 61" and cnt: "sha_count c = word_of_nat n"
    and bl: "unat (sha_buf_len c) = n mod 128"
  shows "sha512_final c = concat (map be64 (fst (absorb sha512_compress 128 (sha_state c) (sha_pending c @ sha_padding n))))"
proof -
  define r where "r = n mod 128"
  have r: "r < 128" "unat (sha_buf_len c) = r" "length (sha_buffer c) = 128"
    using valid bl by (simp_all add: r_def sha_valid_def)
  have bl1: "unat (sha_buf_len c + 1) = r + 1" using r by (simp add: unat_word_ariths)
  define bits where "bits = sha_count c * 8"
  have "unat bits = 8 * n"
    using n unfolding bits_def cnt by (simp add: unat_word_ariths unat_of_nat)
  note lenf = length_field [OF n this]
  define buf1 where "buf1 = (sha_buffer c)[r := 0x80]"
  define p where "p = sha_pending c"
  have lp: "length p = r" using r by (simp add: p_def sha_pending_def)
  have b1: "take (r + 1) buf1 = p @ [0x80]"
    using r list_update_length [of "take r (sha_buffer c)" "sha_buffer c ! r" "[]" "0x80"]
    by (simp add: buf1_def p_def sha_pending_def take_Suc_conv_app_nth take_update_swap)
  have lb1: "length buf1 = 128" using r by (simp add: buf1_def)
  show ?thesis
  proof (cases "r + 1 > 112")
    case True
    define zf where "zf = zero_fill 128 (Suc r) buf1"
    have zf: "zf = p @ [0x80] @ replicate (127 - r) 0"
      using zero_fill_prefix [OF b1, of 128] lp lb1 r by (simp add: zf_def)
    have lzf: "length zf = 128" using zf lp r by simp
    have "take 112 (zero_fill 112 0 zf) = replicate 112 0" "length (zero_fill 112 0 zf) = 128"
      using zero_fill_prefix [of 0 zf "[]" 112] lzf by simp_all
    then have b4: "patch 120 (be64 bits) (patch 112 (replicate 8 0) (zero_fill 112 0 zf)) =
        replicate 112 0 @ rev (le_bytes 16 (8 * n))"
      by (simp add: length_block lenf [symmetric])
    have "(239 - r) mod 128 = (127 - r) + 112" using True r by simp
    then have "replicate ((239 - r) mod 128) (0::u8) = replicate (127 - r) 0 @ replicate 112 0"
      by (simp only: replicate_add)
    then have "p @ sha_padding n = zf @ (replicate 112 0 @ rev (le_bytes 16 (8 * n)))"
      by (simp add: sha_padding_def r_def [symmetric] zf)
    then have "absorb sha512_compress 128 (sha_state c) (p @ sha_padding n) =
        (sha512_compress (sha512_compress (sha_state c) zf) (replicate 112 0 @ rev (le_bytes 16 (8 * n))), [])"
      using absorb_block [of 128 "replicate 112 0 @ rev (le_bytes 16 (8 * n))" sha512_compress
          "sha512_compress (sha_state c) zf" "[]"] absorb_block [of 128 zf sha512_compress] lzf
      by simp
    then show ?thesis
      using True b4 by (simp add: sha512_final_def Let_def r(2) bl1 buf1_def [symmetric] zf_def [symmetric]
          bits_def [symmetric] p_def [symmetric])
  next
    case False
    have z: "take 112 (zero_fill 112 (r + 1) buf1) = p @ [0x80] @ replicate (111 - r) 0"
        "length (zero_fill 112 (r + 1) buf1) = 128"
      using zero_fill_prefix [OF b1, of 112] lp lb1 False by simp_all
    define blk where "blk = p @ [0x80] @ replicate (111 - r) 0 @ rev (le_bytes 16 (8 * n))"
    have b4: "patch 120 (be64 bits) (patch 112 (replicate 8 0) (zero_fill 112 (r + 1) buf1)) = blk"
      using z by (simp add: length_block lenf [symmetric] blk_def)
    have "239 - r = (111 - r) + 128" using False by simp
    then have "(239 - r) mod 128 = 111 - r" by (simp only: mod_add_self2) simp
    then have "p @ sha_padding n = blk @ []" by (simp add: sha_padding_def r_def [symmetric] blk_def)
    moreover have "length blk = 128" using lp False by (simp add: blk_def)
    ultimately have "absorb sha512_compress 128 (sha_state c) (p @ sha_padding n) =
        (sha512_compress (sha_state c) blk, [])"
      using absorb_block [of 128 blk sha512_compress _ "[]"] by simp
    then show ?thesis
      using False b4 by (simp add: sha512_final_def Let_def r(2) bl1 buf1_def [symmetric]
          bits_def [symmetric] p_def [symmetric])
  qed
qed

section \<open>Properties\<close>

definition sha512_iv :: "u64 list" where
  "sha512_iv = [0x6A09E667F3BCC908, 0xBB67AE8584CAA73B, 0x3C6EF372FE94F82B, 0xA54FF53A5F1D36F1,
     0x510E527FADE682D1, 0x9B05688C2B3E6C1F, 0x1F83D9ABFB41BD6B, 0x5BE0CD19137E2179]"

lemma sha512_init_valid:
  "length (sha_buffer ctx) = 128 \<Longrightarrow> sha_valid (sha512_init ctx)"
  "sha_pending (sha512_init ctx) = []" "sha_state (sha512_init ctx) = sha512_iv"
  "sha_count (sha512_init ctx) = 0"
  by (simp_all add: sha_valid_def sha_pending_def sha512_init_def sha512_iv_def)

lemma absorb_nil: "absorb f 128 st [] = (st, [])"
  by (simp add: absorb.simps)

lemma sha512_init_absorbed:
  "(sha_state (sha512_init ctx), sha_pending (sha512_init ctx)) = absorb sha512_compress 128 sha512_iv []"
  "sha_count (sha512_init ctx) = word_of_nat (length ([] :: bytes))"
  by (simp_all add: absorb_nil sha512_init_valid)

lemma sha512_final_spec:
  assumes c: "sha_valid c" "(sha_state c, sha_pending c) = absorb sha512_compress 128 sha512_iv m"
    "sha_count c = word_of_nat (length m)" and m: "length m < 2 ^ 61"
  shows "sha512_final c = sha512_spec sha512_iv m"
proof -
  have "length (sha_pending c) = length m mod 128"
    using absorb_rest [of 128 sha512_compress sha512_iv m] by (simp add: c(2) [symmetric])
  then have "unat (sha_buf_len c) = length m mod 128"
    using c(1) by (simp add: sha_pending_def sha_valid_def min_def)
  from sha512_final_pads [OF c(1) m c(3) this] show ?thesis
    using absorb_append [of 128 sha512_compress sha512_iv m "sha_padding (length m)"]
    by (simp add: sha512_spec_def c(2) [symmetric])
qed

lemma sha512_spec_eq:
  assumes buf: "length (sha_buffer ctx) = 128" and m: "length m < 2 ^ 61"
  shows "\<exists>c. sha512_update (sha512_init ctx) m = Some c \<and> sha512_final c = sha512_spec sha512_iv m"
proof -
  have "length m < 2 ^ 64" using m by simp
  from sha.feed_more [OF sha512_init_valid(1) [OF buf] sha512_init_absorbed this]
  obtain c where "sha512_update (sha512_init ctx) m = Some c" "sha_valid c"
      "(sha_state c, sha_pending c) = absorb sha512_compress 128 sha512_iv m" "sha_count c = word_of_nat (length m)"
    by auto
  then show ?thesis using sha512_final_spec m by blast
qed

text \<open>
  C4. For every message below 2^61 bytes the one-call hash returns, and its result is the
  compression function folded over the blocks of the message padded as FIPS 180-4 prescribes,
  whatever the buffer held before.
\<close>

theorem sha512_is_fips:
  assumes "length (sha_buffer ctx) = 128" "length m < 2 ^ 61"
  shows "sha512 ctx m = Some (sha512_spec sha512_iv m)"
  using sha512_spec_eq [OF assms] by (auto simp: sha512_def)

definition zero_ctx :: sha512_ctx where
  "zero_ctx = \<lparr>sha_state = replicate 8 0, sha_count = 0, sha_buffer = replicate 128 0, sha_buf_len = 0\<rparr>"

theorem sha512_is_fips_witness:
  "sha512 zero_ctx [0x61, 0x62, 0x63] = Some (sha512_spec sha512_iv [0x61, 0x62, 0x63])"
  by (rule sha512_is_fips) (simp_all add: zero_ctx_def)

text \<open>
  Feeding a message in two parts leaves a context with the same chaining value, pending bytes
  and byte count as feeding it at once.
\<close>

theorem sha512_update_parts:
  assumes "sha_valid c" "length xs < 2 ^ 64" "length ys < 2 ^ 64" "length (xs @ ys) < 2 ^ 64"
  shows "\<exists>c1 c2 c3. sha512_update c xs = Some c1 \<and> sha512_update c1 ys = Some c2 \<and>
    sha512_update c (xs @ ys) = Some c3 \<and> sha_state c2 = sha_state c3 \<and>
    sha_pending c2 = sha_pending c3 \<and> sha_count c2 = sha_count c3"
  using sha.feed_twice [OF assms] by metis

theorem sha512_update_parts_witness:
  "\<exists>c1 c2 c3. sha512_update zero_ctx [1, 2] = Some c1 \<and> sha512_update c1 [3] = Some c2 \<and>
    sha512_update zero_ctx ([1, 2] @ [3]) = Some c3 \<and> sha_state c2 = sha_state c3 \<and>
    sha_pending c2 = sha_pending c3 \<and> sha_count c2 = sha_count c3"
  by (rule sha512_update_parts) (simp_all add: sha_valid_def zero_ctx_def)

end
