(* ===== verification/Field25519.thy ===== *)
theory Field25519
  imports Prelude
begin

text \<open>
  The field arithmetic of \<^verbatim>\<open>store/verify.c\<close>: elements of the field of
  \<open>2 ^ 255 - 19\<close> elements as five signed 64-bit limbs of 51 bits. A limb is an
  integer, and every operation of the code on \<^verbatim>\<open>int64_t\<close> or
  \<^verbatim>\<open>unsigned __int128\<close> operands is followed by the wrap-around of its type.
  The lemmas give the value of each operation modulo the prime and the size of the limbs
  it returns; the limb sizes are what rules the wrap-around out.
\<close>

section \<open>Signed 64-bit and unsigned 128-bit arithmetic\<close>

definition s64 :: "int \<Rightarrow> int" where
  "s64 x = signed_take_bit 63 x"

definition u128 :: "int \<Rightarrow> int" where
  "u128 x = take_bit 128 x"

lemma s64_id: "- (2 ^ 63) \<le> x \<Longrightarrow> x < 2 ^ 63 \<Longrightarrow> s64 x = x"
  by (simp add: s64_def signed_take_bit_int_eq_self)

lemma u128_id: "0 \<le> x \<Longrightarrow> x < 2 ^ 128 \<Longrightarrow> u128 x = x"
  by (simp add: u128_def take_bit_int_eq_self)

section \<open>Field elements\<close>

datatype fe = Fe int int int int int

definition FE_LIMB_BITS :: nat where
  "FE_LIMB_BITS = 51"

definition FE_LIMB_MASK :: int where
  "FE_LIMB_MASK = push_bit FE_LIMB_BITS 1 - 1"

definition fe_0 :: fe where
  "fe_0 = Fe 0 0 0 0 0"

definition fe_1 :: fe where
  "fe_1 = Fe 1 0 0 0 0"

fun fe_copy :: "fe \<Rightarrow> fe" where
  "fe_copy (Fe f0 f1 f2 f3 f4) = Fe f0 f1 f2 f3 f4"

definition load8 :: "bytes \<Rightarrow> nat \<Rightarrow> u64" where
  "load8 s off = fold (\<lambda>i l. l OR push_bit (i * 8) (ucast (s ! (off + i)))) [0..<8] 0"

definition fe_frombytes :: "bytes \<Rightarrow> fe" where
  "fe_frombytes s =
     (let m = word_of_int FE_LIMB_MASK :: u64;
          load0 = load8 s 0; load1 = load8 s 8; load2 = load8 s 16;
          load3 = load8 s 24 AND 0x7FFFFFFFFFFFFFFF;
          h0 = load0 AND m;
          h1 = (drop_bit 51 load0 OR push_bit 13 load1) AND m;
          h2 = (drop_bit 38 load1 OR push_bit 26 load2) AND m;
          h3 = (drop_bit 25 load2 OR push_bit 39 load3) AND m;
          h4 = drop_bit 12 load3 AND m
      in Fe (sint h0) (sint h1) (sint h2) (sint h3) (sint h4))"

fun fe_carry :: "fe \<Rightarrow> fe" where
  "fe_carry (Fe h0 h1 h2 h3 h4) =
     (let h1 = s64 (h1 + drop_bit 51 h0); h0 = h0 AND FE_LIMB_MASK;
          h2 = s64 (h2 + drop_bit 51 h1); h1 = h1 AND FE_LIMB_MASK;
          h3 = s64 (h3 + drop_bit 51 h2); h2 = h2 AND FE_LIMB_MASK;
          h4 = s64 (h4 + drop_bit 51 h3); h3 = h3 AND FE_LIMB_MASK;
          h0 = s64 (h0 + s64 (drop_bit 51 h4 * 19)); h4 = h4 AND FE_LIMB_MASK
      in Fe h0 h1 h2 h3 h4)"

text \<open>
  \<^verbatim>\<open>fe_tobytes\<close>: two carry passes (the lines of \<^verbatim>\<open>fe_carry\<close>), the
  trial subtraction of the prime, the branch-free selection, and the packing.
\<close>

fun fe_trial :: "fe \<Rightarrow> fe" where
  "fe_trial (Fe t0 t1 t2 t3 t4) =
     (let u0 = s64 (t0 + 19); c = drop_bit 51 u0; u0 = u0 AND FE_LIMB_MASK;
          u1 = s64 (t1 + c); c = drop_bit 51 u1; u1 = u1 AND FE_LIMB_MASK;
          u2 = s64 (t2 + c); c = drop_bit 51 u2; u2 = u2 AND FE_LIMB_MASK;
          u3 = s64 (t3 + c); c = drop_bit 51 u3; u3 = u3 AND FE_LIMB_MASK;
          u4 = s64 (s64 (t4 + c) - push_bit 51 1);
          m = drop_bit 63 u4
      in Fe ((t0 AND m) OR (u0 AND NOT m)) ((t1 AND m) OR (u1 AND NOT m))
            ((t2 AND m) OR (u2 AND NOT m)) ((t3 AND m) OR (u3 AND NOT m))
            ((t4 AND m) OR (u4 AND NOT m)))"

definition bytes8 :: "u64 \<Rightarrow> bytes" where
  "bytes8 bits = map (\<lambda>i. ucast (drop_bit (8 * i) bits)) [0..<8]"

fun fe_pack :: "fe \<Rightarrow> bytes" where
  "fe_pack (Fe t0 t1 t2 t3 t4) =
     bytes8 (word_of_int t0 OR push_bit 51 (word_of_int t1)) @
     bytes8 (drop_bit 13 (word_of_int t1) OR push_bit 38 (word_of_int t2)) @
     bytes8 (drop_bit 26 (word_of_int t2) OR push_bit 25 (word_of_int t3)) @
     bytes8 (drop_bit 39 (word_of_int t3) OR push_bit 12 (word_of_int t4))"

definition fe_tobytes :: "fe \<Rightarrow> bytes" where
  "fe_tobytes h = fe_pack (fe_trial (fe_carry (fe_carry h)))"

fun fe_add :: "fe \<Rightarrow> fe \<Rightarrow> fe" where
  "fe_add (Fe f0 f1 f2 f3 f4) (Fe g0 g1 g2 g3 g4) =
     Fe (s64 (f0 + g0)) (s64 (f1 + g1)) (s64 (f2 + g2)) (s64 (f3 + g3)) (s64 (f4 + g4))"

fun fe_sub :: "fe \<Rightarrow> fe \<Rightarrow> fe" where
  "fe_sub (Fe f0 f1 f2 f3 f4) (Fe g0 g1 g2 g3 g4) =
     fe_carry (Fe (s64 (s64 (f0 - g0) + 2 * 0x7FFFFFFFFFFED))
                  (s64 (s64 (f1 - g1) + 2 * FE_LIMB_MASK))
                  (s64 (s64 (f2 - g2) + 2 * FE_LIMB_MASK))
                  (s64 (s64 (f3 - g3) + 2 * FE_LIMB_MASK))
                  (s64 (s64 (f4 - g4) + 2 * FE_LIMB_MASK)))"

definition fe_neg :: "fe \<Rightarrow> fe" where
  "fe_neg f = fe_sub fe_0 f"

text \<open>The carry chain that ends both multiplications, on unsigned 128-bit values.\<close>

definition carry128 :: "int \<Rightarrow> int \<Rightarrow> int \<Rightarrow> int \<Rightarrow> int \<Rightarrow> fe" where
  "carry128 r0 r1 r2 r3 r4 =
     (let r1 = u128 (r1 + drop_bit 51 r0); r0 = r0 AND FE_LIMB_MASK;
          r2 = u128 (r2 + drop_bit 51 r1); r1 = r1 AND FE_LIMB_MASK;
          r3 = u128 (r3 + drop_bit 51 r2); r2 = r2 AND FE_LIMB_MASK;
          r4 = u128 (r4 + drop_bit 51 r3); r3 = r3 AND FE_LIMB_MASK;
          r0 = u128 (r0 + drop_bit 51 r4 * 19); r4 = r4 AND FE_LIMB_MASK;
          r1 = u128 (r1 + drop_bit 51 r0); r0 = r0 AND FE_LIMB_MASK
      in Fe (s64 r0) (s64 r1) (s64 r2) (s64 r3) (s64 r4))"

fun fe_mul :: "fe \<Rightarrow> fe \<Rightarrow> fe" where
  "fe_mul (Fe f0 f1 f2 f3 f4) (Fe g0 g1 g2 g3 g4) =
     (let g1_19 = s64 (g1 * 19); g2_19 = s64 (g2 * 19);
          g3_19 = s64 (g3 * 19); g4_19 = s64 (g4 * 19)
      in carry128
        (u128 (f0 * g0 + f1 * g4_19 + f2 * g3_19 + f3 * g2_19 + f4 * g1_19))
        (u128 (f0 * g1 + f1 * g0 + f2 * g4_19 + f3 * g3_19 + f4 * g2_19))
        (u128 (f0 * g2 + f1 * g1 + f2 * g0 + f3 * g4_19 + f4 * g3_19))
        (u128 (f0 * g3 + f1 * g2 + f2 * g1 + f3 * g0 + f4 * g4_19))
        (u128 (f0 * g4 + f1 * g3 + f2 * g2 + f3 * g1 + f4 * g0)))"

definition fe_sq :: "fe \<Rightarrow> fe" where
  "fe_sq f = fe_mul f f"

fun fe_mul_small :: "fe \<Rightarrow> int \<Rightarrow> fe" where
  "fe_mul_small (Fe f0 f1 f2 f3 f4) n =
     carry128 (u128 (f0 * n)) (u128 (f1 * n)) (u128 (f2 * n)) (u128 (f3 * n)) (u128 (f4 * n))"

text \<open>The addition chain up to \<open>z ^ (2 ^ 250 - 1)\<close> that both exponentiations run; it also returns \<open>z ^ 11\<close>.\<close>

definition fe_chain :: "fe \<Rightarrow> fe \<times> fe" where
  "fe_chain z =
     (let z1 = fe_copy z;
          z2 = fe_sq z1;
          z8 = fe_sq (fe_sq z2);
          z9 = fe_mul z8 z1;
          z11 = fe_mul z9 z2;
          z_5_0 = fe_mul (fe_sq z11) z9;
          z_10_0 = fe_mul ((fe_sq ^^ 5) z_5_0) z_5_0;
          z_20_0 = fe_mul ((fe_sq ^^ 10) z_10_0) z_10_0;
          z_40_0 = fe_mul ((fe_sq ^^ 20) z_20_0) z_20_0;
          z_50_0 = fe_mul ((fe_sq ^^ 10) z_40_0) z_10_0;
          z_100_0 = fe_mul ((fe_sq ^^ 50) z_50_0) z_50_0;
          z_200_0 = fe_mul ((fe_sq ^^ 100) z_100_0) z_100_0;
          z_250_0 = fe_mul ((fe_sq ^^ 50) z_200_0) z_50_0
      in (z_250_0, z11))"

definition fe_pow2523 :: "fe \<Rightarrow> fe" where
  "fe_pow2523 z = (let (t0, z11) = fe_chain z in fe_mul ((fe_sq ^^ 2) t0) (fe_copy z))"

definition fe_invert :: "fe \<Rightarrow> fe" where
  "fe_invert z = (let (t0, z11) = fe_chain z in fe_mul ((fe_sq ^^ 5) t0) z11)"

definition fe_isnonzero :: "fe \<Rightarrow> bool" where
  "fe_isnonzero f = (fold (\<lambda>b r. r OR b) (fe_tobytes f) 0 \<noteq> (0 :: u8))"

definition fe_isneg :: "fe \<Rightarrow> u8" where
  "fe_isneg f = fe_tobytes f ! 0 AND 1"

fun fe_cmov :: "fe \<Rightarrow> fe \<Rightarrow> int \<Rightarrow> fe" where
  "fe_cmov (Fe f0 f1 f2 f3 f4) (Fe g0 g1 g2 g3 g4) b =
     (let m = s64 (- b)
      in Fe (f0 XOR ((f0 XOR g0) AND m)) (f1 XOR ((f1 XOR g1) AND m))
            (f2 XOR ((f2 XOR g2) AND m)) (f3 XOR ((f3 XOR g3) AND m))
            (f4 XOR ((f4 XOR g4) AND m)))"

declare fe_carry.simps [simp del] fe_trial.simps [simp del] fe_mul.simps [simp del] fe_pack.simps [simp del]

section \<open>The prime field\<close>

definition p25519 :: int where
  "p25519 = 2 ^ 255 - 19"

definition eqp :: "int \<Rightarrow> int \<Rightarrow> bool" where
  "eqp a b \<longleftrightarrow> a mod p25519 = b mod p25519"

named_theorems eqp_intros \<open>congruence rules modulo the prime\<close>

lemma eqp_refl [simp, intro]: "eqp a a"
  by (simp add: eqp_def)

lemma eqp_sym: "eqp a b \<Longrightarrow> eqp b a"
  by (simp add: eqp_def)

lemma eqp_trans [trans]: "eqp a b \<Longrightarrow> eqp b c \<Longrightarrow> eqp a c"
  by (simp add: eqp_def)

lemma eqp_add [eqp_intros]: "eqp a b \<Longrightarrow> eqp c d \<Longrightarrow> eqp (a + c) (b + d)"
  unfolding eqp_def by (rule mod_add_cong)

lemma eqp_diff [eqp_intros]: "eqp a b \<Longrightarrow> eqp c d \<Longrightarrow> eqp (a - c) (b - d)"
  unfolding eqp_def by (rule mod_diff_cong)

lemma eqp_mult [eqp_intros]: "eqp a b \<Longrightarrow> eqp c d \<Longrightarrow> eqp (a * c) (b * d)"
  unfolding eqp_def by (rule mod_mult_cong)

lemma eqp_minus [eqp_intros]: "eqp a b \<Longrightarrow> eqp (- a) (- b)"
  using eqp_diff [of 0 0 a b] by simp

lemma eqp_power [eqp_intros]: "eqp a b \<Longrightarrow> eqp (a ^ n) (b ^ n)"
  unfolding eqp_def by (metis power_mod)

lemma eqp_iff_dvd: "eqp a b \<longleftrightarrow> p25519 dvd a - b"
  by (simp add: eqp_def mod_eq_dvd_iff)

lemma eqp_shift: "a = b + p25519 * k \<Longrightarrow> eqp a b"
  by (simp add: eqp_iff_dvd)

lemma p25519_pos [simp]: "0 < p25519"
  by (simp add: p25519_def)

section \<open>Values and sizes of limbs\<close>

fun fe_val :: "fe \<Rightarrow> int" where
  "fe_val (Fe h0 h1 h2 h3 h4) = h0 + 2 ^ 51 * h1 + 2 ^ 102 * h2 + 2 ^ 153 * h3 + 2 ^ 204 * h4"

text \<open>\<open>fe_upto b\<close>: every limb lies between 0 and \<open>b\<close>.\<close>

fun fe_upto :: "int \<Rightarrow> fe \<Rightarrow> bool" where
  "fe_upto b (Fe h0 h1 h2 h3 h4) \<longleftrightarrow>
     0 \<le> h0 \<and> h0 \<le> b \<and> 0 \<le> h1 \<and> h1 \<le> b \<and> 0 \<le> h2 \<and> h2 \<le> b \<and> 0 \<le> h3 \<and> h3 \<le> b \<and> 0 \<le> h4 \<and> h4 \<le> b"

text \<open>What multiplication and subtraction return: limbs hardly above 51 bits.\<close>

fun fe_reduced :: "fe \<Rightarrow> bool" where
  "fe_reduced (Fe h0 h1 h2 h3 h4) \<longleftrightarrow>
     fe_upto (2 ^ 51 + 2 ^ 18) (Fe h0 h1 h2 h3 h4) \<and> h4 < 2 ^ 51"

lemma fe_upto_mono: "fe_upto a f \<Longrightarrow> a \<le> b \<Longrightarrow> fe_upto b f"
  by (cases f) auto

lemma fe_reduced_upto: "fe_reduced f \<Longrightarrow> fe_upto (2 ^ 51 + 2 ^ 18) f"
  by (cases f) auto

lemma fe_reduced_wide [intro]: "fe_reduced f \<Longrightarrow> fe_upto (2 ^ 54) f"
  by (rule fe_upto_mono [OF fe_reduced_upto]) auto

lemma limb_mask [simp]: "x AND FE_LIMB_MASK = x mod 2 ^ 51"
proof -
  have "FE_LIMB_MASK = mask 51" by (simp add: FE_LIMB_MASK_def FE_LIMB_BITS_def mask_eq_exp_minus_1)
  then show ?thesis by (metis take_bit_eq_mask take_bit_eq_mod)
qed

lemma limb_mask_val [simp]: "FE_LIMB_MASK = 2 ^ 51 - 1"
  by (simp add: FE_LIMB_MASK_def FE_LIMB_BITS_def push_bit_eq_mult)

lemma limb_shift [simp]: "drop_bit 51 (x :: int) = x div 2 ^ 51"
  by (simp add: drop_bit_eq_div)

text \<open>One carry: quotient and remainder of a limb, with their sizes.\<close>

lemma limb_split:
  fixes x :: int
  obtains q r where "x div 2 ^ 51 = q" "x mod 2 ^ 51 = r" "x = 2251799813685248 * q + r"
    "0 \<le> r" "r < 2251799813685248"
  by (rule that [of "x div 2 ^ 51" "x mod 2 ^ 51"]) simp_all

lemma s64_small: "-9223372036854775808 \<le> x \<Longrightarrow> x < 9223372036854775808 \<Longrightarrow> s64 x = x"
  by (rule s64_id) simp_all

fun fe_within :: "int \<Rightarrow> fe \<Rightarrow> bool" where
  "fe_within b (Fe h0 h1 h2 h3 h4) \<longleftrightarrow>
     - b \<le> h0 \<and> h0 \<le> b \<and> - b \<le> h1 \<and> h1 \<le> b \<and> - b \<le> h2 \<and> h2 \<le> b \<and>
     - b \<le> h3 \<and> h3 \<le> b \<and> - b \<le> h4 \<and> h4 \<le> b"

text \<open>
  The shape of a carry pass: four limbs of 51 bits, the lowest one raised by 19 times the
  top carry \<open>c\<close>, the value lowered by \<open>c\<close> times the prime.
\<close>

lemma fe_carry_shape:
  assumes "fe_within (2 ^ 58) (Fe h0 h1 h2 h3 h4)"
  obtains r0 r1 r2 r3 r4 c where
    "fe_carry (Fe h0 h1 h2 h3 h4) = Fe (r0 + 19 * c) r1 r2 r3 r4"
    "0 \<le> r0" "r0 < 2251799813685248" "0 \<le> r1" "r1 < 2251799813685248"
    "0 \<le> r2" "r2 < 2251799813685248" "0 \<le> r3" "r3 < 2251799813685248"
    "0 \<le> r4" "r4 < 2251799813685248" "-256 \<le> c" "c \<le> 256"
    "fe_val (Fe h0 h1 h2 h3 h4) = r0 + 2 ^ 51 * r1 + 2 ^ 102 * r2 + 2 ^ 153 * r3 + 2 ^ 204 * r4 + 2 ^ 255 * c"
proof -
  note h = assms [simplified]
  from limb_split [of h0] obtain c0 r0 where
    e0: "h0 div 2 ^ 51 = c0" "h0 mod 2 ^ 51 = r0" and
    d0: "h0 = 2251799813685248 * c0 + r0" "0 \<le> r0" "r0 < 2251799813685248" by blast
  have b1: "-256 \<le> c0" "c0 \<le> 256" using h d0 by linarith+
  have w1: "s64 (h1 + c0) = h1 + c0" by (rule s64_small) (use h b1 in linarith)+
  from limb_split [of "h1 + c0"] obtain c1 r1 where
    e1: "(h1 + c0) div 2 ^ 51 = c1" "(h1 + c0) mod 2 ^ 51 = r1" and
    d1: "h1 + c0 = 2251799813685248 * c1 + r1" "0 \<le> r1" "r1 < 2251799813685248" by blast
  have b2: "-256 \<le> c1" "c1 \<le> 256" using h b1 d1 by linarith+
  have w2: "s64 (h2 + c1) = h2 + c1" by (rule s64_small) (use h b2 in linarith)+
  from limb_split [of "h2 + c1"] obtain c2 r2 where
    e2: "(h2 + c1) div 2 ^ 51 = c2" "(h2 + c1) mod 2 ^ 51 = r2" and
    d2: "h2 + c1 = 2251799813685248 * c2 + r2" "0 \<le> r2" "r2 < 2251799813685248" by blast
  have b3: "-256 \<le> c2" "c2 \<le> 256" using h b2 d2 by linarith+
  have w3: "s64 (h3 + c2) = h3 + c2" by (rule s64_small) (use h b3 in linarith)+
  from limb_split [of "h3 + c2"] obtain c3 r3 where
    e3: "(h3 + c2) div 2 ^ 51 = c3" "(h3 + c2) mod 2 ^ 51 = r3" and
    d3: "h3 + c2 = 2251799813685248 * c3 + r3" "0 \<le> r3" "r3 < 2251799813685248" by blast
  have b4: "-256 \<le> c3" "c3 \<le> 256" using h b3 d3 by linarith+
  have w4: "s64 (h4 + c3) = h4 + c3" by (rule s64_small) (use h b4 in linarith)+
  from limb_split [of "h4 + c3"] obtain c4 r4 where
    e4: "(h4 + c3) div 2 ^ 51 = c4" "(h4 + c3) mod 2 ^ 51 = r4" and
    d4: "h4 + c3 = 2251799813685248 * c4 + r4" "0 \<le> r4" "r4 < 2251799813685248" by blast
  have b5: "-256 \<le> c4" "c4 \<le> 256" using h b4 d4 by linarith+
  have w5: "s64 (c4 * 19) = 19 * c4" using s64_small [of "c4 * 19"] b5 by simp
  have w6: "s64 (r0 + 19 * c4) = r0 + 19 * c4" by (rule s64_small) (use d0 b5 in linarith)+
  have "fe_carry (Fe h0 h1 h2 h3 h4) = Fe (r0 + 19 * c4) r1 r2 r3 r4"
    by (simp only: fe_carry.simps Let_def limb_shift limb_mask e0 w1 e1 w2 e2 w3 e3 w4 e4 w5 w6)
  moreover have "fe_val (Fe h0 h1 h2 h3 h4) =
      r0 + 2 ^ 51 * r1 + 2 ^ 102 * r2 + 2 ^ 153 * r3 + 2 ^ 204 * r4 + 2 ^ 255 * c4"
    using d0(1) d1(1) d2(1) d3(1) d4(1) by simp
  ultimately show thesis
    using that d0(2,3) d1(2,3) d2(2,3) d3(2,3) d4(2,3) b5 by blast
qed

lemma fe_carry_val:
  assumes "fe_within (2 ^ 58) h"
  shows "eqp (fe_val (fe_carry h)) (fe_val h)"
proof (cases h)
  case (Fe h0 h1 h2 h3 h4)
  from fe_carry_shape [OF assms [unfolded Fe]] obtain r0 r1 r2 r3 r4 c where
    f: "fe_carry (Fe h0 h1 h2 h3 h4) = Fe (r0 + 19 * c) r1 r2 r3 r4" and
    v: "fe_val (Fe h0 h1 h2 h3 h4) =
      r0 + 2 ^ 51 * r1 + 2 ^ 102 * r2 + 2 ^ 153 * r3 + 2 ^ 204 * r4 + 2 ^ 255 * c" by metis
  have "fe_val (fe_carry (Fe h0 h1 h2 h3 h4)) = fe_val (Fe h0 h1 h2 h3 h4) + p25519 * (- c)"
    unfolding f v by (simp add: p25519_def)
  then show ?thesis unfolding Fe by (rule eqp_shift)
qed

lemma fe_carry_reduced:
  assumes w: "fe_within (2 ^ 58) h" and v: "0 \<le> fe_val h"
  shows "fe_reduced (fe_carry h)"
proof (cases h)
  case (Fe h0 h1 h2 h3 h4)
  from fe_carry_shape [OF w [unfolded Fe]] obtain r0 r1 r2 r3 r4 c where
    f: "fe_carry (Fe h0 h1 h2 h3 h4) = Fe (r0 + 19 * c) r1 r2 r3 r4" and
    r: "0 \<le> r0" "r0 < 2251799813685248" "0 \<le> r1" "r1 < 2251799813685248"
    "0 \<le> r2" "r2 < 2251799813685248" "0 \<le> r3" "r3 < 2251799813685248"
    "0 \<le> r4" "r4 < 2251799813685248" "-256 \<le> c" "c \<le> 256" and
    s: "fe_val (Fe h0 h1 h2 h3 h4) =
      r0 + 2 ^ 51 * r1 + 2 ^ 102 * r2 + 2 ^ 153 * r3 + 2 ^ 204 * r4 + 2 ^ 255 * c" by metis
  have "0 \<le> c" using v [unfolded Fe s, simplified] r by linarith
  then show ?thesis using r unfolding Fe f by simp
qed

lemma fe_add_ok:
  assumes "fe_upto a f" "fe_upto b g" "a + b < 2 ^ 63"
  shows "fe_val (fe_add f g) = fe_val f + fe_val g" "fe_upto (a + b) (fe_add f g)"
  using assms by (cases f; cases g; simp add: s64_small)+

lemma sub_limb:
  assumes "0 \<le> a" "a \<le> 18014398509481984" "0 \<le> b" "b \<le> 18014398509481984" "0 \<le> k" "k \<le> 18014398509481984"
  shows "s64 (s64 (a - b) + k) = a - b + k"
proof -
  have "s64 (a - b) = a - b" by (rule s64_small) (use assms in linarith)+
  moreover have "s64 (a - b + k) = a - b + k" by (rule s64_small) (use assms in linarith)+
  ultimately show ?thesis by simp
qed

lemma fe_sub_ok:
  assumes f: "fe_upto (2 ^ 54) f" and g: "fe_upto (2 ^ 54) g"
  shows "eqp (fe_val (fe_sub f g)) (fe_val f - fe_val g)"
    and "fe_val g \<le> fe_val f + 2 * p25519 \<Longrightarrow> fe_reduced (fe_sub f g)"
proof -
  obtain f0 f1 f2 f3 f4 where Ff: "f = Fe f0 f1 f2 f3 f4" by (cases f)
  obtain g0 g1 g2 g3 g4 where Gg: "g = Fe g0 g1 g2 g3 g4" by (cases g)
  define h where "h = Fe (f0 - g0 + 4503599627370458) (f1 - g1 + 4503599627370494) (f2 - g2 + 4503599627370494)
    (f3 - g3 + 4503599627370494) (f4 - g4 + 4503599627370494)"
  have fb: "0 \<le> f0" "f0 \<le> 18014398509481984" "0 \<le> f1" "f1 \<le> 18014398509481984" "0 \<le> f2" "f2 \<le> 18014398509481984"
      "0 \<le> f3" "f3 \<le> 18014398509481984" "0 \<le> f4" "f4 \<le> 18014398509481984"
    using f by (simp_all add: Ff)
  have gb: "0 \<le> g0" "g0 \<le> 18014398509481984" "0 \<le> g1" "g1 \<le> 18014398509481984" "0 \<le> g2" "g2 \<le> 18014398509481984"
      "0 \<le> g3" "g3 \<le> 18014398509481984" "0 \<le> g4" "g4 \<le> 18014398509481984"
    using g by (simp_all add: Gg)
  have s: "fe_sub f g = fe_carry h"
    using fb gb by (simp add: Ff Gg h_def sub_limb)
  have w: "fe_within (2 ^ 58) h"
    unfolding h_def fe_within.simps by (intro conjI; simp; use fb gb in linarith)
  have v: "fe_val h = fe_val f - fe_val g + 2 * p25519"
    by (simp add: Ff Gg h_def p25519_def)
  have "eqp (fe_val h) (fe_val f - fe_val g)"
    by (rule eqp_shift [of _ _ 2]) (simp add: v)
  then show "eqp (fe_val (fe_sub f g)) (fe_val f - fe_val g)"
    unfolding s by (rule eqp_trans [OF fe_carry_val [OF w]])
  assume "fe_val g \<le> fe_val f + 2 * p25519"
  then show "fe_reduced (fe_sub f g)" unfolding s by (intro fe_carry_reduced w) (simp add: v)
qed

lemma u128_small: "0 \<le> x \<Longrightarrow> x < 340282366920938463463374607431768211456 \<Longrightarrow> u128 x = x"
  by (rule u128_id) simp_all

text \<open>The carry chain of the multiplications: five limbs below \<open>2 ^ 120\<close> become a reduced element.\<close>

lemma carry128_ok:
  assumes r: "0 \<le> r0" "r0 \<le> 1329227995784915872903807060280344576" "0 \<le> r1" "r1 \<le> 1329227995784915872903807060280344576"
    "0 \<le> r2" "r2 \<le> 1329227995784915872903807060280344576" "0 \<le> r3" "r3 \<le> 1329227995784915872903807060280344576"
    "0 \<le> r4" "r4 \<le> 5192296858534827628530496329220096"
  shows "fe_reduced (carry128 r0 r1 r2 r3 r4)"
    and "eqp (fe_val (carry128 r0 r1 r2 r3 r4)) (r0 + 2 ^ 51 * r1 + 2 ^ 102 * r2 + 2 ^ 153 * r3 + 2 ^ 204 * r4)"
proof -
  from limb_split [of r0] obtain c0 s0 where
    e0: "r0 div 2 ^ 51 = c0" "r0 mod 2 ^ 51 = s0" and
    d0: "r0 = 2251799813685248 * c0 + s0" "0 \<le> s0" "s0 < 2251799813685248" by blast
  have b0: "0 \<le> c0" "c0 \<le> 590295810358705651712" using r d0 by linarith+
  have w1: "u128 (r1 + c0) = r1 + c0" by (rule u128_small) (use r b0 in linarith)+
  from limb_split [of "r1 + c0"] obtain c1 s1 where
    e1: "(r1 + c0) div 2 ^ 51 = c1" "(r1 + c0) mod 2 ^ 51 = s1" and
    d1: "r1 + c0 = 2251799813685248 * c1 + s1" "0 \<le> s1" "s1 < 2251799813685248" by blast
  have b1: "0 \<le> c1" "c1 \<le> 590295810358705913857" using r b0 d1 by linarith+
  have w2: "u128 (r2 + c1) = r2 + c1" by (rule u128_small) (use r b1 in linarith)+
  from limb_split [of "r2 + c1"] obtain c2 s2 where
    e2: "(r2 + c1) div 2 ^ 51 = c2" "(r2 + c1) mod 2 ^ 51 = s2" and
    d2: "r2 + c1 = 2251799813685248 * c2 + s2" "0 \<le> s2" "s2 < 2251799813685248" by blast
  have b2: "0 \<le> c2" "c2 \<le> 590295810358705913857" using r b1 d2 by linarith+
  have w3: "u128 (r3 + c2) = r3 + c2" by (rule u128_small) (use r b2 in linarith)+
  from limb_split [of "r3 + c2"] obtain c3 s3 where
    e3: "(r3 + c2) div 2 ^ 51 = c3" "(r3 + c2) mod 2 ^ 51 = s3" and
    d3: "r3 + c2 = 2251799813685248 * c3 + s3" "0 \<le> s3" "s3 < 2251799813685248" by blast
  have b3: "0 \<le> c3" "c3 \<le> 590295810358705913857" using r b2 d3 by linarith+
  have w4: "u128 (r4 + c3) = r4 + c3" by (rule u128_small) (use r b3 in linarith)+
  from limb_split [of "r4 + c3"] obtain c4 s4 where
    e4: "(r4 + c3) div 2 ^ 51 = c4" "(r4 + c3) mod 2 ^ 51 = s4" and
    d4: "r4 + c3 = 2251799813685248 * c4 + s4" "0 \<le> s4" "s4 < 2251799813685248" by blast
  have b4: "0 \<le> c4" "c4 \<le> 4611686018427387904" using r b3 d4 by linarith+
  have w5: "u128 (s0 + c4 * 19) = s0 + c4 * 19" by (rule u128_small) (use d0 b4 in linarith)+
  from limb_split [of "s0 + c4 * 19"] obtain c5 s5 where
    e5: "(s0 + c4 * 19) div 2 ^ 51 = c5" "(s0 + c4 * 19) mod 2 ^ 51 = s5" and
    d5: "s0 + c4 * 19 = 2251799813685248 * c5 + s5" "0 \<le> s5" "s5 < 2251799813685248" by blast
  have b5: "0 \<le> c5" "c5 \<le> 262144" using d0 b4 d5 by linarith+
  have w6: "u128 (s1 + c5) = s1 + c5" by (rule u128_small) (use d1 b5 in linarith)+
  have w7: "s64 s5 = s5" by (rule s64_small) (use d5 in linarith)+
  have w8: "s64 (s1 + c5) = s1 + c5" by (rule s64_small) (use d1 b5 in linarith)+
  have w9: "s64 s2 = s2" by (rule s64_small) (use d2 in linarith)+
  have w10: "s64 s3 = s3" by (rule s64_small) (use d3 in linarith)+
  have w11: "s64 s4 = s4" by (rule s64_small) (use d4 in linarith)+
  have res: "carry128 r0 r1 r2 r3 r4 = Fe s5 (s1 + c5) s2 s3 s4"
    by (simp only: carry128_def Let_def limb_shift limb_mask e0 w1 e1 w2 e2 w3 e3 w4 e4 w5 e5 w6 w7 w8 w9 w10 w11)
  show "fe_reduced (carry128 r0 r1 r2 r3 r4)"
    unfolding res using d1 d2 d3 d4 d5 b5 by simp
  have "fe_val (Fe s5 (s1 + c5) s2 s3 s4) =
      (r0 + 2 ^ 51 * r1 + 2 ^ 102 * r2 + 2 ^ 153 * r3 + 2 ^ 204 * r4) + p25519 * (- c4)"
    using d0(1) d1(1) d2(1) d3(1) d4(1) d5(1) by (simp add: p25519_def)
  then show "eqp (fe_val (carry128 r0 r1 r2 r3 r4)) (r0 + 2 ^ 51 * r1 + 2 ^ 102 * r2 + 2 ^ 153 * r3 + 2 ^ 204 * r4)"
    unfolding res by (rule eqp_shift)
qed

lemma mul19: "0 \<le> g \<Longrightarrow> g \<le> 18014398509481984 \<Longrightarrow> s64 (g * 19) = g * 19"
  by (rule s64_small) simp_all

lemma limb_prod:
  assumes "0 \<le> a" "a \<le> 18014398509481984" "0 \<le> b" "b \<le> (18014398509481984::int)"
  shows "0 \<le> a * b" "a * b \<le> 324518553658426726783156020576256"
  using mult_mono [of a 18014398509481984 b 18014398509481984] assms by simp_all

lemma fe_mul_ok:
  assumes f: "fe_upto (2 ^ 54) f" and g: "fe_upto (2 ^ 54) g"
  shows "fe_reduced (fe_mul f g)" and "eqp (fe_val (fe_mul f g)) (fe_val f * fe_val g)"
proof -
  obtain f0 f1 f2 f3 f4 where Ff: "f = Fe f0 f1 f2 f3 f4" by (cases f)
  obtain g0 g1 g2 g3 g4 where Gg: "g = Fe g0 g1 g2 g3 g4" by (cases g)
  have fb: "0 \<le> f0" "f0 \<le> 18014398509481984" "0 \<le> f1" "f1 \<le> 18014398509481984" "0 \<le> f2" "f2 \<le> 18014398509481984"
      "0 \<le> f3" "f3 \<le> 18014398509481984" "0 \<le> f4" "f4 \<le> 18014398509481984"
    using f by (simp_all add: Ff)
  have gb: "0 \<le> g0" "g0 \<le> 18014398509481984" "0 \<le> g1" "g1 \<le> 18014398509481984" "0 \<le> g2" "g2 \<le> 18014398509481984"
      "0 \<le> g3" "g3 \<le> 18014398509481984" "0 \<le> g4" "g4 \<le> 18014398509481984"
    using g by (simp_all add: Gg)
  note P = limb_prod [OF fb(1,2) gb(1,2)] limb_prod [OF fb(1,2) gb(3,4)] limb_prod [OF fb(1,2) gb(5,6)]
    limb_prod [OF fb(1,2) gb(7,8)] limb_prod [OF fb(1,2) gb(9,10)]
    limb_prod [OF fb(3,4) gb(1,2)] limb_prod [OF fb(3,4) gb(3,4)] limb_prod [OF fb(3,4) gb(5,6)]
    limb_prod [OF fb(3,4) gb(7,8)] limb_prod [OF fb(3,4) gb(9,10)]
    limb_prod [OF fb(5,6) gb(1,2)] limb_prod [OF fb(5,6) gb(3,4)] limb_prod [OF fb(5,6) gb(5,6)]
    limb_prod [OF fb(5,6) gb(7,8)] limb_prod [OF fb(5,6) gb(9,10)]
    limb_prod [OF fb(7,8) gb(1,2)] limb_prod [OF fb(7,8) gb(3,4)] limb_prod [OF fb(7,8) gb(5,6)]
    limb_prod [OF fb(7,8) gb(7,8)] limb_prod [OF fb(7,8) gb(9,10)]
    limb_prod [OF fb(9,10) gb(1,2)] limb_prod [OF fb(9,10) gb(3,4)] limb_prod [OF fb(9,10) gb(5,6)]
    limb_prod [OF fb(9,10) gb(7,8)] limb_prod [OF fb(9,10) gb(9,10)]
  define r0 where "r0 = f0 * g0 + 19 * (f1 * g4) + 19 * (f2 * g3) + 19 * (f3 * g2) + 19 * (f4 * g1)"
  define r1 where "r1 = f0 * g1 + f1 * g0 + 19 * (f2 * g4) + 19 * (f3 * g3) + 19 * (f4 * g2)"
  define r2 where "r2 = f0 * g2 + f1 * g1 + f2 * g0 + 19 * (f3 * g4) + 19 * (f4 * g3)"
  define r3 where "r3 = f0 * g3 + f1 * g2 + f2 * g1 + f3 * g0 + 19 * (f4 * g4)"
  define r4 where "r4 = f0 * g4 + f1 * g3 + f2 * g2 + f3 * g1 + f4 * g0"
  have R: "0 \<le> r0" "r0 \<le> 1329227995784915872903807060280344576" "0 \<le> r1" "r1 \<le> 1329227995784915872903807060280344576"
    "0 \<le> r2" "r2 \<le> 1329227995784915872903807060280344576" "0 \<le> r3" "r3 \<le> 1329227995784915872903807060280344576"
    "0 \<le> r4" "r4 \<le> 5192296858534827628530496329220096"
    unfolding r0_def r1_def r2_def r3_def r4_def using P by linarith+
  have m: "fe_mul f g = carry128 (u128 r0) (u128 r1) (u128 r2) (u128 r3) (u128 r4)"
    unfolding Ff Gg fe_mul.simps Let_def mul19 [OF gb(3,4)] mul19 [OF gb(5,6)] mul19 [OF gb(7,8)] mul19 [OF gb(9,10)]
      r0_def r1_def r2_def r3_def r4_def by (simp only: ac_simps)
  have "u128 r0 = r0" "u128 r1 = r1" "u128 r2 = r2" "u128 r3 = r3" "u128 r4 = r4"
    by (rule u128_small, use R in linarith, use R in linarith)+
  then have m: "fe_mul f g = carry128 r0 r1 r2 r3 r4" using m by simp
  show "fe_reduced (fe_mul f g)" unfolding m by (rule carry128_ok(1) [OF R])
  have "fe_val f * fe_val g = (r0 + 2 ^ 51 * r1 + 2 ^ 102 * r2 + 2 ^ 153 * r3 + 2 ^ 204 * r4) +
    p25519 * ((f1 * g4 + f2 * g3 + f3 * g2 + f4 * g1) + 2 ^ 51 * (f2 * g4 + f3 * g3 + f4 * g2) +
      2 ^ 102 * (f3 * g4 + f4 * g3) + 2 ^ 153 * (f4 * g4))"
    unfolding r0_def r1_def r2_def r3_def r4_def Ff Gg p25519_def
    by (simp add: algebra_simps)
  then have "eqp (fe_val f * fe_val g) (r0 + 2 ^ 51 * r1 + 2 ^ 102 * r2 + 2 ^ 153 * r3 + 2 ^ 204 * r4)"
    by (rule eqp_shift)
  then show "eqp (fe_val (fe_mul f g)) (fe_val f * fe_val g)"
    unfolding m by (rule eqp_trans [OF carry128_ok(2) [OF R] eqp_sym])
qed

lemma bit_load_fold:
  "bit (fold (\<lambda>i l. l OR push_bit (i * 8) (ucast (s ! (off + i)))) [0..<k] (0 :: u64)) n \<longleftrightarrow>
     n < 64 \<and> n < 8 * k \<and> bit (s ! (off + n div 8)) (n mod 8)" for s :: bytes
proof (induction k)
  case (Suc k)
  show ?case
  proof (cases "8 * k \<le> n \<and> n < 8 * k + 8")
    case True
    then have "n div 8 = k" by auto
    then have "n mod 8 = n - k * 8" by (metis minus_mult_div_eq_mod mult.commute)
    with True Suc \<open>n div 8 = k\<close> show ?thesis
      by (auto simp: bit_or_iff bit_push_bit_iff bit_unsigned_iff mult.commute)
  next
    case False
    then have "\<not> bit (s ! (off + k)) (n - k * 8)" if "k * 8 \<le> n" using that by (intro bit_u8_ge) auto
    with False Suc show ?thesis by (auto simp: bit_or_iff bit_push_bit_iff bit_unsigned_iff)
  qed
qed simp

lemma bit_load8:
  assumes "length s = 32" "off = 8 * j" "j < 4"
  shows "bit (load8 s off) n \<longleftrightarrow> n < 64 \<and> bit (le_val s) (64 * j + n)"
proof -
  have "(64 * j + n) div 8 = off + n div 8" using assms(2) by simp
  moreover have "(64 * j + n) mod 8 = n mod 8" using mod_mult_self4 [of 8 "8 * j" n] by simp
  ultimately show ?thesis using assms unfolding load8_def bit_load_fold bit_le_val by auto
qed

lemma limb_mask_word: "(word_of_int FE_LIMB_MASK :: u64) = mask 51"
  by (simp add: mask_eq_exp_minus_1)

lemma sint_limb: "sint (w AND mask 51 :: u64) = int (unat (w AND mask 51))"
proof (rule sint_small)
  have "unat (w AND mask 51) = take_bit 51 (unat w)"
    by (simp add: take_bit_eq_mask [symmetric] unsigned_take_bit_eq)
  then show "unat (w AND mask 51) < 2 ^ 63"
    using take_bit_nat_less_exp [of 51 "unat w"] by simp
qed

text \<open>The five limbs of a 32-byte string: its bits 0 to 254 in groups of 51.\<close>

definition limb :: "nat \<Rightarrow> nat \<Rightarrow> nat" where
  "limb v k = take_bit 51 (drop_bit (51 * k) v)"

lemma limb_straddle:
  fixes A B :: u64
  assumes A: "\<And>n. bit A n \<longleftrightarrow> n < 64 \<and> bit N (b + n)"
    and B: "\<And>n. n < 51 \<Longrightarrow> bit B n \<longleftrightarrow> bit N (b + 64 + n)" and de: "d + e = 64" "51 * k = b + d"
  shows "unat ((drop_bit d A OR push_bit e B) AND mask 51) = limb N k"
proof (rule bit_eqI)
  fix n
  show "bit (unat ((drop_bit d A OR push_bit e B) AND mask 51)) n = bit (limb N k) n"
  proof (cases "n < 51")
    case True
    have "bit (push_bit e B) n \<longleftrightarrow> e \<le> n \<and> bit N (b + d + n)"
    proof (cases "e \<le> n")
      case True
      then have "b + 64 + (n - e) = b + d + n" using de by simp
      then show ?thesis using B [of "n - e"] True \<open>n < 51\<close> by (simp add: bit_push_bit_iff)
    qed (simp add: bit_push_bit_iff)
    moreover have "bit (drop_bit d A) n \<longleftrightarrow> n < e \<and> bit N (b + d + n)"
      using de(1) by (auto simp: bit_drop_bit_eq A add.assoc)
    ultimately show ?thesis
      using True de by (auto simp: bit_unat limb_def bit_and_iff bit_or_iff bit_take_bit_iff bit_drop_bit_eq bit_mask_iff)
  qed (simp add: bit_unat limb_def bit_simps)
qed

lemma fe_frombytes_limbs:
  assumes "length s = 32"
  shows "fe_frombytes s = Fe (int (limb (le_val s) 0)) (int (limb (le_val s) 1)) (int (limb (le_val s) 2))
    (int (limb (le_val s) 3)) (int (limb (le_val s) 4))"
proof -
  note l = bit_load8 [OF assms, of 0 0, simplified] bit_load8 [OF assms, of 8 1, simplified]
    bit_load8 [OF assms, of 16 2, simplified] bit_load8 [OF assms, of 24 3, simplified]
  have m: "(0x7FFFFFFFFFFFFFFF :: u64) = mask 63" by (simp add: mask_eq_exp_minus_1)
  have "unat ((drop_bit 51 (load8 s 0) OR push_bit 13 (load8 s 8)) AND mask 51) = limb (le_val s) 1"
    by (rule limb_straddle [of _ _ 0]) (simp_all add: l)
  moreover have "unat ((drop_bit 38 (load8 s 8) OR push_bit 26 (load8 s 16)) AND mask 51) = limb (le_val s) 2"
    by (rule limb_straddle [of _ _ 64]) (simp_all add: l)
  moreover have "unat ((drop_bit 25 (load8 s 16) OR push_bit 39 (load8 s 24 AND mask 63)) AND mask 51) =
      limb (le_val s) 3"
    by (rule limb_straddle [of _ _ 128]) (simp_all add: l bit_and_iff bit_mask_iff)
  moreover have "unat (load8 s 0 AND mask 51) = limb (le_val s) 0"
    "unat (drop_bit 12 (load8 s 24 AND mask 63) AND mask 51) = limb (le_val s) 4"
    by (rule bit_eqI; auto simp: bit_unat limb_def bit_simps l)+
  ultimately show ?thesis
    unfolding fe_frombytes_def Let_def limb_mask_word m sint_limb by simp
qed

lemma limb_sum: "v mod 2 ^ (51 * Suc k) = v mod 2 ^ (51 * k) + 2 ^ (51 * k) * limb v k"
proof -
  have "v mod (2 ^ (51 * k) * 2 ^ 51) = 2 ^ (51 * k) * (v div 2 ^ (51 * k) mod 2 ^ 51) + v mod 2 ^ (51 * k)"
    by (rule mod_mult2_eq)
  then show ?thesis by (simp add: limb_def take_bit_eq_mod drop_bit_eq_div power_add mult.commute)
qed

lemma limb_less: "limb v k < 2 ^ 51"
  unfolding limb_def by (rule take_bit_nat_less_exp)

lemma fe_frombytes_ok:
  assumes "length s = 32"
  shows "fe_upto (2 ^ 51 - 1) (fe_frombytes s)" and "fe_val (fe_frombytes s) = int (le_val s mod 2 ^ 255)"
proof -
  have "int (limb (le_val s) k) \<le> 2 ^ 51 - 1" for k
    using limb_less [of "le_val s" k] by simp
  then show "fe_upto (2 ^ 51 - 1) (fe_frombytes s)"
    unfolding fe_frombytes_limbs [OF assms] fe_upto.simps by (simp only: of_nat_0_le_iff simp_thms)
  have "le_val s mod 2 ^ 255 = limb (le_val s) 0 + 2 ^ 51 * limb (le_val s) 1 + 2 ^ 102 * limb (le_val s) 2 +
      2 ^ 153 * limb (le_val s) 3 + 2 ^ 204 * limb (le_val s) 4"
    using limb_sum [of "le_val s" 0] limb_sum [of "le_val s" 1] limb_sum [of "le_val s" 2]
      limb_sum [of "le_val s" 3] limb_sum [of "le_val s" 4] by simp
  then show "fe_val (fe_frombytes s) = int (le_val s mod 2 ^ 255)"
    unfolding fe_frombytes_limbs [OF assms] fe_val.simps by simp
qed

lemma fe_frombytes_reduced [intro]: "length s = 32 \<Longrightarrow> fe_reduced (fe_frombytes s)"
  using fe_frombytes_ok(1) [of s] by (cases "fe_frombytes s") simp

subsection \<open>The canonical encoding\<close>

text \<open>Limbs of exactly 51 bits.\<close>

abbreviation fe_canon :: "fe \<Rightarrow> bool" where
  "fe_canon \<equiv> fe_upto (2 ^ 51 - 1)"

lemma fe_canon_bound: "fe_canon t \<Longrightarrow> 0 \<le> fe_val t" "fe_canon t \<Longrightarrow> fe_val t < 2 ^ 255"
  by (cases t; simp)+

lemma fe_carry_twice:
  assumes "fe_upto (2 ^ 54) h"
  shows "fe_canon (fe_carry (fe_carry h))" "eqp (fe_val (fe_carry (fe_carry h))) (fe_val h)"
proof -
  obtain h0 h1 h2 h3 h4 where H: "h = Fe h0 h1 h2 h3 h4" by (cases h)
  have w: "fe_within (2 ^ 58) h" and n: "0 \<le> fe_val h" using assms by (simp_all add: H)
  have r: "fe_reduced (fe_carry h)" by (rule fe_carry_reduced [OF w n])
  obtain g0 g1 g2 g3 g4 where G: "fe_carry h = Fe g0 g1 g2 g3 g4" by (cases "fe_carry h")
  have w': "fe_within (2 ^ 58) (Fe g0 g1 g2 g3 g4)" using r by (simp add: G)
  from fe_carry_shape [OF w'] obtain r0 r1 r2 r3 r4 c where
    f: "fe_carry (Fe g0 g1 g2 g3 g4) = Fe (r0 + 19 * c) r1 r2 r3 r4" and
    b: "0 \<le> r0" "r0 < 2251799813685248" "0 \<le> r1" "r1 < 2251799813685248"
    "0 \<le> r2" "r2 < 2251799813685248" "0 \<le> r3" "r3 < 2251799813685248"
    "0 \<le> r4" "r4 < 2251799813685248" and
    v: "fe_val (Fe g0 g1 g2 g3 g4) =
      r0 + 2 ^ 51 * r1 + 2 ^ 102 * r2 + 2 ^ 153 * r3 + 2 ^ 204 * r4 + 2 ^ 255 * c" by metis
  from fe_carry_shape [OF w [unfolded H]] obtain q0 q1 q2 q3 q4 d where
    e: "fe_carry (Fe h0 h1 h2 h3 h4) = Fe (q0 + 19 * d) q1 q2 q3 q4" and
    q: "0 \<le> q0" "q0 < 2251799813685248" "0 \<le> q1" "q1 < 2251799813685248"
    "0 \<le> q2" "q2 < 2251799813685248" "0 \<le> q3" "q3 < 2251799813685248"
    "0 \<le> q4" "q4 < 2251799813685248" "-256 \<le> d" "d \<le> 256" and
    "fe_val (Fe h0 h1 h2 h3 h4) =
      q0 + 2 ^ 51 * q1 + 2 ^ 102 * q2 + 2 ^ 153 * q3 + 2 ^ 204 * q4 + 2 ^ 255 * d"
    by metis
  have g: "g0 = q0 + 19 * d" "g1 = q1" "g2 = q2" "g3 = q3" "g4 = q4" using G unfolding H e by simp_all
  have c: "0 \<le> c" "c \<le> 1" "c = 1 \<Longrightarrow> r0 \<le> 4864"
    using v [simplified] b q g r [unfolded G, simplified] by linarith+
  have "r0 + 19 * c < 2251799813685248" using c b by (cases "c = 1") auto
  then show "fe_canon (fe_carry (fe_carry h))" using b c by (simp add: G f)
  show "eqp (fe_val (fe_carry (fe_carry h))) (fe_val h)"
    using fe_carry_val [OF w'] fe_carry_val [OF w] unfolding G by (rule eqp_trans)
qed

lemma select_limb:
  "(x AND (-1 :: int)) OR (y AND NOT (-1)) = x" "(x AND (0 :: int)) OR (y AND NOT 0) = y"
  by simp_all

lemma fe_trial_ok:
  assumes "fe_canon t"
  shows "fe_canon (fe_trial t)" "fe_val (fe_trial t) = fe_val t mod p25519"
proof -
  obtain t0 t1 t2 t3 t4 where T: "t = Fe t0 t1 t2 t3 t4" by (cases t)
  have b: "0 \<le> t0" "t0 < 2251799813685248" "0 \<le> t1" "t1 < 2251799813685248" "0 \<le> t2" "t2 < 2251799813685248"
      "0 \<le> t3" "t3 < 2251799813685248" "0 \<le> t4" "t4 < 2251799813685248"
    using assms by (simp_all add: T)
  have w0: "s64 (t0 + 19) = t0 + 19" by (rule s64_small) (use b in linarith)+
  from limb_split [of "t0 + 19"] obtain c0 u0 where
    e0: "(t0 + 19) div 2 ^ 51 = c0" "(t0 + 19) mod 2 ^ 51 = u0" and
    d0: "t0 + 19 = 2251799813685248 * c0 + u0" "0 \<le> u0" "u0 < 2251799813685248" by blast
  have c0: "0 \<le> c0" "c0 \<le> 1" using b d0 by linarith+
  have w1: "s64 (t1 + c0) = t1 + c0" by (rule s64_small) (use b c0 in linarith)+
  from limb_split [of "t1 + c0"] obtain c1 u1 where
    e1: "(t1 + c0) div 2 ^ 51 = c1" "(t1 + c0) mod 2 ^ 51 = u1" and
    d1: "t1 + c0 = 2251799813685248 * c1 + u1" "0 \<le> u1" "u1 < 2251799813685248" by blast
  have c1: "0 \<le> c1" "c1 \<le> 1" using b c0 d1 by linarith+
  have w2: "s64 (t2 + c1) = t2 + c1" by (rule s64_small) (use b c1 in linarith)+
  from limb_split [of "t2 + c1"] obtain c2 u2 where
    e2: "(t2 + c1) div 2 ^ 51 = c2" "(t2 + c1) mod 2 ^ 51 = u2" and
    d2: "t2 + c1 = 2251799813685248 * c2 + u2" "0 \<le> u2" "u2 < 2251799813685248" by blast
  have c2: "0 \<le> c2" "c2 \<le> 1" using b c1 d2 by linarith+
  have w3: "s64 (t3 + c2) = t3 + c2" by (rule s64_small) (use b c2 in linarith)+
  from limb_split [of "t3 + c2"] obtain c3 u3 where
    e3: "(t3 + c2) div 2 ^ 51 = c3" "(t3 + c2) mod 2 ^ 51 = u3" and
    d3: "t3 + c2 = 2251799813685248 * c3 + u3" "0 \<le> u3" "u3 < 2251799813685248" by blast
  have c3: "0 \<le> c3" "c3 \<le> 1" using b c2 d3 by linarith+
  have w4: "s64 (t4 + c3) = t4 + c3" by (rule s64_small) (use b c3 in linarith)+
  define u4 where "u4 = t4 + c3 - 2251799813685248"
  have w5: "s64 (t4 + c3 - push_bit 51 1) = u4"
    unfolding u4_def using s64_small [of "t4 + c3 - 2251799813685248"] b c3 by (simp add: push_bit_eq_mult)
  have b5: "- 2251799813685248 \<le> u4" "u4 < 2251799813685248" unfolding u4_def using b c3 by linarith+
  note steps = fe_trial.simps Let_def limb_shift limb_mask w0 e0 w1 e1 w2 e2 w3 e3 w4 w5
  have V: "fe_val t + 19 = u0 + 2 ^ 51 * u1 + 2 ^ 102 * u2 + 2 ^ 153 * u3 + 2 ^ 204 * u4 + 2 ^ 255"
    using d0(1) d1(1) d2(1) d3(1) by (simp add: T u4_def)
  have "fe_canon (fe_trial t) \<and> fe_val (fe_trial t) = fe_val t mod p25519"
  proof (cases "u4 < 0")
    case True
    then have "drop_bit 63 u4 = -1"
      using b5 by (simp add: drop_bit_eq_div int_div_neg_eq)
    then have r: "fe_trial t = t" unfolding T steps by (simp only: select_limb)
    have "fe_val t < p25519" using V True d0 d1 d2 d3 by (simp add: p25519_def)
    moreover have "0 \<le> fe_val t" by (rule fe_canon_bound(1) [OF assms])
    ultimately show ?thesis unfolding r using assms by (simp only: mod_pos_pos_trivial simp_thms)
  next
    case False
    then have "drop_bit 63 u4 = 0" using b5 by (simp add: drop_bit_eq_div)
    then have r: "fe_trial t = Fe u0 u1 u2 u3 u4" unfolding T steps by (simp only: select_limb)
    have v: "fe_val (Fe u0 u1 u2 u3 u4) = fe_val t - p25519" using V by (simp add: p25519_def)
    have c: "fe_canon (Fe u0 u1 u2 u3 u4)" using False b5 d0 d1 d2 d3 by simp
    have "0 \<le> fe_val t - p25519" "fe_val t - p25519 < p25519"
      using fe_canon_bound(1) [OF c] fe_canon_bound(2) [OF assms] by (simp_all only: v) (simp add: p25519_def)
    then have "fe_val t mod p25519 = fe_val t - p25519"
      by (metis mod_pos_pos_trivial minus_mod_self2)
    then show ?thesis unfolding r v using c by (simp only: simp_thms)
  qed
  then show "fe_canon (fe_trial t)" "fe_val (fe_trial t) = fe_val t mod p25519" by blast+
qed

lemma bit_limb_high: "0 \<le> t \<Longrightarrow> t < 2 ^ 51 \<Longrightarrow> 51 \<le> m \<Longrightarrow> \<not> bit (t :: int) m"
  by (metis bit_take_bit_iff not_less take_bit_int_eq_self)

lemma bit_limb_cons:
  fixes a b :: int
  assumes "0 \<le> a" "a < 2 ^ 51"
  shows "bit (a + 2 ^ 51 * b) m \<longleftrightarrow> (if m < 51 then bit a m else bit b (m - 51))"
proof -
  have "a + 2 ^ 51 * b = concat_bit 51 a b"
    using assms by (simp add: concat_bit_eq push_bit_eq_mult take_bit_int_eq_self)
  then show ?thesis by (simp only: bit_concat_bit_iff) auto
qed

lemma bytes8_put64: "bytes8 w = put64 w"
  by (rule nth_equalityI) (simp_all add: bytes8_def put64_nth)

lemma le_bytes_mod: "le_bytes n (v mod 256 ^ n) = le_bytes n v"
  by (metis le_val_le_bytes le_bytes_le_val length_le_bytes)

lemma bytes8_of_int:
  assumes "0 \<le> v"
  shows "bytes8 (word_of_int (drop_bit (64 * k) v)) = le_bytes 8 (nat v div 256 ^ (8 * k))"
proof -
  have "v = int (nat v)" using assms by simp
  then have "drop_bit (64 * k) v = int (nat v div 256 ^ (8 * k))"
    by (simp add: drop_bit_eq_div zdiv_int power_mult)
  then have "unat (word_of_int (drop_bit (64 * k) v) :: u64) = (nat v div 256 ^ (8 * k)) mod 2 ^ 64"
    by (simp add: unat_of_nat)
  then show ?thesis
    using le_bytes_mod [of 8 "nat v div 256 ^ (8 * k)"] by (simp add: bytes8_put64 put64_def)
qed

lemma le_bytes_32:
  "le_bytes 32 v = le_bytes 8 v @ le_bytes 8 (v div 256 ^ 8) @ le_bytes 8 (v div 256 ^ 16) @ le_bytes 8 (v div 256 ^ 24)"
proof -
  have "le_bytes (8 + (8 + (8 + 8))) v =
      le_bytes 8 v @ le_bytes 8 (v div 256 ^ 8) @ le_bytes 8 (v div 256 ^ 8 div 256 ^ 8) @
      le_bytes 8 (v div 256 ^ 8 div 256 ^ 8 div 256 ^ 8)"
    by (simp only: le_bytes_split)
  then show ?thesis by (simp add: div_mult2_eq [symmetric])
qed

lemma pack_straddle:
  fixes a b v :: int
  assumes "0 \<le> a" "a < 2 ^ 51" "d + e = 51"
    and v: "\<And>n. n < 64 \<Longrightarrow> bit v (j + n) \<longleftrightarrow> (if n < e then bit a (d + n) else bit b (n - e))"
  shows "drop_bit d (word_of_int a) OR push_bit e (word_of_int b) = (word_of_int (drop_bit j v) :: u64)"
proof (rule bit_word_eqI)
  fix n assume "n < LENGTH(64)"
  then have n: "n < 64" by simp
  have a: "\<not> bit a (d + n)" if "e \<le> n" using bit_limb_high [OF assms(1,2), of "d + n"] that assms(3) by simp
  have "bit (drop_bit d (word_of_int a :: u64)) n \<longleftrightarrow> n < e \<and> bit a (d + n)"
    using a assms(3) by (cases "n < e") (simp_all add: bit_drop_bit_eq bit_of_int_iff)
  moreover have "bit (push_bit e (word_of_int b :: u64)) n \<longleftrightarrow> e \<le> n \<and> bit b (n - e)"
    using n by (auto simp: bit_push_bit_iff bit_of_int_iff)
  moreover have "bit (word_of_int (drop_bit j v) :: u64) n \<longleftrightarrow> bit v (j + n)"
    using n by (simp add: bit_of_int_iff bit_drop_bit_eq)
  ultimately show "bit (drop_bit d (word_of_int a :: u64) OR push_bit e (word_of_int b)) n =
      bit (word_of_int (drop_bit j v) :: u64) n"
    using v [OF n] by (auto simp: bit_or_iff)
qed

lemma fe_pack_ok:
  assumes "fe_canon t"
  shows "fe_pack t = le_bytes 32 (nat (fe_val t))"
proof -
  obtain t0 t1 t2 t3 t4 where T: "t = Fe t0 t1 t2 t3 t4" by (cases t)
  have b: "0 \<le> t0" "t0 < 2 ^ 51" "0 \<le> t1" "t1 < 2 ^ 51" "0 \<le> t2" "t2 < 2 ^ 51" "0 \<le> t3" "t3 < 2 ^ 51"
      "0 \<le> t4" "t4 < 2 ^ 51"
    using assms by (simp_all add: T)
  define v where "v = t0 + 2 ^ 51 * (t1 + 2 ^ 51 * (t2 + 2 ^ 51 * (t3 + 2 ^ 51 * t4)))"
  have v: "fe_val t = v" by (simp add: T v_def)
  have bv: "bit v m \<longleftrightarrow> (if m < 51 then bit t0 m else if m < 102 then bit t1 (m - 51)
      else if m < 153 then bit t2 (m - 102) else if m < 204 then bit t3 (m - 153) else bit t4 (m - 204))" for m
  proof -
    have less: "m - k < 51 \<longleftrightarrow> m < 51 + k" if "k \<le> m" for k using that by (rule less_diff_conv2)
    show ?thesis
      unfolding v_def bit_limb_cons [OF b(1,2)] bit_limb_cons [OF b(3,4)] bit_limb_cons [OF b(5,6)]
        bit_limb_cons [OF b(7,8)] diff_diff_left
      using less [of 51] less [of 102] less [of 153] by (cases "m < 51"; cases "m < 102"; cases "m < 153") simp_all
  qed
  have "word_of_int t0 OR push_bit 51 (word_of_int t1) = (word_of_int (drop_bit 0 v) :: u64)"
    using pack_straddle [OF b(1,2), of 0 51 v 0 t1] by (simp add: bv)
  moreover have "drop_bit 13 (word_of_int t1) OR push_bit 38 (word_of_int t2) = (word_of_int (drop_bit 64 v) :: u64)"
    using b(3,4) by (rule pack_straddle) (auto simp: bv)
  moreover have "drop_bit 26 (word_of_int t2) OR push_bit 25 (word_of_int t3) = (word_of_int (drop_bit 128 v) :: u64)"
    using b(5,6) by (rule pack_straddle) (auto simp: bv)
  moreover have "drop_bit 39 (word_of_int t3) OR push_bit 12 (word_of_int t4) = (word_of_int (drop_bit 192 v) :: u64)"
    using b(7,8) by (rule pack_straddle) (auto simp: bv)
  moreover have "0 \<le> v" using fe_canon_bound(1) [OF assms] by (simp add: v)
  ultimately show ?thesis
    using bytes8_of_int [of v 0] bytes8_of_int [of v 1] bytes8_of_int [of v 2] bytes8_of_int [of v 3]
    unfolding T fe_pack.simps le_bytes_32 v [unfolded T] by simp
qed

lemma fe_tobytes_ok:
  assumes "fe_upto (2 ^ 54) h"
  shows "fe_tobytes h = le_bytes 32 (nat (fe_val h mod p25519))"
proof -
  note c = fe_carry_twice [OF assms]
  have "fe_val (fe_trial (fe_carry (fe_carry h))) = fe_val h mod p25519"
    using fe_trial_ok(2) [OF c(1)] c(2) by (simp only: eqp_def)
  then show ?thesis
    unfolding fe_tobytes_def by (simp only: fe_pack_ok [OF fe_trial_ok(1) [OF c(1)]])
qed

lemma residue_bounds: "0 \<le> x mod p25519" "x mod p25519 < p25519" "nat (x mod p25519) < 2 ^ 255"
proof -
  show b: "0 \<le> x mod p25519" "x mod p25519 < p25519" by simp_all
  then have "x mod p25519 < 2 ^ 255" by (simp add: p25519_def)
  with b(1) show "nat (x mod p25519) < 2 ^ 255" by simp
qed

lemma le_val_residue: "le_val (le_bytes 32 (nat (x mod p25519))) = nat (x mod p25519)"
proof -
  have "nat (x mod p25519) < 256 ^ 32" using residue_bounds(3) [of x] by simp
  then show ?thesis by (simp only: le_val_le_bytes mod_less)
qed

lemma fold_or_zero: "fold (\<lambda>b r. r OR b) bs r = (0 :: u8) \<longleftrightarrow> r = 0 \<and> (\<forall>b\<in>set bs. b = 0)"
proof (induction bs arbitrary: r)
  case (Cons b bs)
  have "r OR b = 0 \<longleftrightarrow> r = 0 \<and> b = 0" by (auto simp: bit_eq_iff bit_or_iff)
  then show ?case using Cons by auto
qed simp

lemma le_val_zero: "le_val bs = 0 \<longleftrightarrow> (\<forall>b\<in>set bs. b = 0)"
  by (induction bs) (auto simp: unat_eq_0)

lemma fe_isnonzero_ok:
  assumes "fe_upto (2 ^ 54) f"
  shows "fe_isnonzero f \<longleftrightarrow> \<not> eqp (fe_val f) 0"
proof -
  have "fe_isnonzero f \<longleftrightarrow> le_val (fe_tobytes f) \<noteq> 0"
    by (simp add: fe_isnonzero_def fold_or_zero le_val_zero)
  also have "\<dots> \<longleftrightarrow> fe_val f mod p25519 \<noteq> 0"
    unfolding fe_tobytes_ok [OF assms] le_val_residue using residue_bounds(1) [of "fe_val f"] by linarith
  finally show ?thesis by (simp add: eqp_def)
qed

lemma fe_isneg_ok:
  assumes "fe_upto (2 ^ 54) f"
  shows "fe_isneg f = (if odd (fe_val f mod p25519) then 1 else 0)"
proof -
  have "fe_tobytes f ! 0 = word_of_nat (nat (fe_val f mod p25519))"
    by (simp add: fe_tobytes_ok [OF assms] le_bytes_nth)
  moreover have "(word_of_nat n AND 1 :: u8) = (if odd n then 1 else 0)" for n
    by (simp add: and_one_eq even_of_nat_iff mod_2_eq_odd)
  moreover have "odd (nat (fe_val f mod p25519)) \<longleftrightarrow> odd (fe_val f mod p25519)"
    by (simp add: even_nat_iff)
  ultimately show ?thesis by (simp only: fe_isneg_def)
qed

lemma fe_cmov_ok: "fe_cmov f g 1 = g" "fe_cmov f g 0 = f"
  by (cases f; cases g; simp add: s64_small xor.assoc [symmetric])+

subsection \<open>Exponentiation\<close>

definition fe_pow_of :: "nat \<Rightarrow> fe \<Rightarrow> fe \<Rightarrow> bool" where
  "fe_pow_of e z r \<longleftrightarrow> fe_upto (2 ^ 54) r \<and> eqp (fe_val r) (fe_val z ^ e)"

lemma fe_pow_of_mul: "fe_pow_of a z x \<Longrightarrow> fe_pow_of b z y \<Longrightarrow> fe_pow_of (a + b) z (fe_mul x y)"
  unfolding fe_pow_of_def power_add
  by (blast intro: fe_reduced_wide fe_mul_ok(1) eqp_trans [OF fe_mul_ok(2)] eqp_mult)

lemma fe_pow_of_sq: "fe_pow_of a z x \<Longrightarrow> fe_pow_of (2 * a) z (fe_sq x)"
  unfolding fe_sq_def mult_2 by (rule fe_pow_of_mul)

lemma fe_pow_of_sqs: "fe_pow_of a z x \<Longrightarrow> fe_pow_of (2 ^ n * a) z ((fe_sq ^^ n) x)"
proof (induction n)
  case (Suc n)
  then show ?case using fe_pow_of_sq [of "2 ^ n * a" z "(fe_sq ^^ n) x"] by (simp add: mult.assoc)
qed simp

lemma fe_copy_id [simp]: "fe_copy f = f"
  by (cases f) simp

lemma fe_pow_of_ones:
  assumes "fe_pow_of (2 ^ a - 1) z x" "fe_pow_of (2 ^ b - 1) z y"
  shows "fe_pow_of (2 ^ (a + b) - 1) z (fe_mul ((fe_sq ^^ b) x) y)"
proof -
  have "2 ^ b * (2 ^ a - 1) + (2 ^ b - 1) = 2 ^ (a + b) - (1 :: nat)"
    by (simp add: power_add algebra_simps)
  then show ?thesis using fe_pow_of_mul [OF fe_pow_of_sqs [OF assms(1), of b] assms(2)] by metis
qed

lemma fe_chain_ok:
  assumes "fe_upto (2 ^ 54) z"
  shows "fe_pow_of (2 ^ 250 - 1) z (fst (fe_chain z))" "fe_pow_of 11 z (snd (fe_chain z))"
proof -
  define z2 where "z2 = fe_sq z"
  define z8 where "z8 = fe_sq (fe_sq z2)"
  define z9 where "z9 = fe_mul z8 z"
  define z11 where "z11 = fe_mul z9 z2"
  define z5 where "z5 = fe_mul (fe_sq z11) z9"
  define z10 where "z10 = fe_mul ((fe_sq ^^ 5) z5) z5"
  define z20 where "z20 = fe_mul ((fe_sq ^^ 10) z10) z10"
  define z40 where "z40 = fe_mul ((fe_sq ^^ 20) z20) z20"
  define z50 where "z50 = fe_mul ((fe_sq ^^ 10) z40) z10"
  define z100 where "z100 = fe_mul ((fe_sq ^^ 50) z50) z50"
  define z200 where "z200 = fe_mul ((fe_sq ^^ 100) z100) z100"
  define z250 where "z250 = fe_mul ((fe_sq ^^ 50) z200) z50"
  have c: "fe_chain z = (z250, z11)"
    unfolding fe_chain_def Let_def fe_copy_id z250_def z200_def z100_def z50_def z40_def z20_def z10_def z5_def
      z11_def z9_def z8_def z2_def ..
  have p1: "fe_pow_of 1 z z" using assms by (simp add: fe_pow_of_def)
  have p2: "fe_pow_of 2 z z2" unfolding z2_def using fe_pow_of_sq [OF p1] by simp
  have p8: "fe_pow_of 8 z z8" unfolding z8_def using fe_pow_of_sq [OF fe_pow_of_sq [OF p2]] by simp
  have p9: "fe_pow_of 9 z z9" unfolding z9_def using fe_pow_of_mul [OF p8 p1] by simp
  have p11: "fe_pow_of 11 z z11" unfolding z11_def using fe_pow_of_mul [OF p9 p2] by simp
  have p5: "fe_pow_of (2 ^ 5 - 1) z z5"
    unfolding z5_def using fe_pow_of_mul [OF fe_pow_of_sq [OF p11] p9] by simp
  have p10: "fe_pow_of (2 ^ 10 - 1) z z10" unfolding z10_def using fe_pow_of_ones [OF p5 p5] by simp
  have p20: "fe_pow_of (2 ^ 20 - 1) z z20" unfolding z20_def using fe_pow_of_ones [OF p10 p10] by simp
  have p40: "fe_pow_of (2 ^ 40 - 1) z z40" unfolding z40_def using fe_pow_of_ones [OF p20 p20] by simp
  have p50: "fe_pow_of (2 ^ 50 - 1) z z50" unfolding z50_def using fe_pow_of_ones [OF p40 p10] by simp
  have p100: "fe_pow_of (2 ^ 100 - 1) z z100" unfolding z100_def using fe_pow_of_ones [OF p50 p50] by simp
  have p200: "fe_pow_of (2 ^ 200 - 1) z z200" unfolding z200_def using fe_pow_of_ones [OF p100 p100] by simp
  have "fe_pow_of (2 ^ 250 - 1) z z250" unfolding z250_def using fe_pow_of_ones [OF p200 p50] by simp
  then show "fe_pow_of (2 ^ 250 - 1) z (fst (fe_chain z))" "fe_pow_of 11 z (snd (fe_chain z))"
    using p11 by (simp_all only: c fst_conv snd_conv)
qed

lemma fe_powers_ok:
  assumes "fe_upto (2 ^ 54) z"
  shows "fe_reduced (fe_invert z)" "eqp (fe_val (fe_invert z)) (fe_val z ^ (2 ^ 255 - 21))"
    and "fe_reduced (fe_pow2523 z)" "eqp (fe_val (fe_pow2523 z)) (fe_val z ^ (2 ^ 252 - 3))"
proof -
  obtain t u where c: "fe_chain z = (t, u)" by (cases "fe_chain z")
  have t: "fe_pow_of (2 ^ 250 - 1) z t" and u: "fe_pow_of 11 z u"
    using fe_chain_ok [OF assms] unfolding c fst_conv snd_conv by blast+
  have z: "fe_pow_of 1 z z" using assms by (simp add: fe_pow_of_def)
  have e: "2 ^ 5 * (2 ^ 250 - 1) + 11 = 2 ^ 255 - (21 :: nat)" "2 ^ 2 * (2 ^ 250 - 1) + 1 = 2 ^ 252 - (3 :: nat)"
    by simp_all
  have "fe_pow_of (2 ^ 255 - 21) z (fe_invert z)"
    unfolding fe_invert_def c Let_def prod.case e(1) [symmetric] by (rule fe_pow_of_mul [OF fe_pow_of_sqs [OF t] u])
  then show "eqp (fe_val (fe_invert z)) (fe_val z ^ (2 ^ 255 - 21))" unfolding fe_pow_of_def by blast
  have "fe_pow_of (2 ^ 252 - 3) z (fe_pow2523 z)"
    unfolding fe_pow2523_def c Let_def prod.case e(2) [symmetric] fe_copy_id
    by (rule fe_pow_of_mul [OF fe_pow_of_sqs [OF t] z])
  then show "eqp (fe_val (fe_pow2523 z)) (fe_val z ^ (2 ^ 252 - 3))" unfolding fe_pow_of_def by blast
  show "fe_reduced (fe_invert z)" "fe_reduced (fe_pow2523 z)"
    using fe_pow_of_sqs [OF t, of 5] fe_pow_of_sqs [OF t, of 2] u assms unfolding fe_invert_def fe_pow2523_def c Let_def prod.case fe_copy_id
    by (auto simp only: fe_pow_of_def intro!: fe_mul_ok(1))
qed

section \<open>Properties\<close>

lemma tobytes_cong:
  assumes "fe_upto (2 ^ 54) h" "eqp (fe_val h) v"
  shows "fe_tobytes h = le_bytes 32 (nat (v mod p25519))"
  using fe_tobytes_ok [OF assms(1)] assms(2) by (simp only: eqp_def)

lemma fe_reduced_small: "fe_reduced g \<Longrightarrow> fe_val g \<le> 2 * p25519"
  by (cases g) (simp add: p25519_def)

lemma fe_sub_reduced:
  assumes "fe_upto (2 ^ 54) f" "fe_reduced g"
  shows "fe_reduced (fe_sub f g)"
proof -
  have "0 \<le> fe_val f" using assms(1) by (cases f) simp
  then show ?thesis
    using fe_sub_ok(2) [OF assms(1) fe_reduced_wide [OF assms(2)]] fe_reduced_small [OF assms(2)] by linarith
qed

text \<open>
  C18. On any two 32-byte strings, decoding, one field operation and encoding give the canonical
  little-endian residue modulo \<open>2 ^ 255 - 19\<close> of the same operation on integers: product, square,
  sum, difference and opposite.
\<close>

theorem field_operations_correct:
  assumes "length a = 32" "length b = 32"
  shows "fe_tobytes (fe_mul (fe_frombytes a) (fe_frombytes b)) =
      le_bytes 32 (nat (int (le_val a mod 2 ^ 255) * int (le_val b mod 2 ^ 255) mod p25519)) \<and>
    fe_tobytes (fe_add (fe_frombytes a) (fe_frombytes b)) =
      le_bytes 32 (nat ((int (le_val a mod 2 ^ 255) + int (le_val b mod 2 ^ 255)) mod p25519)) \<and>
    fe_tobytes (fe_sub (fe_frombytes a) (fe_frombytes b)) =
      le_bytes 32 (nat ((int (le_val a mod 2 ^ 255) - int (le_val b mod 2 ^ 255)) mod p25519)) \<and>
    fe_tobytes (fe_neg (fe_frombytes a)) = le_bytes 32 (nat ((- int (le_val a mod 2 ^ 255)) mod p25519))"
proof -
  note r = fe_frombytes_reduced [OF assms(1)] fe_frombytes_reduced [OF assms(2)]
  note w = fe_reduced_wide [OF r(1)] fe_reduced_wide [OF r(2)]
  note v = fe_frombytes_ok(2) [OF assms(1)] fe_frombytes_ok(2) [OF assms(2)]
  have z: "fe_upto (2 ^ 54) fe_0" "fe_val fe_0 = 0" by (simp_all add: fe_0_def)
  have "fe_tobytes (fe_mul (fe_frombytes a) (fe_frombytes b)) =
      le_bytes 32 (nat (int (le_val a mod 2 ^ 255) * int (le_val b mod 2 ^ 255) mod p25519))"
    by (rule tobytes_cong [OF fe_reduced_wide [OF fe_mul_ok(1) [OF w]] fe_mul_ok(2) [OF w, unfolded v]])
  moreover have "fe_tobytes (fe_add (fe_frombytes a) (fe_frombytes b)) =
      le_bytes 32 (nat ((int (le_val a mod 2 ^ 255) + int (le_val b mod 2 ^ 255)) mod p25519))"
  proof (rule tobytes_cong)
    have s: "(2 ^ 51 - 1) + (2 ^ 51 - 1) < (2 ^ 63 :: int)" by simp
    note k = fe_add_ok [OF fe_frombytes_ok(1) [OF assms(1)] fe_frombytes_ok(1) [OF assms(2)] s]
    show "fe_upto (2 ^ 54) (fe_add (fe_frombytes a) (fe_frombytes b))" by (rule fe_upto_mono [OF k(2)]) simp
    show "eqp (fe_val (fe_add (fe_frombytes a) (fe_frombytes b))) (int (le_val a mod 2 ^ 255) + int (le_val b mod 2 ^ 255))"
      unfolding k(1) v ..
  qed
  moreover have "fe_tobytes (fe_sub (fe_frombytes a) (fe_frombytes b)) =
      le_bytes 32 (nat ((int (le_val a mod 2 ^ 255) - int (le_val b mod 2 ^ 255)) mod p25519))"
    by (rule tobytes_cong [OF fe_reduced_wide [OF fe_sub_reduced [OF w(1) r(2)]] fe_sub_ok(1) [OF w, unfolded v]])
  moreover have "fe_tobytes (fe_neg (fe_frombytes a)) = le_bytes 32 (nat ((- int (le_val a mod 2 ^ 255)) mod p25519))"
    unfolding fe_neg_def
    by (rule tobytes_cong [OF fe_reduced_wide [OF fe_sub_reduced [OF z(1) r(1)]]
          fe_sub_ok(1) [OF z(1) w(1), unfolded v z(2) diff_0]])
  ultimately show ?thesis by blast
qed

definition bytes_five :: bytes where
  "bytes_five = 5 # replicate 31 0"

lemma bytes_five [simp]: "length bytes_five = 32" "le_val bytes_five = 5"
  by (simp_all add: bytes_five_def)

theorem field_operations_correct_witness:
  "fe_tobytes (fe_mul (fe_frombytes bytes_five) (fe_frombytes bytes_five)) = le_bytes 32 25 \<and>
   fe_tobytes (fe_neg (fe_frombytes bytes_five)) = le_bytes 32 (2 ^ 255 - 24)"
  using field_operations_correct [of bytes_five bytes_five] by (simp add: p25519_def)

text \<open>
  C19. The inversion and the exponentiation of the square root compute, for every 32-byte string, the
  powers \<open>p - 2\<close> and \<open>(p - 5) / 8\<close> of its residue, in canonical form.
\<close>

theorem field_powers_correct:
  assumes "length a = 32"
  shows "fe_tobytes (fe_invert (fe_frombytes a)) =
      le_bytes 32 (nat (int (le_val a mod 2 ^ 255) ^ nat (p25519 - 2) mod p25519)) \<and>
    fe_tobytes (fe_pow2523 (fe_frombytes a)) =
      le_bytes 32 (nat (int (le_val a mod 2 ^ 255) ^ nat ((p25519 - 5) div 8) mod p25519))"
proof -
  note v = fe_frombytes_ok(2) [OF assms]
  note k = fe_powers_ok [OF fe_reduced_wide [OF fe_frombytes_reduced [OF assms]], unfolded v]
  have e: "nat (p25519 - 2) = 2 ^ 255 - 21" "nat ((p25519 - 5) div 8) = 2 ^ 252 - 3"
    by (simp_all add: p25519_def)
  show ?thesis
    unfolding e using tobytes_cong [OF fe_reduced_wide [OF k(1)] k(2)] tobytes_cong [OF fe_reduced_wide [OF k(3)] k(4)]
    by blast
qed

theorem field_powers_correct_witness:
  "fe_tobytes (fe_invert (fe_frombytes bytes_five)) = le_bytes 32 (nat (5 ^ nat (p25519 - 2) mod p25519))"
  using conjunct1 [OF field_powers_correct [of bytes_five, OF bytes_five(1)]] unfolding bytes_five(2)
  by (simp only: mod_less) simp

text \<open>
  Encoding after decoding is the identity on canonical strings, and the two decision functions of
  the field read the decoded value: non-zero, and the parity of the residue.
\<close>

theorem field_encoding_roundtrip:
  assumes "length a = 32" "int (le_val a) < p25519"
  shows "fe_tobytes (fe_frombytes a) = a \<and>
    (fe_isnonzero (fe_frombytes a) \<longleftrightarrow> le_val a \<noteq> 0) \<and>
    fe_isneg (fe_frombytes a) = (if odd (le_val a) then 1 else 0)"
proof -
  note w = fe_reduced_wide [OF fe_frombytes_reduced [OF assms(1)]]
  have "le_val a < 2 ^ 255" using assms(2) by (simp add: p25519_def)
  then have v: "fe_val (fe_frombytes a) = int (le_val a)" using fe_frombytes_ok(2) [OF assms(1)] by (simp only: mod_less)
  have m: "int (le_val a) mod p25519 = int (le_val a)" using assms(2) by (simp only: mod_pos_pos_trivial of_nat_0_le_iff)
  have "fe_tobytes (fe_frombytes a) = a"
    unfolding fe_tobytes_ok [OF w] v m nat_int using le_bytes_le_val [of a] by (simp only: assms(1))
  then show ?thesis
    unfolding fe_isnonzero_ok [OF w] fe_isneg_ok [OF w] v eqp_def m by simp
qed

theorem field_encoding_roundtrip_witness:
  "fe_tobytes (fe_frombytes bytes_five) = bytes_five \<and> fe_isneg (fe_frombytes bytes_five) = 1"
  using field_encoding_roundtrip [of bytes_five] by (simp add: p25519_def)

definition sub_operand :: fe where
  "sub_operand = Fe (2 ^ 51 - 1) (2 ^ 51) (2 ^ 51 - 1) (2 ^ 51 - 1) (2 ^ 51 - 1)"

text \<open>
  Subtraction does not always avoid the underflow: with a doubled product as subtrahend (every limb
  of the factor within what multiplication returns) its lowest limb can be negative, and multiplying
  that difference by one no longer gives its residue.
\<close>

theorem subtraction_underflows:
  "fe_reduced sub_operand \<and>
   fe_sub (Fe 36 0 0 0 0) (fe_add sub_operand sub_operand) = Fe (-19) (2 ^ 51 - 2) (2 ^ 51 - 1) (2 ^ 51 - 1) (2 ^ 51 - 1) \<and>
   \<not> eqp (fe_val (fe_mul (fe_sub (Fe 36 0 0 0 0) (fe_add sub_operand sub_operand)) fe_1))
         (fe_val (fe_sub (Fe 36 0 0 0 0) (fe_add sub_operand sub_operand)))"
  unfolding eqp_def p25519_def by code_simp

end
