(* ===== verification/Scalar25519.thy ===== *)
theory Scalar25519
  imports Field25519
begin

text \<open>
  The scalar arithmetic of \<^verbatim>\<open>store/verify.c\<close>: \<^verbatim>\<open>sc_reduce\<close> brings a 64-byte
  number below the group order with 24 signed limbs of 21 bits, \<^verbatim>\<open>sc_is_canonical\<close> compares a
  32-byte number with the order. The straight-line code of \<^verbatim>\<open>sc_reduce\<close> repeats three
  patterns, so the model names them as steps and runs the list of steps in the order of the source; every
  operation wraps as \<^verbatim>\<open>int64_t\<close>. An interval analysis that is proved sound shows that no
  step overflows and bounds the limbs at the end.
\<close>

section \<open>The code\<close>

definition ed25519_L :: bytes where
  "ed25519_L = [
     0xed, 0xd3, 0xf5, 0x5c, 0x1a, 0x63, 0x12, 0x58,
     0xd6, 0x9c, 0xf7, 0xa2, 0xde, 0xf9, 0xde, 0x14,
     0x00, 0x00, 0x00, 0x00, 0x00, 0x00, 0x00, 0x00,
     0x00, 0x00, 0x00, 0x00, 0x00, 0x00, 0x00, 0x10]"

definition sc_load3 :: "bytes \<Rightarrow> nat \<Rightarrow> u64" where
  "sc_load3 inp off = ucast (inp ! off) OR push_bit 8 (ucast (inp ! (off + 1))) OR
     push_bit 16 (ucast (inp ! (off + 2)))"

definition sc_load4 :: "bytes \<Rightarrow> nat \<Rightarrow> u64" where
  "sc_load4 inp off = ucast (inp ! off) OR push_bit 8 (ucast (inp ! (off + 1))) OR
     push_bit 16 (ucast (inp ! (off + 2))) OR push_bit 24 (ucast (inp ! (off + 3)))"

definition sc_limb :: "u64 \<Rightarrow> nat \<Rightarrow> int" where
  "sc_limb w sh = sint (2097151 AND drop_bit sh w)"

definition sc_load :: "bytes \<Rightarrow> int list" where
  "sc_load inp = [
     sc_limb (sc_load3 inp 0) 0, sc_limb (sc_load4 inp 2) 5, sc_limb (sc_load3 inp 5) 2,
     sc_limb (sc_load4 inp 7) 7, sc_limb (sc_load4 inp 10) 4, sc_limb (sc_load3 inp 13) 1,
     sc_limb (sc_load4 inp 15) 6, sc_limb (sc_load3 inp 18) 3, sc_limb (sc_load3 inp 21) 0,
     sc_limb (sc_load4 inp 23) 5, sc_limb (sc_load3 inp 26) 2, sc_limb (sc_load4 inp 28) 7,
     sc_limb (sc_load4 inp 31) 4, sc_limb (sc_load3 inp 34) 1, sc_limb (sc_load4 inp 36) 6,
     sc_limb (sc_load3 inp 39) 3, sc_limb (sc_load3 inp 42) 0, sc_limb (sc_load4 inp 44) 5,
     sc_limb (sc_load3 inp 47) 2, sc_limb (sc_load4 inp 49) 7, sc_limb (sc_load4 inp 52) 4,
     sc_limb (sc_load3 inp 55) 1, sc_limb (sc_load4 inp 57) 6, sint (drop_bit 3 (sc_load4 inp 60))]"

text \<open>
  \<open>Elim k\<close>: the six updates that replace limb \<open>k\<close> by its multiple of the order's tail, and the
  reset of that limb. \<open>Round i\<close>: the carry of limb \<open>i\<close> rounded to nearest. \<open>Floor i\<close>: the carry
  rounded down.
\<close>

datatype sc_step = Elim nat | Round nat | Floor nat

definition add_to :: "nat \<Rightarrow> int \<Rightarrow> int list \<Rightarrow> int list" where
  "add_to i d s = s[i := s64 (s ! i + d)]"

definition carry_out :: "nat \<Rightarrow> int \<Rightarrow> int list \<Rightarrow> int list" where
  "carry_out i c s = add_to i (- s64 (push_bit 21 c)) (add_to (i + 1) c s)"

fun sc_exec :: "sc_step \<Rightarrow> int list \<Rightarrow> int list" where
  "sc_exec (Elim k) s =
     (let x = s ! k;
          s = add_to (k - 12) (s64 (x * 666643)) s;
          s = add_to (k - 11) (s64 (x * 470296)) s;
          s = add_to (k - 10) (s64 (x * 654183)) s;
          s = add_to (k - 9) (- s64 (x * 997805)) s;
          s = add_to (k - 8) (s64 (x * 136657)) s;
          s = add_to (k - 7) (- s64 (x * 683901)) s
      in s[k := 0])"
| "sc_exec (Round i) s = carry_out i (drop_bit 21 (s64 (s ! i + 2 ^ 20))) s"
| "sc_exec (Floor i) s = carry_out i (drop_bit 21 (s ! i)) s"

definition sc_phase1 :: "sc_step list" where
  "sc_phase1 = map Elim [23, 22, 21, 20, 19, 18] @ map Round [6, 8, 10, 12, 14, 16] @ map Round [7, 9, 11, 13, 15]"

definition sc_phase2 :: "sc_step list" where
  "sc_phase2 = map Elim [17, 16, 15, 14, 13, 12] @ map Round [0, 2, 4, 6, 8, 10] @ map Round [1, 3, 5, 7, 9, 11] @
     [Elim 12] @ map Round [0, 2, 4, 6, 8, 10] @ map Floor [1, 3, 5, 7, 9]"

definition sc_phase3 :: "sc_step list" where
  "sc_phase3 = [Floor 11, Elim 12] @ map Floor [0, 1, 2, 3, 4, 5, 6, 7, 8, 9, 10]"

definition sc_pack :: "int list \<Rightarrow> bytes" where
  "sc_pack s =
     (let b = (\<lambda>i sh. word_of_int (drop_bit sh (s ! i)) :: u8);
          b2 = (\<lambda>i sh j lft. word_of_int (drop_bit sh (s ! i) OR push_bit lft (s ! j)) :: u8)
      in [b 0 0, b 0 8, b2 0 16 1 5, b 1 3, b 1 11, b2 1 19 2 2, b 2 6, b2 2 14 3 7,
          b 3 1, b 3 9, b2 3 17 4 4, b 4 4, b 4 12, b2 4 20 5 1, b 5 7, b2 5 15 6 6,
          b 6 2, b 6 10, b2 6 18 7 3, b 7 5, b 7 13, b 8 0, b 8 8, b2 8 16 9 5,
          b 9 3, b 9 11, b2 9 19 10 2, b 10 6, b2 10 14 11 7, b 11 1, b 11 9, b 11 17])"

definition sc_reduce :: "bytes \<Rightarrow> bytes" where
  "sc_reduce inp = sc_pack (fold sc_exec (sc_phase1 @ sc_phase2 @ sc_phase3) (sc_load inp))"

text \<open>The comparison runs from byte 31 down; \<open>sc_compare n\<close> looks at bytes \<open>n - 1\<close> to 0.\<close>

fun sc_compare :: "nat \<Rightarrow> bytes \<Rightarrow> bool" where
  "sc_compare 0 s = False"
| "sc_compare (Suc i) s =
     (if s ! i < ed25519_L ! i then True else if s ! i > ed25519_L ! i then False else sc_compare i s)"

definition sc_is_canonical :: "bytes \<Rightarrow> bool" where
  "sc_is_canonical s = sc_compare 32 s"

section \<open>The order and the value of limbs\<close>

definition order_L :: int where
  "order_L = 2 ^ 252 + 27742317777372353535851937790883648493"

lemma order_L_bytes: "int (le_val ed25519_L) = order_L"
  by (simp add: ed25519_L_def order_L_def)

fun sc_val :: "int list \<Rightarrow> int" where
  "sc_val [] = 0"
| "sc_val (x # xs) = x + 2 ^ 21 * sc_val xs"

lemma sc_val_update: "i < length s \<Longrightarrow> sc_val (s[i := v]) = sc_val s + (v - s ! i) * 2 ^ (21 * i)"
proof (induction s arbitrary: i)
  case (Cons x s)
  show ?case
  proof (cases i)
    case (Suc j)
    then have "sc_val (s[j := v]) = sc_val s + (v - s ! j) * 2 ^ (21 * j)" using Cons by simp
    then show ?thesis using Suc by (simp add: power_add algebra_simps)
  qed simp
qed simp

section \<open>Interval analysis\<close>

text \<open>An interval per limb; a step returns \<open>None\<close> when an operation may leave 64 bits.\<close>

type_synonym ivl = "int \<times> int"

definition in_ivl :: "ivl \<Rightarrow> int \<Rightarrow> bool" where
  "in_ivl b x \<longleftrightarrow> fst b \<le> x \<and> x \<le> snd b"

definition gamma :: "ivl list \<Rightarrow> int list \<Rightarrow> bool" where
  "gamma bs s \<longleftrightarrow> list_all2 in_ivl bs s"

definition fits :: "ivl \<Rightarrow> bool" where
  "fits b \<longleftrightarrow> - (2 ^ 63) \<le> fst b \<and> snd b < 2 ^ 63"

definition ivl_add :: "ivl \<Rightarrow> ivl \<Rightarrow> ivl" where
  "ivl_add a b = (fst a + fst b, snd a + snd b)"

definition ivl_neg :: "ivl \<Rightarrow> ivl" where
  "ivl_neg a = (- snd a, - fst a)"

definition ivl_scale :: "int \<Rightarrow> ivl \<Rightarrow> ivl" where
  "ivl_scale c a = (fst a * c, snd a * c)"

definition ivl_shift :: "ivl \<Rightarrow> ivl" where
  "ivl_shift a = (fst a div 2 ^ 21, snd a div 2 ^ 21)"

definition abs_add :: "nat \<Rightarrow> ivl \<Rightarrow> ivl list \<Rightarrow> ivl list option" where
  "abs_add i d bs =
     (if i < length bs \<and> fits (ivl_add (bs ! i) d) then Some (bs[i := ivl_add (bs ! i) d]) else None)"

definition abs_mul :: "nat \<Rightarrow> int \<Rightarrow> ivl \<Rightarrow> ivl list \<Rightarrow> ivl list option" where
  "abs_mul i c x bs = (if fits (ivl_scale c x) then abs_add i (ivl_scale c x) bs else None)"

definition abs_msub :: "nat \<Rightarrow> int \<Rightarrow> ivl \<Rightarrow> ivl list \<Rightarrow> ivl list option" where
  "abs_msub i c x bs = (if fits (ivl_scale c x) then abs_add i (ivl_neg (ivl_scale c x)) bs else None)"

definition abs_carry :: "nat \<Rightarrow> int \<Rightarrow> ivl \<Rightarrow> ivl list \<Rightarrow> ivl list option" where
  "abs_carry i k c bs =
     (if fits (ivl_scale (2 ^ 21) c) \<and> i + 1 < length bs
      then case abs_add (i + 1) c bs of None \<Rightarrow> None
           | Some bs' \<Rightarrow> Some (bs'[i := if - k \<le> fst (bs ! i) \<and> snd (bs ! i) < 2 ^ 21 - k then bs ! i else (- k, 2 ^ 21 - 1 - k)])
      else None)"

fun abs_exec :: "sc_step \<Rightarrow> ivl list \<Rightarrow> ivl list option" where
  "abs_exec (Elim k) bs =
     (if 12 \<le> k \<and> k < length bs
      then let x = bs ! k in
        Option.bind (abs_mul (k - 12) 666643 x bs) (\<lambda>bs.
        Option.bind (abs_mul (k - 11) 470296 x bs) (\<lambda>bs.
        Option.bind (abs_mul (k - 10) 654183 x bs) (\<lambda>bs.
        Option.bind (abs_msub (k - 9) 997805 x bs) (\<lambda>bs.
        Option.bind (abs_mul (k - 8) 136657 x bs) (\<lambda>bs.
        Option.bind (abs_msub (k - 7) 683901 x bs) (\<lambda>bs. Some (bs[k := (0, 0)])))))))
      else None)"
| "abs_exec (Round i) bs =
     (if i < length bs \<and> fits (ivl_add (bs ! i) (2 ^ 20, 2 ^ 20))
      then abs_carry i (2 ^ 20) (ivl_shift (ivl_add (bs ! i) (2 ^ 20, 2 ^ 20))) bs else None)"
| "abs_exec (Floor i) bs =
     (if i < length bs then abs_carry i 0 (ivl_shift (bs ! i)) bs else None)"

fun abs_run :: "sc_step list \<Rightarrow> ivl list \<Rightarrow> ivl list option" where
  "abs_run [] bs = Some bs"
| "abs_run (st # sts) bs = Option.bind (abs_exec st bs) (abs_run sts)"

definition ivl_load :: "ivl list" where
  "ivl_load = replicate 23 (0, 2097151) @ [(0, 536870911)]"

lemma gamma_nth: "gamma bs s \<Longrightarrow> i < length bs \<Longrightarrow> in_ivl (bs ! i) (s ! i)"
  by (simp add: gamma_def list_all2_nthD)

lemma gamma_length: "gamma bs s \<Longrightarrow> length s = length bs"
  by (simp add: gamma_def list_all2_lengthD)

lemma gamma_update: "gamma bs s \<Longrightarrow> in_ivl b x \<Longrightarrow> gamma (bs[i := b]) (s[i := x])"
  by (simp add: gamma_def list_all2_update_cong)

lemma fits_s64: "fits b \<Longrightarrow> in_ivl b x \<Longrightarrow> s64 x = x"
  by (auto simp: fits_def in_ivl_def intro: s64_id)

lemma in_ivl_add: "in_ivl a x \<Longrightarrow> in_ivl b y \<Longrightarrow> in_ivl (ivl_add a b) (x + y)"
  by (simp add: in_ivl_def ivl_add_def)

lemma in_ivl_neg: "in_ivl a x \<Longrightarrow> in_ivl (ivl_neg a) (- x)"
  by (simp add: in_ivl_def ivl_neg_def)

lemma in_ivl_scale: "0 \<le> c \<Longrightarrow> in_ivl a x \<Longrightarrow> in_ivl (ivl_scale c a) (x * c)"
  by (simp add: in_ivl_def ivl_scale_def mult_right_mono)

lemma in_ivl_shift: "in_ivl a x \<Longrightarrow> in_ivl (ivl_shift a) (drop_bit 21 x)"
  unfolding in_ivl_def ivl_shift_def fst_conv snd_conv drop_bit_eq_div by (blast intro: zdiv_mono1 zero_less_power zero_less_numeral)

text \<open>What one abstract addition says about the concrete one.\<close>

lemma abs_add_sound:
  assumes "gamma bs s" "in_ivl d y" "abs_add i d bs = Some bs'"
  shows "gamma bs' (add_to i y s)" "add_to i y s = s[i := s ! i + y]" "i < length s"
    "sc_val (add_to i y s) = sc_val s + y * 2 ^ (21 * i)"
proof -
  have i: "i < length bs" "fits (ivl_add (bs ! i) d)" "bs' = bs[i := ivl_add (bs ! i) d]"
    using assms(3) by (auto simp: abs_add_def split: if_splits)
  have v: "in_ivl (ivl_add (bs ! i) d) (s ! i + y)" by (intro in_ivl_add gamma_nth assms i)
  show e: "add_to i y s = s[i := s ! i + y]" by (simp add: add_to_def fits_s64 [OF i(2) v])
  show "gamma bs' (add_to i y s)" unfolding e i(3) by (rule gamma_update [OF assms(1) v])
  show l: "i < length s" using i(1) gamma_length [OF assms(1)] by simp
  show "sc_val (add_to i y s) = sc_val s + y * 2 ^ (21 * i)" unfolding e sc_val_update [OF l] by simp
qed

lemma abs_mul_sound:
  assumes "gamma bs s" "in_ivl b x" "abs_mul i c b bs = Some bs'" "0 \<le> c"
  shows "gamma bs' (add_to i (s64 (x * c)) s)" "add_to i (s64 (x * c)) s = s[i := s ! i + x * c]"
    "sc_val (add_to i (s64 (x * c)) s) = sc_val s + x * c * 2 ^ (21 * i)"
proof -
  have f: "fits (ivl_scale c b)" "abs_add i (ivl_scale c b) bs = Some bs'"
    using assms(3) by (auto simp: abs_mul_def split: if_splits)
  note v = in_ivl_scale [OF assms(4,2)]
  show "gamma bs' (add_to i (s64 (x * c)) s)" "add_to i (s64 (x * c)) s = s[i := s ! i + x * c]"
    "sc_val (add_to i (s64 (x * c)) s) = sc_val s + x * c * 2 ^ (21 * i)"
    unfolding fits_s64 [OF f(1) v] by (rule abs_add_sound [OF assms(1) v f(2)])+
qed

lemma abs_msub_sound:
  assumes "gamma bs s" "in_ivl b x" "abs_msub i c b bs = Some bs'" "0 \<le> c"
  shows "gamma bs' (add_to i (- s64 (x * c)) s)" "add_to i (- s64 (x * c)) s = s[i := s ! i + - (x * c)]"
    "sc_val (add_to i (- s64 (x * c)) s) = sc_val s + - (x * c) * 2 ^ (21 * i)"
proof -
  have f: "fits (ivl_scale c b)" "abs_add i (ivl_neg (ivl_scale c b)) bs = Some bs'"
    using assms(3) by (auto simp: abs_msub_def split: if_splits)
  note v = in_ivl_scale [OF assms(4,2)]
  show "gamma bs' (add_to i (- s64 (x * c)) s)" "add_to i (- s64 (x * c)) s = s[i := s ! i + - (x * c)]"
    "sc_val (add_to i (- s64 (x * c)) s) = sc_val s + - (x * c) * 2 ^ (21 * i)"
    unfolding fits_s64 [OF f(1) v] by (rule abs_add_sound [OF assms(1) in_ivl_neg [OF v] f(2)])+
qed

lemma elim_sound:
  assumes g: "gamma bs s" and a: "abs_exec (Elim k) bs = Some bs'"
  shows "gamma bs' (sc_exec (Elim k) s)" "sc_val (sc_exec (Elim k) s) = sc_val s - s ! k * 2 ^ (21 * (k - 12)) * order_L"
proof -
  define x where "x = s ! k"
  have k: "12 \<le> k" "k < length bs" using a by (auto split: if_splits)
  have x: "in_ivl (bs ! k) x" unfolding x_def by (rule gamma_nth [OF g k(2)])
  obtain b1 b2 b3 b4 b5 b6 where b:
    "abs_mul (k - 12) 666643 (bs ! k) bs = Some b1" "abs_mul (k - 11) 470296 (bs ! k) b1 = Some b2"
    "abs_mul (k - 10) 654183 (bs ! k) b2 = Some b3" "abs_msub (k - 9) 997805 (bs ! k) b3 = Some b4"
    "abs_mul (k - 8) 136657 (bs ! k) b4 = Some b5" "abs_msub (k - 7) 683901 (bs ! k) b5 = Some b6" "bs' = b6[k := (0, 0)]"
    using a k by (auto simp: Let_def bind_eq_Some_conv)
  define s1 where "s1 = add_to (k - 12) (s64 (x * 666643)) s"
  define s2 where "s2 = add_to (k - 11) (s64 (x * 470296)) s1"
  define s3 where "s3 = add_to (k - 10) (s64 (x * 654183)) s2"
  define s4 where "s4 = add_to (k - 9) (- s64 (x * 997805)) s3"
  define s5 where "s5 = add_to (k - 8) (s64 (x * 136657)) s4"
  define s6 where "s6 = add_to (k - 7) (- s64 (x * 683901)) s5"
  note r1 = abs_mul_sound [OF g x b(1), folded s1_def, simplified]
  note r2 = abs_mul_sound [OF r1(1) x b(2), folded s2_def, simplified]
  note r3 = abs_mul_sound [OF r2(1) x b(3), folded s3_def, simplified]
  note r4 = abs_msub_sound [OF r3(1) x b(4), folded s4_def, simplified]
  note r5 = abs_mul_sound [OF r4(1) x b(5), folded s5_def, simplified]
  note r6 = abs_msub_sound [OF r5(1) x b(6), folded s6_def, simplified]
  have e: "sc_exec (Elim k) s = s6[k := 0]"
    by (simp add: Let_def s6_def s5_def s4_def s3_def s2_def s1_def x_def)
  show "gamma bs' (sc_exec (Elim k) s)"
    unfolding e b(7) by (rule gamma_update [OF r6(1)]) (simp add: in_ivl_def)
  have "s6 ! k = x" using k(1) unfolding r6(2) r5(2) r4(2) r3(2) r2(2) r1(2) x_def by simp
  moreover have "k < length s6" using gamma_length [OF r6(1)] gamma_length [OF g] k(2) r6(2) r5(2) r4(2) r3(2) r2(2) r1(2)
    by simp
  ultimately have "sc_val (sc_exec (Elim k) s) = sc_val s6 - x * 2 ^ (21 * k)"
    unfolding e by (simp add: sc_val_update)
  moreover obtain j where j: "k = j + 12" using k(1) by (metis add.commute le_Suc_ex)
  ultimately show "sc_val (sc_exec (Elim k) s) = sc_val s - s ! k * 2 ^ (21 * (k - 12)) * order_L"
    unfolding r6(3) r5(3) r4(3) r3(3) r2(3) r1(3) x_def [symmetric]
    by (simp add: order_L_def power_add algebra_simps)
qed

lemma carry_sound:
  assumes g: "gamma bs s" and c: "in_ivl b c" and a: "abs_carry i k b bs = Some bs'"
    and q: "c = (s ! i + k) div 2 ^ 21" and k: "0 \<le> k" "k < 2 ^ 21"
  shows "gamma bs' (carry_out i c s)" "sc_val (carry_out i c s) = sc_val s"
proof -
  obtain b1 where b: "fits (ivl_scale (2 ^ 21) b)" "i + 1 < length bs" "abs_add (i + 1) b bs = Some b1"
    "bs' = b1[i := if - k \<le> fst (bs ! i) \<and> snd (bs ! i) < 2 ^ 21 - k then bs ! i else (- k, 2 ^ 21 - 1 - k)]"
    using a by (auto simp: abs_carry_def split: if_splits option.splits)
  note r = abs_add_sound [OF g c b(3)]
  have "in_ivl (ivl_scale (2 ^ 21) b) (c * 2 ^ 21)" by (rule in_ivl_scale [OF _ c]) simp
  then have p: "s64 (push_bit 21 c) = c * 2 ^ 21" using fits_s64 [OF b(1)] by (simp add: push_bit_eq_mult)
  define y where "y = s ! i - c * 2 ^ 21"
  have m: "y = (s ! i + k) mod 2 ^ 21 - k" unfolding y_def q by (simp add: minus_div_mult_eq_mod [symmetric])
  have "- k \<le> y" "y \<le> 2 ^ 21 - 1 - k" unfolding m by simp_all
  moreover have "y = s ! i" if "- k \<le> fst (bs ! i)" "snd (bs ! i) < 2 ^ 21 - k"
  proof -
    have "in_ivl (bs ! i) (s ! i)" by (rule gamma_nth [OF g]) (use b(2) in simp)
    then have "0 \<le> s ! i + k" "s ! i + k < 2 ^ 21" using that by (auto simp: in_ivl_def)
    then have "c = 0" unfolding q by (rule div_pos_pos_trivial)
    then show ?thesis by (simp add: y_def)
  qed
  ultimately have iy: "in_ivl (if - k \<le> fst (bs ! i) \<and> snd (bs ! i) < 2 ^ 21 - k then bs ! i else (- k, 2 ^ 21 - 1 - k)) y"
    using gamma_nth [OF g, of i] b(2) by (auto simp: in_ivl_def)
  have s: "s64 y = y"
  proof (rule s64_id)
    show "- (2 ^ 63) \<le> y" using \<open>- k \<le> y\<close> k by simp
    show "y < 2 ^ 63" using \<open>y \<le> 2 ^ 21 - 1 - k\<close> k by simp
  qed
  have n: "add_to (i + 1) c s ! i = s ! i" unfolding r(2) by simp
  have e: "carry_out i c s = (add_to (i + 1) c s)[i := y]"
    unfolding carry_out_def p add_to_def [of i] n using s by (simp add: y_def)
  show "gamma bs' (carry_out i c s)" unfolding e b(4) by (rule gamma_update [OF r(1) iy])
  have "i < length (add_to (i + 1) c s)" using r(2,3) by simp
  then have "sc_val (carry_out i c s) = sc_val s + c * 2 ^ (21 * (i + 1)) + (y - s ! i) * 2 ^ (21 * i)"
    unfolding e by (simp only: sc_val_update r(4) n)
  then show "sc_val (carry_out i c s) = sc_val s" by (simp add: y_def power_add algebra_simps)
qed

lemma exec_sound:
  assumes g: "gamma bs s" and a: "abs_exec st bs = Some bs'"
  shows "gamma bs' (sc_exec st s) \<and> sc_val (sc_exec st s) mod order_L = sc_val s mod order_L"
proof (cases st)
  case (Elim k)
  note r = elim_sound [OF g a [unfolded Elim]]
  have "(sc_val s - s ! k * 2 ^ (21 * (k - 12)) * order_L) mod order_L = sc_val s mod order_L"
    by (simp add: mod_diff_eq [symmetric, of _ "_ * order_L"])
  then show ?thesis unfolding Elim using r by (simp only: simp_thms)
next
  case (Round i)
  have i: "i < length bs" "fits (ivl_add (bs ! i) (2 ^ 20, 2 ^ 20))"
      "abs_carry i (2 ^ 20) (ivl_shift (ivl_add (bs ! i) (2 ^ 20, 2 ^ 20))) bs = Some bs'"
    using a unfolding Round by (auto split: if_splits)
  have v: "in_ivl (ivl_add (bs ! i) (2 ^ 20, 2 ^ 20)) (s ! i + 2 ^ 20)"
    by (rule in_ivl_add [OF gamma_nth [OF g i(1)]]) (simp add: in_ivl_def)
  have e: "drop_bit 21 (s ! i + 2 ^ 20) = (s ! i + 2 ^ 20) div 2 ^ 21" by (rule drop_bit_eq_div)
  show ?thesis
    unfolding Round sc_exec.simps fits_s64 [OF i(2) v]
    using carry_sound [OF g in_ivl_shift [OF v] i(3) e] by simp
next
  case (Floor i)
  have i: "i < length bs" "abs_carry i 0 (ivl_shift (bs ! i)) bs = Some bs'"
    using a unfolding Floor by (auto split: if_splits)
  have e: "drop_bit 21 (s ! i) = (s ! i + 0) div 2 ^ 21" by (simp add: drop_bit_eq_div)
  show ?thesis
    unfolding Floor sc_exec.simps using carry_sound [OF g in_ivl_shift [OF gamma_nth [OF g i(1)]] i(2) e] by simp
qed

lemma run_sound:
  "gamma bs s \<Longrightarrow> abs_run sts bs = Some bs' \<Longrightarrow>
    gamma bs' (fold sc_exec sts s) \<and> sc_val (fold sc_exec sts s) mod order_L = sc_val s mod order_L"
proof (induction sts arbitrary: bs s)
  case (Cons st sts)
  then obtain b where "abs_exec st bs = Some b" "abs_run sts b = Some bs'" by (auto simp: bind_eq_Some_conv)
  then show ?case using exec_sound [OF Cons.prems(1)] Cons.IH by (metis fold_simps(2))
qed simp

definition ivl_final :: "ivl list" where
  "ivl_final = replicate 11 (0, 2097151) @ [(-1, 2097151)] @ replicate 12 (0, 0)"

lemma abs_run_final: "abs_run (sc_phase1 @ sc_phase2 @ sc_phase3) ivl_load = Some ivl_final"
  by code_simp

section \<open>Loading and packing\<close>

lemma bit_byte_at:
  assumes "off + k < length inp" "8 * k \<le> n"
  shows "bit (inp ! (off + k)) (n - 8 * k) \<longleftrightarrow> n < 8 * k + 8 \<and> bit (le_val inp) (8 * off + n)"
proof (cases "n < 8 * k + 8")
  case True
  define d where "d = n - 8 * k"
  have d: "n = 8 * k + d" "d < 8" using True assms(2) by (simp_all add: d_def)
  have "8 * off + n = d + 8 * (off + k)" unfolding d(1) by simp
  then have "(8 * off + n) div 8 = off + k" "(8 * off + n) mod 8 = d"
    using d(2) by (simp_all only: div_mult_self2 mod_mult_self2) simp_all
  then show ?thesis using True assms d unfolding bit_le_val by auto
next
  case False
  then show ?thesis by (simp add: bit_u8_ge)
qed

lemma bit_byte_word:
  "off + k < length inp \<Longrightarrow>
    bit (push_bit (8 * k) (ucast (inp ! (off + k))) :: u64) n \<longleftrightarrow>
    n < 64 \<and> 8 * k \<le> n \<and> n < 8 * k + 8 \<and> bit (le_val inp) (8 * off + n)" for inp :: bytes
  using bit_byte_at [of off k inp n] bit_u8_ge [of "n - 8 * k" "inp ! (off + k)"]
  by (auto simp: bit_push_bit_iff bit_unsigned_iff)

lemma bit_sc_load3:
  assumes "off + 3 \<le> length inp"
  shows "bit (sc_load3 inp off) n \<longleftrightarrow> n < 24 \<and> bit (le_val inp) (8 * off + n)"
proof -
  note w = bit_byte_word [of off 0 inp n, simplified] bit_byte_word [of off 1 inp n, simplified]
    bit_byte_word [of off 2 inp n, simplified]
  show ?thesis using assms unfolding sc_load3_def bit_or_iff
    by (cases "bit (le_val inp) (8 * off + n)") (auto simp: w)
qed

lemma bit_sc_load4:
  assumes "off + 4 \<le> length inp"
  shows "bit (sc_load4 inp off) n \<longleftrightarrow> n < 32 \<and> bit (le_val inp) (8 * off + n)"
proof -
  have "bit (sc_load4 inp off) n \<longleftrightarrow> bit (sc_load3 inp off) n \<or> bit (push_bit 24 (ucast (inp ! (off + 3))) :: u64) n"
    by (simp only: sc_load4_def sc_load3_def bit_or_iff disj_assoc)
  also have "\<dots> \<longleftrightarrow> n < 32 \<and> bit (le_val inp) (8 * off + n)"
    using bit_sc_load3 [of off inp n] bit_byte_word [of off 3 inp n] assms
    by (cases "bit (le_val inp) (8 * off + n)") auto
  finally show ?thesis .
qed

definition digit21 :: "nat \<Rightarrow> nat \<Rightarrow> int" where
  "digit21 v i = int (take_bit 21 (drop_bit (21 * i) v))"

lemma sc_limb_digit:
  assumes w: "\<And>n. n < 21 + sh \<Longrightarrow> bit w n \<longleftrightarrow> bit v (8 * off + n)" and i: "8 * off + sh = 21 * i"
  shows "sc_limb w sh = digit21 v i"
proof -
  have m: "(2097151 :: u64) = mask 21" by (simp add: mask_eq_exp_minus_1)
  have "unat (mask 21 AND drop_bit sh w) = take_bit 21 (drop_bit (21 * i) v)"
    by (rule bit_eqI) (auto simp: bit_unat bit_and_iff bit_mask_iff bit_drop_bit_eq bit_take_bit_iff w i [symmetric] add.assoc)
  moreover have "take_bit 21 (drop_bit (21 * i) v) < 2 ^ 63"
    by (rule less_trans [OF take_bit_nat_less_exp]) simp
  ultimately show ?thesis unfolding sc_limb_def digit21_def m by (simp add: sint_small)
qed

lemma upt23: "[0..<23] = [0, 1, 2, 3, 4, 5, 6, 7, 8, 9, 10, 11, 12, 13, 14, 15, 16, 17, 18, 19, 20, 21, 22]"
  by code_simp

lemma sc_load_digits:
  assumes "length inp = 64"
  shows "sc_load inp = map (digit21 (le_val inp)) [0..<23] @ [int (drop_bit 483 (le_val inp))]"
proof -
  have l3: "sc_limb (sc_load3 inp off) sh = digit21 (le_val inp) i"
    if "off + 3 \<le> 64" "sh \<le> 3" "8 * off + sh = 21 * i" for off sh i
    by (rule sc_limb_digit [OF _ that(3)]) (use that assms in \<open>simp add: bit_sc_load3\<close>)
  have l4: "sc_limb (sc_load4 inp off) sh = digit21 (le_val inp) i"
    if "off + 4 \<le> 64" "sh \<le> 11" "8 * off + sh = 21 * i" for off sh i
    by (rule sc_limb_digit [OF _ that(3)]) (use that assms in \<open>simp add: bit_sc_load4\<close>)
  have "n < 29" if "bit (le_val inp) (483 + n)" for n using that assms by (simp add: bit_le_val)
  then have "unat (drop_bit 3 (sc_load4 inp 60)) = drop_bit 483 (le_val inp)"
    using assms by (intro bit_eqI) (auto simp: bit_unat bit_drop_bit_eq bit_sc_load4)
  moreover have "drop_bit 483 (le_val inp) < 2 ^ 63"
    using le_val_bound [of inp] assms by (simp add: drop_bit_eq_div less_mult_imp_div_less)
  ultimately have t: "sint (drop_bit 3 (sc_load4 inp 60)) = int (drop_bit 483 (le_val inp))"
    by (simp add: sint_small)
  show ?thesis
    unfolding sc_load_def t using
      l3 [of 0 0 0] l4 [of 2 5 1] l3 [of 5 2 2] l4 [of 7 7 3] l4 [of 10 4 4] l3 [of 13 1 5]
      l4 [of 15 6 6] l3 [of 18 3 7] l3 [of 21 0 8] l4 [of 23 5 9] l3 [of 26 2 10] l4 [of 28 7 11]
      l4 [of 31 4 12] l3 [of 34 1 13] l4 [of 36 6 14] l3 [of 39 3 15] l3 [of 42 0 16] l4 [of 44 5 17]
      l3 [of 47 2 18] l4 [of 49 7 19] l4 [of 52 4 20] l3 [of 55 1 21] l4 [of 57 6 22]
    by (simp add: upt23)
qed

lemma sc_val_append: "sc_val (xs @ ys) = sc_val xs + 2 ^ (21 * length xs) * sc_val ys"
  by (induction xs) (simp_all add: power_add algebra_simps)

lemma sc_val_digits: "sc_val (map (digit21 v) [0..<k]) = int (v mod 2 ^ (21 * k))"
proof (induction k)
  case (Suc k)
  have "v mod (2 ^ (21 * k) * 2 ^ 21) = 2 ^ (21 * k) * (v div 2 ^ (21 * k) mod 2 ^ 21) + v mod 2 ^ (21 * k)"
    by (rule mod_mult2_eq)
  then have "v mod 2 ^ (21 * Suc k) = v mod 2 ^ (21 * k) + 2 ^ (21 * k) * take_bit 21 (drop_bit (21 * k) v)"
    by (simp add: take_bit_eq_mod drop_bit_eq_div power_add mult.commute)
  then show ?case using Suc by (simp add: sc_val_append digit21_def)
qed simp

lemma sc_load_ok:
  assumes "length inp = 64"
  shows "gamma ivl_load (sc_load inp)" "sc_val (sc_load inp) = int (le_val inp)"
proof -
  have d: "in_ivl (0, 2097151) (digit21 (le_val inp) i)" for i
    using take_bit_nat_less_exp [of 21 "drop_bit (21 * i) (le_val inp)"] by (simp add: in_ivl_def digit21_def)
  have b: "le_val inp < 2 ^ 512" using le_val_bound [of inp] by (simp add: assms)
  then have "drop_bit 483 (le_val inp) < 2 ^ 29" by (simp add: drop_bit_eq_div less_mult_imp_div_less)
  then have "in_ivl (0, 536870911) (int (drop_bit 483 (le_val inp)))" by (simp add: in_ivl_def)
  moreover have "list_all2 in_ivl (replicate 23 (0, 2097151)) (map (digit21 (le_val inp)) [0..<23])"
    using d by (simp add: list_all2_conv_all_nth)
  ultimately show "gamma ivl_load (sc_load inp)"
    unfolding gamma_def ivl_load_def sc_load_digits [OF assms] by (intro list_all2_appendI) simp_all
  have "le_val inp mod 2 ^ 483 + 2 ^ 483 * drop_bit 483 (le_val inp) = le_val inp"
    by (simp only: drop_bit_eq_div mod_mult_div_eq)
  then show "sc_val (sc_load inp) = int (le_val inp)"
    unfolding sc_load_digits [OF assms] sc_val_append sc_val_digits
    by (simp flip: of_nat_add of_nat_mult add: zmod_int [symmetric])
qed

lemma bit_cons_int:
  fixes a b :: int
  assumes "0 \<le> a" "a < 2 ^ w"
  shows "bit (a + 2 ^ w * b) m \<longleftrightarrow> (if m < w then bit a m else bit b (m - w))"
proof -
  have "a + 2 ^ w * b = concat_bit w a b"
    using assms by (simp add: concat_bit_eq push_bit_eq_mult take_bit_int_eq_self)
  then show ?thesis by (simp only: bit_concat_bit_iff) auto
qed

lemma bit_sc_val:
  assumes "\<forall>x\<in>set xs. 0 \<le> x \<and> x < 2 ^ 21"
  shows "bit (sc_val (xs @ ys)) m \<longleftrightarrow>
    (if m < 21 * length xs then bit (xs ! (m div 21)) (m mod 21) else bit (sc_val ys) (m - 21 * length xs))"
  using assms
proof (induction xs arbitrary: m)
  case (Cons x xs)
  have c: "bit (sc_val ((x # xs) @ ys)) m \<longleftrightarrow> (if m < 21 then bit x m else bit (sc_val (xs @ ys)) (m - 21))"
    using Cons.prems by (simp only: append_Cons sc_val.simps) (rule bit_cons_int, simp_all)
  show ?case
  proof (cases "m < 21")
    case True
    then show ?thesis unfolding c by simp
  next
    case False
    then have "m div 21 = Suc ((m - 21) div 21)" "m mod 21 = (m - 21) mod 21"
      by (simp_all add: le_div_geq le_mod_geq)
    moreover have "m - 21 < 21 * length xs \<longleftrightarrow> m < 21 * length (x # xs)" using False by auto
    moreover have "m - 21 - 21 * length xs = m - 21 * length (x # xs)" by simp
    ultimately show ?thesis unfolding c using False Cons by (auto simp del: append_Cons)
  qed
qed simp

lemma final_shape:
  assumes "gamma ivl_final s"
  obtains xs y where "s = xs @ y # replicate 12 0" "length xs = 11" "\<forall>x\<in>set xs. 0 \<le> x \<and> x < 2 ^ 21"
    "-1 \<le> y" "y \<le> 2097151"
proof -
  obtain xs t where s: "s = xs @ t" "list_all2 in_ivl (replicate 11 (0, 2097151)) xs"
      "list_all2 in_ivl ((-1, 2097151) # replicate 12 (0, 0)) t"
    using assms unfolding gamma_def ivl_final_def by (auto simp: list_all2_append1)
  then obtain y zs where t: "t = y # zs" "in_ivl (-1, 2097151) y" "list_all2 in_ivl (replicate 12 (0, 0)) zs"
    by (auto simp: list_all2_Cons1)
  have "zs = replicate 12 0"
    using t(3) by (auto simp: list_all2_conv_all_nth in_ivl_def intro!: nth_equalityI)
  moreover have "\<forall>x\<in>set xs. 0 \<le> x \<and> x < 2 ^ 21"
    using s(2) by (force simp: list_all2_conv_all_nth in_ivl_def in_set_conv_nth)
  moreover have "length xs = 11" using s(2) by (simp add: list_all2_lengthD [symmetric])
  ultimately show thesis using that [of xs y] s(1) t(1,2) by (simp add: in_ivl_def)
qed

definition byte_of :: "int \<Rightarrow> nat \<Rightarrow> u8" where
  "byte_of v k = word_of_int (drop_bit (8 * k) v)"

lemma bit_byte_of: "bit (byte_of v k) n \<longleftrightarrow> n < 8 \<and> bit v (8 * k + n)"
  by (simp add: byte_of_def bit_of_int_iff bit_drop_bit_eq)

lemma bit_byte_int: "bit (word_of_int x :: u8) n \<longleftrightarrow> n < 8 \<and> bit x n"
  by (simp add: bit_of_int_iff)

lemma le_bytes_int: "le_bytes n (nat (v mod 2 ^ (8 * n))) = map (byte_of v) [0..<n]"
proof (rule nth_equalityI)
  fix k assume "k < length (le_bytes n (nat (v mod 2 ^ (8 * n))))"
  then have k: "k < n" by simp
  have "int (nat (v mod 2 ^ (8 * n)) div 256 ^ k) = drop_bit (8 * k) (take_bit (8 * n) v)"
    by (simp add: drop_bit_eq_div take_bit_eq_mod zdiv_int power_mult)
  then have "(word_of_nat (nat (v mod 2 ^ (8 * n)) div 256 ^ k) :: u8) = word_of_int (drop_bit (8 * k) (take_bit (8 * n) v))"
    by (metis of_int_of_nat_eq)
  also have "\<dots> = byte_of v k"
    using k by (intro bit_word_eqI) (simp add: bit_byte_of bit_byte_int bit_drop_bit_eq bit_take_bit_iff)
  finally show "le_bytes n (nat (v mod 2 ^ (8 * n))) ! k = map (byte_of v) [0..<n] ! k"
    using k by (simp add: le_bytes_nth)
qed simp

lemma upt32: "[0..<32] = [0, 1, 2, 3, 4, 5, 6, 7, 8, 9, 10, 11, 12, 13, 14, 15, 16, 17, 18, 19, 20, 21, 22, 23,
    24, 25, 26, 27, 28, 29, 30, 31]"
  by code_simp

lemma sc_pack_ok:
  assumes s: "s = xs @ y # zs" "length xs = 11" "\<forall>x\<in>set xs. 0 \<le> x \<and> x < 2 ^ 21" "sc_val zs = 0"
  shows "sc_pack s = le_bytes 32 (nat (sc_val s mod 2 ^ 256))"
proof -
  have bv: "bit (sc_val s) m \<longleftrightarrow> (if m < 231 then bit (xs ! (m div 21)) (m mod 21) else bit y (m - 231))" for m
    unfolding s(1) bit_sc_val [OF s(3)] by (simp add: s(2,4))
  have low: "bit (sc_val s) (21 * i + n) \<longleftrightarrow> bit (s ! i) n" if "i < 11" "n < 21" for i n
  proof -
    have "21 * i + n < 231" "(21 * i + n) div 21 = i" "(21 * i + n) mod 21 = n" using that by auto
    then show ?thesis using that unfolding bv by (simp add: s(1,2) nth_append)
  qed
  have high: "bit (sc_val s) (231 + n) \<longleftrightarrow> bit (s ! 11) n" for n
    unfolding bv by (simp add: s(1,2) nth_append)
  have nohigh: "\<not> bit (s ! i) n" if "i < 11" "21 \<le> n" for i n
  proof -
    have "0 \<le> s ! i" "s ! i < 2 ^ 21" using that(1) s by (simp_all add: nth_append)
    then show ?thesis using bit_cons_int [of "s ! i" 21 0 n] that(2) by simp
  qed
  have next_limb: "bit (sc_val s) (21 * i + n) \<longleftrightarrow> bit (s ! (i + 1)) (n - 21)" if "i < 11" "21 \<le> n" "n < 42" for i n
  proof (cases "i = 10")
    case True
    then show ?thesis using high [of "n - 21"] that by simp
  next
    case False
    have "21 * (i + 1) + (n - 21) = 21 * i + n" using that by simp
    then show ?thesis using low [of "i + 1" "n - 21"] that False by simp
  qed
  have p1: "word_of_int (drop_bit sh (s ! i)) = byte_of (sc_val s) k"
    if "i < 11" "sh + 8 \<le> 21" "21 * i + sh = 8 * k" for i sh k
    using low [OF that(1)] that(2)
    by (intro bit_word_eqI) (simp add: bit_byte_int bit_byte_of bit_drop_bit_eq that(3) [symmetric] add.assoc)
  have p2: "word_of_int (drop_bit sh (s ! i) OR push_bit (21 - sh) (s ! (i + 1))) = byte_of (sc_val s) k"
    if "i < 11" "sh < 21" "21 * i + sh = 8 * k" for i sh k
  proof (rule bit_word_eqI)
    fix n assume "n < LENGTH(8)"
    then have n: "n < 8" by simp
    show "bit (word_of_int (drop_bit sh (s ! i) OR push_bit (21 - sh) (s ! (i + 1))) :: u8) n = bit (byte_of (sc_val s) k) n"
    proof (cases "sh + n < 21")
      case True
      then have "\<not> 21 - sh \<le> n" by simp
      then show ?thesis using n low [OF that(1) True]
        by (simp add: bit_byte_int bit_byte_of bit_or_iff bit_drop_bit_eq bit_push_bit_iff that(3) [symmetric] add.assoc)
    next
      case False
      then have "n - (21 - sh) = sh + n - 21" "21 - sh \<le> n" using that(2) by simp_all
      then show ?thesis using False n that nohigh [OF that(1), of "sh + n"] next_limb [OF that(1), of "sh + n"]
        by (simp add: bit_byte_int bit_byte_of bit_or_iff bit_drop_bit_eq bit_push_bit_iff that(3) [symmetric] add.assoc)
    qed
  qed
  have p3: "word_of_int (drop_bit sh (s ! 11)) = byte_of (sc_val s) k" if "231 + sh = 8 * k" for sh k
    by (intro bit_word_eqI) (simp add: bit_byte_int bit_byte_of bit_drop_bit_eq that [symmetric] add.assoc high)
  have "sc_pack s = map (byte_of (sc_val s)) [0..<32]"
    unfolding upt32 sc_pack_def Let_def using
      p1 [of 0 0 0] p1 [of 0 8 1] p1 [of 1 3 3] p1 [of 1 11 4] p1 [of 2 6 6] p1 [of 3 1 8] p1 [of 3 9 9]
      p1 [of 4 4 11] p1 [of 4 12 12] p1 [of 5 7 14] p1 [of 6 2 16] p1 [of 6 10 17] p1 [of 7 5 19] p1 [of 7 13 20]
      p1 [of 8 0 21] p1 [of 8 8 22] p1 [of 9 3 24] p1 [of 9 11 25] p1 [of 10 6 27]
      p2 [of 0 16 2] p2 [of 1 19 5] p2 [of 2 14 7] p2 [of 3 17 10] p2 [of 4 20 13] p2 [of 5 15 15] p2 [of 6 18 18]
      p2 [of 8 16 23] p2 [of 9 19 26] p2 [of 10 14 28]
      p3 [of 1 29] p3 [of 9 30] p3 [of 17 31]
    by (simp add: numeral_2_eq_2 [symmetric])
  then show ?thesis using le_bytes_int [of 32 "sc_val s"] by simp
qed

section \<open>Properties\<close>

lemma sc_reduce_value:
  assumes "length inp = 64"
  obtains v where "sc_reduce inp = le_bytes 32 (nat (v mod 2 ^ 256))" "v mod order_L = int (le_val inp) mod order_L"
    "- (2 ^ 231) \<le> v" "v < 2 ^ 252"
proof -
  define s where "s = fold sc_exec (sc_phase1 @ sc_phase2 @ sc_phase3) (sc_load inp)"
  note l = sc_load_ok [OF assms]
  have g: "gamma ivl_final s" and m: "sc_val s mod order_L = int (le_val inp) mod order_L"
    using run_sound [OF l(1) abs_run_final] by (simp_all only: s_def l(2))
  obtain xs y where sh: "s = xs @ y # replicate 12 0" "length xs = 11" "\<forall>x\<in>set xs. 0 \<le> x \<and> x < 2 ^ 21"
      "-1 \<le> y" "y \<le> 2097151"
    using final_shape [OF g] by metis
  have z: "sc_val (replicate n 0) = 0" for n by (induction n) simp_all
  have p: "sc_reduce inp = le_bytes 32 (nat (sc_val s mod 2 ^ 256))"
    unfolding sc_reduce_def s_def [symmetric] by (rule sc_pack_ok [OF sh(1-3) z])
  have v: "sc_val s = sc_val xs + 2 ^ 231 * y" unfolding sh(1) sc_val_append by (simp add: sh(2) z)
  have b: "0 \<le> sc_val xs \<and> sc_val xs < 2 ^ (21 * length xs)" using sh(3)
    by (induction xs) (auto simp: power_add)
  have "- (2 ^ 231) \<le> sc_val s" "sc_val s < 2 ^ 252" unfolding v using b sh(2,4,5) by simp_all
  then show thesis using that p m by blast
qed

lemma neg_mod: "- m \<le> v \<Longrightarrow> v < 0 \<Longrightarrow> v mod m = v + m" for v m :: int
  using mod_add_self2 [of v m] mod_pos_pos_trivial [of "v + m" m] by simp

lemma order_L_pos: "0 < order_L" "2 ^ 252 < order_L"
  by (simp_all add: order_L_def)

text \<open>
  C20. The reduction modulo the group order: for every 64-byte number whose residue is more than
  \<open>2 ^ 231\<close> below the order, the result is the residue.
\<close>

theorem sc_reduce_correct:
  assumes "length inp = 64" "int (le_val inp) mod order_L < order_L - 2 ^ 231"
  shows "sc_reduce inp = le_bytes 32 (nat (int (le_val inp) mod order_L))"
proof -
  obtain v where v: "sc_reduce inp = le_bytes 32 (nat (v mod 2 ^ 256))" "v mod order_L = int (le_val inp) mod order_L"
      "- (2 ^ 231) \<le> v" "v < 2 ^ 252"
    by (rule sc_reduce_value [OF assms(1)])
  have "0 \<le> v"
  proof (rule ccontr)
    assume "\<not> 0 \<le> v"
    then have "v mod order_L = v + order_L" using v(3) order_L_pos(2) by (intro neg_mod) simp_all
    then show False using v(2,3) assms(2) by linarith
  qed
  moreover have "v < order_L" "v < 2 ^ 256" using v(4) order_L_pos(2) by simp_all
  ultimately have "v mod order_L = v" "v mod 2 ^ 256 = v" by (simp_all only: mod_pos_pos_trivial)
  then show ?thesis using v(1,2) by simp
qed

definition bytes64_small :: bytes where
  "bytes64_small = 7 # replicate 63 0"

theorem sc_reduce_correct_witness:
  "sc_reduce bytes64_small = le_bytes 32 7"
  using sc_reduce_correct [of bytes64_small] by (simp add: bytes64_small_def order_L_def)

text \<open>
  The reduction fails just below the order: whenever the residue is at least \<open>2 ^ 252\<close> the result
  is that residue minus the order, taken modulo \<open>2 ^ 256\<close>; the residue of \<open>L - 1\<close> comes out as
  thirty-two bytes of ones.
\<close>

theorem sc_reduce_high_residue:
  assumes "length inp = 64" "2 ^ 252 \<le> int (le_val inp) mod order_L"
  shows "sc_reduce inp = le_bytes 32 (nat (2 ^ 256 - order_L + int (le_val inp) mod order_L))"
proof -
  obtain v where v: "sc_reduce inp = le_bytes 32 (nat (v mod 2 ^ 256))" "v mod order_L = int (le_val inp) mod order_L"
      "- (2 ^ 231) \<le> v" "v < 2 ^ 252"
    by (rule sc_reduce_value [OF assms(1)])
  have "v < 0"
  proof (rule ccontr)
    assume "\<not> v < 0"
    then have "v mod order_L = v" using v(4) order_L_pos(2) by simp
    then show False using v(2,4) assms(2) by linarith
  qed
  then have "v mod order_L = v + order_L" using v(3) order_L_pos(2) by (intro neg_mod) simp_all
  then have "v = int (le_val inp) mod order_L - order_L" using v(2) by linarith
  moreover have "v mod 2 ^ 256 = v + 2 ^ 256" using \<open>v < 0\<close> v(3) by (intro neg_mod) simp_all
  ultimately have "v mod 2 ^ 256 = 2 ^ 256 - order_L + int (le_val inp) mod order_L" by linarith
  then show ?thesis using v(1) by (simp only:)
qed

definition bytes64_L1 :: bytes where
  "bytes64_L1 = le_bytes 64 (nat (order_L - 1))"

theorem sc_reduce_high_residue_witness:
  "sc_reduce bytes64_L1 = le_bytes 32 (2 ^ 256 - 1) \<and> int (le_val bytes64_L1) mod order_L = order_L - 1"
  using sc_reduce_high_residue [of bytes64_L1] by (simp add: bytes64_L1_def le_val_le_bytes order_L_def)

lemma le_val_take_Suc:
  "i < length s \<Longrightarrow> le_val (take (Suc i) s) = le_val (take i s) + 256 ^ i * unat (s ! i)"
  by (simp add: take_Suc_conv_app_nth le_val_append)

lemma digit_compare:
  assumes "a < b" "(x :: nat) < m" "y < m"
  shows "x + m * a < y + m * (b :: nat)"
proof -
  have "m * (a + 1) \<le> m * b" using assms(1) by (intro mult_le_mono) simp_all
  then show ?thesis using assms(2) by simp
qed

lemma sc_compare_ok:
  "n \<le> 32 \<Longrightarrow> length s = 32 \<Longrightarrow> sc_compare n s \<longleftrightarrow> le_val (take n s) < le_val (take n ed25519_L)"
proof (induction n)
  case (Suc i)
  have L: "length ed25519_L = 32" by (simp add: ed25519_L_def)
  have b: "le_val (take i s) < 256 ^ i" "le_val (take i ed25519_L) < 256 ^ i"
    using le_val_bound [of "take i s"] le_val_bound [of "take i ed25519_L"] Suc.prems L by (simp_all add: min_def)
  have e: "le_val (take (Suc i) s) = le_val (take i s) + 256 ^ i * unat (s ! i)"
      "le_val (take (Suc i) ed25519_L) = le_val (take i ed25519_L) + 256 ^ i * unat (ed25519_L ! i)"
    using Suc.prems L by (simp_all only: le_val_take_Suc)
  show ?case
  proof (rule linorder_cases [of "s ! i" "ed25519_L ! i"])
    assume "s ! i < ed25519_L ! i"
    then show ?thesis using digit_compare [OF _ b] unfolding e by (simp add: word_less_nat_alt)
  next
    assume "s ! i = ed25519_L ! i"
    then show ?thesis using Suc unfolding e by simp
  next
    assume g: "ed25519_L ! i < s ! i"
    then have "le_val (take i ed25519_L) + 256 ^ i * unat (ed25519_L ! i) < le_val (take i s) + 256 ^ i * unat (s ! i)"
      using digit_compare [OF _ b(2,1)] by (simp add: word_less_nat_alt)
    then show ?thesis using g unfolding e by simp
  qed
qed simp

lemma sc_canonical_order:
  assumes "length s = 32"
  shows "sc_is_canonical s \<longleftrightarrow> int (le_val s) < order_L"
proof -
  have "length ed25519_L = 32" by (simp add: ed25519_L_def)
  then have "sc_is_canonical s \<longleftrightarrow> le_val s < le_val ed25519_L"
    using sc_compare_ok [of 32 s] assms by (simp add: sc_is_canonical_def)
  then show ?thesis using order_L_bytes by linarith
qed

text \<open>
  The canonicity test of a signature scalar accepts exactly the 32-byte numbers below the group order.
\<close>

theorem sc_is_canonical_iff:
  assumes "length s = 32"
  shows "sc_is_canonical s \<longleftrightarrow> int (le_val s) < order_L"
  by (rule sc_canonical_order [OF assms])

theorem sc_is_canonical_iff_witness:
  "sc_is_canonical bytes_five \<longleftrightarrow> (5 :: int) < order_L"
  using sc_is_canonical_iff [of bytes_five] by simp

end
