(* ===== verification/Curve25519.thy ===== *)
theory Curve25519
  imports Scalar25519
begin

text \<open>
  The points of \<^verbatim>\<open>store/verify.c\<close>: extended, completed, projective and cached coordinates
  on the curve \<open>- x ^ 2 + y ^ 2 = 1 + d x ^ 2 y ^ 2\<close>, their addition, subtraction and doubling, the
  decoding and encoding of points, and the two scalar multiplications. The lemmas relate a point in
  extended coordinates to its affine coordinates modulo the prime.
\<close>

section \<open>The code\<close>

definition ed25519_d_bytes :: bytes where
  "ed25519_d_bytes = [
     0xa3, 0x78, 0x59, 0x13, 0xca, 0x4d, 0xeb, 0x75,
     0xab, 0xd8, 0x41, 0x41, 0x4d, 0x0a, 0x70, 0x00,
     0x98, 0xe8, 0x79, 0x77, 0x79, 0x40, 0xc7, 0x8c,
     0x73, 0xfe, 0x6f, 0x2b, 0xee, 0x6c, 0x03, 0x52]"

definition ed25519_2d_bytes :: bytes where
  "ed25519_2d_bytes = [
     0x59, 0xf1, 0xb2, 0x26, 0x94, 0x9b, 0xd6, 0xeb,
     0x56, 0xb1, 0x83, 0x82, 0x9a, 0x14, 0xe0, 0x00,
     0x30, 0xd1, 0xf3, 0xee, 0xf2, 0x80, 0x8e, 0x19,
     0xe7, 0xfc, 0xdf, 0x56, 0xdc, 0xd9, 0x06, 0x24]"

definition ed25519_sqrtm1_bytes :: bytes where
  "ed25519_sqrtm1_bytes = [
     0xb0, 0xa0, 0x0e, 0x4a, 0x27, 0x1b, 0xee, 0xc4,
     0x78, 0xe4, 0x2f, 0xad, 0x06, 0x18, 0x43, 0x2f,
     0xa7, 0xd7, 0xfb, 0x3d, 0x99, 0x00, 0x4d, 0x2b,
     0x0b, 0xdf, 0xc1, 0x4f, 0x80, 0x24, 0x83, 0x2b]"

definition ed25519_By_bytes :: bytes where
  "ed25519_By_bytes = [
     0x58, 0x66, 0x66, 0x66, 0x66, 0x66, 0x66, 0x66,
     0x66, 0x66, 0x66, 0x66, 0x66, 0x66, 0x66, 0x66,
     0x66, 0x66, 0x66, 0x66, 0x66, 0x66, 0x66, 0x66,
     0x66, 0x66, 0x66, 0x66, 0x66, 0x66, 0x66, 0x66]"

definition ed25519_Bx_bytes :: bytes where
  "ed25519_Bx_bytes = [
     0x1a, 0xd5, 0x25, 0x8f, 0x60, 0x2d, 0x56, 0xc9,
     0xb2, 0xa7, 0x25, 0x95, 0x60, 0xc7, 0x2c, 0x69,
     0x5c, 0xdc, 0xd6, 0xfd, 0x31, 0xe2, 0xa4, 0xc0,
     0xfe, 0x53, 0x6e, 0xcd, 0xd3, 0x36, 0x69, 0x21]"

record ge_p3 =
  p3_X :: fe
  p3_Y :: fe
  p3_Z :: fe
  p3_T :: fe

record ge_p1p1 =
  p1_X :: fe
  p1_Y :: fe
  p1_Z :: fe
  p1_T :: fe

record ge_p2 =
  p2_X :: fe
  p2_Y :: fe
  p2_Z :: fe

record ge_cached =
  YpX :: fe
  YmX :: fe
  ca_Z :: fe
  T2d :: fe

definition ge_p3_0 :: ge_p3 where
  "ge_p3_0 = \<lparr>p3_X = fe_0, p3_Y = fe_1, p3_Z = fe_1, p3_T = fe_0\<rparr>"

definition ge_p3_to_cached :: "ge_p3 \<Rightarrow> ge_cached" where
  "ge_p3_to_cached p =
     (let d2 = fe_frombytes ed25519_2d_bytes
      in \<lparr>YpX = fe_add (p3_Y p) (p3_X p), YmX = fe_sub (p3_Y p) (p3_X p), ca_Z = fe_copy (p3_Z p),
          T2d = fe_mul (p3_T p) d2\<rparr>)"

definition ge_p3_to_p2 :: "ge_p3 \<Rightarrow> ge_p2" where
  "ge_p3_to_p2 p = \<lparr>p2_X = fe_copy (p3_X p), p2_Y = fe_copy (p3_Y p), p2_Z = fe_copy (p3_Z p)\<rparr>"

definition ge_p1p1_to_p3 :: "ge_p1p1 \<Rightarrow> ge_p3" where
  "ge_p1p1_to_p3 p =
     \<lparr>p3_X = fe_mul (p1_X p) (p1_T p), p3_Y = fe_mul (p1_Y p) (p1_Z p), p3_Z = fe_mul (p1_Z p) (p1_T p),
      p3_T = fe_mul (p1_X p) (p1_Y p)\<rparr>"

definition ge_p1p1_to_p2 :: "ge_p1p1 \<Rightarrow> ge_p2" where
  "ge_p1p1_to_p2 p =
     \<lparr>p2_X = fe_mul (p1_X p) (p1_T p), p2_Y = fe_mul (p1_Y p) (p1_Z p), p2_Z = fe_mul (p1_Z p) (p1_T p)\<rparr>"

definition ge_p2_dbl :: "ge_p2 \<Rightarrow> ge_p1p1" where
  "ge_p2_dbl p =
     (let A = fe_sq (p2_X p);
          B = fe_sq (p2_Y p);
          C = fe_sq (p2_Z p);
          C = fe_add C C;
          H = fe_neg A;
          E = fe_add (p2_X p) (p2_Y p);
          E = fe_sq E;
          E = fe_sub E A;
          E = fe_sub E B;
          G = fe_add H B;
          F = fe_sub G C;
          H = fe_sub H B
      in \<lparr>p1_X = fe_copy E, p1_Y = fe_copy H, p1_Z = fe_copy G, p1_T = fe_copy F\<rparr>)"

definition ge_add :: "ge_p3 \<Rightarrow> ge_cached \<Rightarrow> ge_p1p1" where
  "ge_add p q =
     (let A = fe_add (p3_Y p) (p3_X p);
          B = fe_sub (p3_Y p) (p3_X p);
          A = fe_mul A (YpX q);
          B = fe_mul B (YmX q);
          C = fe_mul (T2d q) (p3_T p);
          D = fe_mul (p3_Z p) (ca_Z q);
          D = fe_add D D
      in \<lparr>p1_X = fe_sub A B, p1_Y = fe_add A B, p1_Z = fe_add D C, p1_T = fe_sub D C\<rparr>)"

definition ge_sub :: "ge_p3 \<Rightarrow> ge_cached \<Rightarrow> ge_p1p1" where
  "ge_sub p q =
     (let A = fe_add (p3_Y p) (p3_X p);
          B = fe_sub (p3_Y p) (p3_X p);
          A = fe_mul A (YmX q);
          B = fe_mul B (YpX q);
          C = fe_mul (T2d q) (p3_T p);
          D = fe_mul (p3_Z p) (ca_Z q);
          D = fe_add D D
      in \<lparr>p1_X = fe_sub A B, p1_Y = fe_add A B, p1_Z = fe_sub D C, p1_T = fe_add D C\<rparr>)"

text \<open>\<^verbatim>\<open>ge_frombytes\<close>: \<open>None\<close> is the return value \<open>-1\<close>, a point that is not on the curve.\<close>

definition ge_frombytes :: "bytes \<Rightarrow> ge_p3 option" where
  "ge_frombytes s =
     (let d = fe_frombytes ed25519_d_bytes;
          x_sign = drop_bit 7 (s ! 31) AND 1;
          y_bytes = s[31 := s ! 31 AND 0x7F];
          Y = fe_frombytes y_bytes;
          u = fe_sq Y;
          v = fe_copy u;
          one = fe_1;
          u = fe_sub u one;
          v = fe_mul d v;
          v = fe_add v one;
          v3 = fe_sq v;
          v3 = fe_mul v3 v;
          X = fe_mul u v3;
          v7 = fe_sq v3;
          v7 = fe_mul v7 v;
          uv7 = fe_mul u v7;
          beta = fe_pow2523 uv7;
          X = fe_mul X beta;
          vxx = fe_sq X;
          check = fe_mul vxx v;
          check = fe_sub check u;
          root =
            (if fe_isnonzero check
             then let vxx = fe_sq X; check = fe_mul vxx v; check = fe_add check u
                  in if fe_isnonzero check then None
                     else Some (fe_mul X (fe_frombytes ed25519_sqrtm1_bytes))
             else Some X)
      in case root of
           None \<Rightarrow> None
         | Some X \<Rightarrow>
             let X = (if fe_isneg X \<noteq> x_sign then fe_neg X else X)
             in Some \<lparr>p3_X = X, p3_Y = Y, p3_Z = fe_1, p3_T = fe_mul X Y\<rparr>)"

definition ge_tobytes :: "ge_p3 \<Rightarrow> bytes" where
  "ge_tobytes h =
     (let recip = fe_invert (p3_Z h);
          x = fe_mul (p3_X h) recip;
          y = fe_mul (p3_Y h) recip;
          s = fe_tobytes y
      in s[31 := s ! 31 XOR push_bit 7 (fe_isneg x)])"

definition scalar_bit :: "bytes \<Rightarrow> nat \<Rightarrow> bool" where
  "scalar_bit scalar i \<longleftrightarrow> drop_bit (i mod 8) (scalar ! (i div 8)) AND 1 \<noteq> 0"

definition ge_double :: "ge_p3 \<Rightarrow> ge_p3" where
  "ge_double Q = ge_p1p1_to_p3 (ge_p2_dbl (ge_p3_to_p2 Q))"

text \<open>The loop counts the bit index down from 255; \<open>ge_loop n\<close> handles the bits \<open>n - 1\<close> to 0.\<close>

fun ge_loop :: "nat \<Rightarrow> bytes \<Rightarrow> ge_cached \<Rightarrow> ge_p3 \<Rightarrow> ge_p3" where
  "ge_loop 0 scalar Pc Q = Q"
| "ge_loop (Suc i) scalar Pc Q =
     (let Q = ge_double Q;
          Q = (if scalar_bit scalar i then ge_p1p1_to_p3 (ge_add Q Pc) else Q)
      in ge_loop i scalar Pc Q)"

definition ge_scalarmult :: "bytes \<Rightarrow> ge_p3 \<Rightarrow> ge_p3" where
  "ge_scalarmult scalar P = ge_loop 256 scalar (ge_p3_to_cached P) ge_p3_0"

fun ge_loop2 :: "nat \<Rightarrow> bytes \<Rightarrow> bytes \<Rightarrow> ge_cached \<Rightarrow> ge_cached \<Rightarrow> ge_cached \<Rightarrow> ge_p3 \<Rightarrow> ge_p3" where
  "ge_loop2 0 a b Bc Pc BPc Q = Q"
| "ge_loop2 (Suc i) a b Bc Pc BPc Q =
     (let Q = ge_double Q;
          Q = (if scalar_bit a i \<and> scalar_bit b i then ge_p1p1_to_p3 (ge_add Q BPc)
               else if scalar_bit a i then ge_p1p1_to_p3 (ge_add Q Bc)
               else if scalar_bit b i then ge_p1p1_to_p3 (ge_add Q Pc)
               else Q)
      in ge_loop2 i a b Bc Pc BPc Q)"

definition ge_double_scalarmult :: "bytes \<Rightarrow> ge_p3 \<Rightarrow> bytes \<Rightarrow> ge_p3 \<Rightarrow> ge_p3" where
  "ge_double_scalarmult a B b P =
     (let Bc = ge_p3_to_cached B; Pc = ge_p3_to_cached P;
          BP = ge_p1p1_to_p3 (ge_add B Pc);
          BPc = ge_p3_to_cached BP
      in ge_loop2 256 a b Bc Pc BPc ge_p3_0)"

section \<open>Bounds and values of composed operations\<close>

named_theorems fe_bounds \<open>limb sizes of the field operations\<close>
named_theorems fe_vals \<open>values of the field operations modulo the prime\<close>

text \<open>Three sizes: reduced, the sum of two reduced, and what a multiplication accepts.\<close>

definition fe_mid :: "fe \<Rightarrow> bool" where
  "fe_mid f \<longleftrightarrow> fe_upto (2 ^ 52 + 2 ^ 19) f"

definition fe_wide :: "fe \<Rightarrow> bool" where
  "fe_wide f \<longleftrightarrow> fe_upto (2 ^ 54) f"

lemma fe_mid_wide [fe_bounds]: "fe_mid f \<Longrightarrow> fe_wide f"
  unfolding fe_mid_def fe_wide_def by (erule fe_upto_mono) simp

lemma fe_reduced_mid [fe_bounds]: "fe_reduced f \<Longrightarrow> fe_mid f"
  unfolding fe_mid_def by (rule fe_upto_mono [OF fe_reduced_upto]) simp_all

lemma fe_reduced_wide' [fe_bounds]: "fe_reduced f \<Longrightarrow> fe_wide f"
  unfolding fe_wide_def by (rule fe_reduced_wide)

lemma fe_mul_reduced [fe_bounds]: "fe_wide f \<Longrightarrow> fe_wide g \<Longrightarrow> fe_reduced (fe_mul f g)"
  unfolding fe_wide_def by (rule fe_mul_ok(1))

lemma fe_sq_reduced [fe_bounds]: "fe_wide f \<Longrightarrow> fe_reduced (fe_sq f)"
  unfolding fe_sq_def by (rule fe_mul_reduced)

lemma fe_sub_reduced' [fe_bounds]: "fe_wide f \<Longrightarrow> fe_reduced g \<Longrightarrow> fe_reduced (fe_sub f g)"
  unfolding fe_wide_def by (rule fe_sub_reduced)

lemma fe_const_reduced [fe_bounds]: "fe_reduced fe_0" "fe_reduced fe_1"
  by (simp_all add: fe_0_def fe_1_def)

lemma fe_neg_reduced [fe_bounds]: "fe_reduced f \<Longrightarrow> fe_reduced (fe_neg f)"
  unfolding fe_neg_def by (intro fe_bounds)

lemma fe_add_mid [fe_bounds]:
  assumes "fe_reduced f" "fe_reduced g"
  shows "fe_mid (fe_add f g)"
proof -
  have e: "2 ^ 51 + 2 ^ 18 + (2 ^ 51 + 2 ^ 18) = (2 ^ 52 + 2 ^ 19 :: int)" by simp
  show ?thesis using fe_add_ok(2) [OF assms [THEN fe_reduced_upto]] unfolding e fe_mid_def by simp
qed

lemma fe_add_wide [fe_bounds]:
  assumes "fe_mid f" "fe_reduced g"
  shows "fe_wide (fe_add f g)"
  unfolding fe_wide_def
  by (rule fe_upto_mono [OF fe_add_ok(2) [OF assms(1) [unfolded fe_mid_def] fe_reduced_upto [OF assms(2)]]]) simp_all

lemma fe_mul_eqp [fe_vals]:
  assumes "fe_wide f" "fe_wide g" "eqp (fe_val f) a" "eqp (fe_val g) b"
  shows "eqp (fe_val (fe_mul f g)) (a * b)"
  by (rule eqp_trans [OF fe_mul_ok(2) [OF assms(1,2) [unfolded fe_wide_def]] eqp_mult [OF assms(3,4)]])

lemma fe_sq_eqp [fe_vals]: "fe_wide f \<Longrightarrow> eqp (fe_val f) a \<Longrightarrow> eqp (fe_val (fe_sq f)) (a * a)"
  unfolding fe_sq_def by (rule fe_mul_eqp)

lemma fe_sub_eqp [fe_vals]:
  assumes "fe_wide f" "fe_wide g" "eqp (fe_val f) a" "eqp (fe_val g) b"
  shows "eqp (fe_val (fe_sub f g)) (a - b)"
  by (rule eqp_trans [OF fe_sub_ok(1) [OF assms(1,2) [unfolded fe_wide_def]] eqp_diff [OF assms(3,4)]])

lemma fe_add_eqp [fe_vals]:
  assumes "fe_wide f" "fe_wide g" "eqp (fe_val f) a" "eqp (fe_val g) b"
  shows "eqp (fe_val (fe_add f g)) (a + b)"
  unfolding fe_add_ok(1) [OF assms(1,2) [unfolded fe_wide_def], simplified] by (rule eqp_add [OF assms(3,4)])

lemma fe_neg_eqp [fe_vals]: "fe_wide f \<Longrightarrow> eqp (fe_val f) a \<Longrightarrow> eqp (fe_val (fe_neg f)) (- a)"
  using fe_sub_eqp [OF fe_reduced_wide' [OF fe_const_reduced(1)], of f 0 a] unfolding fe_neg_def by (simp add: fe_0_def)

lemma fe_one_eqp [fe_vals]: "eqp (fe_val fe_1) 1" "eqp (fe_val fe_0) 0"
  by (simp_all add: fe_1_def fe_0_def)

section \<open>The affine curve\<close>

definition ed_d :: int where
  "ed_d = int (le_val ed25519_d_bytes)"

definition on_curve :: "int \<Rightarrow> int \<Rightarrow> bool" where
  "on_curve x y \<longleftrightarrow> eqp (y * y - x * x) (1 + ed_d * (x * x) * (y * y))"

text \<open>Invertible residues.\<close>

definition unit_p :: "int \<Rightarrow> bool" where
  "unit_p a \<longleftrightarrow> (\<exists>w. eqp (a * w) 1)"

lemma unit_mult: "unit_p a \<Longrightarrow> unit_p b \<Longrightarrow> unit_p (a * b)"
proof -
  assume "unit_p a" "unit_p b"
  then obtain v w where "eqp (a * v) 1" "eqp (b * w) 1" unfolding unit_p_def by blast
  then have "eqp (a * v * (b * w)) (1 * 1)" by (rule eqp_mult)
  then have "eqp (a * b * (v * w)) 1" by (simp add: mult.assoc mult.left_commute)
  then show ?thesis unfolding unit_p_def by blast
qed

lemma unit_cong: "eqp a b \<Longrightarrow> unit_p a \<Longrightarrow> unit_p b"
  unfolding unit_p_def by (blast intro: eqp_mult eqp_refl eqp_sym eqp_trans)

lemma unit_one [simp]: "unit_p 1"
  unfolding unit_p_def by (rule exI [of _ 1]) simp

lemma unit_two: "unit_p 2"
  unfolding unit_p_def by (rule exI [of _ "2 ^ 254 - 9"]) (simp add: eqp_def p25519_def)

lemma unit_cancel:
  assumes "unit_p u" "eqp (a * u) (b * u)"
  shows "eqp a b"
proof -
  obtain w where w: "eqp (u * w) 1" using assms(1) unfolding unit_p_def by blast
  have e: "eqp (a * (u * w)) (b * (u * w))"
    using eqp_mult [OF assms(2) eqp_refl [of w]] by (simp only: mult.assoc)
  have c: "eqp (c * (u * w)) c" for c
    using eqp_mult [OF eqp_refl [of c] w] by (simp only: mult_1_right)
  show ?thesis by (rule eqp_trans [OF eqp_sym [OF c] eqp_trans [OF e c]])
qed

section \<open>The addition law\<close>

type_synonym point = "int \<times> int"

definition ed_delta :: "point \<Rightarrow> point \<Rightarrow> int" where
  "ed_delta a b = ed_d * (fst a * fst b) * (snd a * snd b)"

text \<open>\<open>ed_sum a b c\<close>: the sum of \<open>a\<close> and \<open>b\<close> is defined and is \<open>c\<close>.\<close>

definition ed_sum :: "point \<Rightarrow> point \<Rightarrow> point \<Rightarrow> bool" where
  "ed_sum a b c \<longleftrightarrow> unit_p (1 + ed_delta a b) \<and> unit_p (1 - ed_delta a b) \<and>
     eqp (fst c * (1 + ed_delta a b)) (fst a * snd b + snd a * fst b) \<and>
     eqp (snd c * (1 - ed_delta a b)) (snd a * snd b + fst a * fst b)"

definition curve_point :: "point \<Rightarrow> bool" where
  "curve_point a \<longleftrightarrow> on_curve (fst a) (snd a)"

lemma curve_identity:
  fixes x1 y1 x2 y2 d :: int
  defines "m1 \<equiv> y1 * y1 - x1 * x1" and "m2 \<equiv> y2 * y2 - x2 * x2"
    and "e1 \<equiv> d * (x1 * x1) * (y1 * y1)" and "e2 \<equiv> d * (x2 * x2) * (y2 * y2)"
    and "D \<equiv> d * (x1 * x2) * (y1 * y2)" and "n1 \<equiv> x1 * y2 + y1 * x2" and "n2 \<equiv> y1 * y2 + x1 * x2"
  shows "n2 * n2 * ((1 + D) * (1 + D)) - n1 * n1 * ((1 - D) * (1 - D)) - (1 + D) * (1 - D) * ((1 + D) * (1 - D)) -
      d * (n1 * n1) * (n2 * n2) =
    m1 * m2 * (1 + e1 * e2) - (1 - e1 * e2) * (1 - e1 * e2) - e1 * (m2 * m2) - e2 * (m1 * m1)"
  unfolding m1_def m2_def e1_def e2_def D_def n1_def n2_def by algebra

lemma ed_sum_on_curve:
  assumes a: "curve_point a" and b: "curve_point b" and s: "ed_sum a b c"
  shows "curve_point c"
proof -
  obtain x1 y1 x2 y2 x3 y3 where p: "a = (x1, y1)" "b = (x2, y2)" "c = (x3, y3)" by (metis surj_pair)
  define D where "D = ed_d * (x1 * x2) * (y1 * y2)"
  define m1 where "m1 = y1 * y1 - x1 * x1"
  define m2 where "m2 = y2 * y2 - x2 * x2"
  define e1 where "e1 = ed_d * (x1 * x1) * (y1 * y1)"
  define e2 where "e2 = ed_d * (x2 * x2) * (y2 * y2)"
  define n1 where "n1 = x1 * y2 + y1 * x2"
  define n2 where "n2 = y1 * y2 + x1 * x2"
  have m: "eqp m1 (1 + e1)" "eqp m2 (1 + e2)"
    using a b by (simp_all add: curve_point_def on_curve_def p m1_def m2_def e1_def e2_def)
  have u: "unit_p (1 + D)" "unit_p (1 - D)" and x: "eqp (x3 * (1 + D)) n1" and y: "eqp (y3 * (1 - D)) n2"
    using s by (simp_all add: ed_sum_def ed_delta_def p D_def n1_def n2_def)
  define W where "W = (1 + D) * (1 - D) * ((1 + D) * (1 - D))"
  define k where "k = y3 * y3 - x3 * x3 - 1 - ed_d * (x3 * x3) * (y3 * y3)"
  have "k * W = (y3 * (1 - D)) * (y3 * (1 - D)) * ((1 + D) * (1 + D)) -
      (x3 * (1 + D)) * (x3 * (1 + D)) * ((1 - D) * (1 - D)) - W -
      ed_d * ((x3 * (1 + D)) * (x3 * (1 + D))) * ((y3 * (1 - D)) * (y3 * (1 - D)))"
    unfolding k_def W_def by algebra
  also have "eqp \<dots> (n2 * n2 * ((1 + D) * (1 + D)) - n1 * n1 * ((1 - D) * (1 - D)) - W - ed_d * (n1 * n1) * (n2 * n2))"
    by (intro eqp_diff eqp_mult eqp_refl x y)
  also have "\<dots> = m1 * m2 * (1 + e1 * e2) - (1 - e1 * e2) * (1 - e1 * e2) - e1 * (m2 * m2) - e2 * (m1 * m1)"
    unfolding W_def D_def n1_def n2_def m1_def m2_def e1_def e2_def by (rule curve_identity)
  also have "eqp \<dots> ((1 + e1) * (1 + e2) * (1 + e1 * e2) - (1 - e1 * e2) * (1 - e1 * e2) - e1 * ((1 + e2) * (1 + e2)) -
      e2 * ((1 + e1) * (1 + e1)))"
    by (intro eqp_diff eqp_mult eqp_refl m)
  also have "\<dots> = 0 * W" by algebra
  finally have "eqp (k * W) (0 * W)" .
  then have "eqp k 0" using unit_cancel [of W k 0] u unfolding W_def by (blast intro: unit_mult)
  then have "eqp (k + (1 + ed_d * (x3 * x3) * (y3 * y3))) (0 + (1 + ed_d * (x3 * x3) * (y3 * y3)))"
    by (intro eqp_add eqp_refl)
  then show ?thesis unfolding curve_point_def on_curve_def p k_def by (simp add: algebra_simps)
qed

section \<open>Points in extended coordinates\<close>

definition p3_ok :: "ge_p3 \<Rightarrow> bool" where
  "p3_ok P \<longleftrightarrow> fe_reduced (p3_X P) \<and> fe_reduced (p3_Y P) \<and> fe_reduced (p3_Z P) \<and> fe_reduced (p3_T P)"

definition p3_rep :: "ge_p3 \<Rightarrow> point \<Rightarrow> bool" where
  "p3_rep P a \<longleftrightarrow> p3_ok P \<and> unit_p (fe_val (p3_Z P)) \<and>
     eqp (fe_val (p3_X P)) (fst a * fe_val (p3_Z P)) \<and>
     eqp (fe_val (p3_Y P)) (snd a * fe_val (p3_Z P)) \<and>
     eqp (fe_val (p3_T P)) (fst a * snd a * fe_val (p3_Z P))"

text \<open>What the cached form of a point holds.\<close>

definition cached_rep :: "ge_cached \<Rightarrow> point \<Rightarrow> bool" where
  "cached_rep c a \<longleftrightarrow> fe_mid (YpX c) \<and> fe_reduced (YmX c) \<and> fe_reduced (ca_Z c) \<and> fe_reduced (T2d c) \<and>
     unit_p (fe_val (ca_Z c)) \<and>
     eqp (fe_val (YpX c)) ((snd a + fst a) * fe_val (ca_Z c)) \<and>
     eqp (fe_val (YmX c)) ((snd a - fst a) * fe_val (ca_Z c)) \<and>
     eqp (fe_val (T2d c)) (2 * ed_d * (fst a * snd a) * fe_val (ca_Z c))"

lemma const_2d:
  "fe_reduced (fe_frombytes ed25519_2d_bytes)" "eqp (fe_val (fe_frombytes ed25519_2d_bytes)) (2 * ed_d)"
proof -
  have l: "length ed25519_2d_bytes = 32" by (simp add: ed25519_2d_bytes_def)
  show "fe_reduced (fe_frombytes ed25519_2d_bytes)" by (rule fe_frombytes_reduced [OF l])
  show "eqp (fe_val (fe_frombytes ed25519_2d_bytes)) (2 * ed_d)"
    unfolding fe_frombytes_ok(2) [OF l] eqp_def
    unfolding ed_d_def ed25519_2d_bytes_def ed25519_d_bytes_def p25519_def by simp
qed

lemma ge_p3_to_cached_ok:
  assumes "p3_rep P a"
  shows "cached_rep (ge_p3_to_cached P) a"
proof -
  note r = assms [unfolded p3_rep_def p3_ok_def]
  have b: "fe_reduced (p3_X P)" "fe_reduced (p3_Y P)" "fe_reduced (p3_Z P)" "fe_reduced (p3_T P)" using r by blast+
  note w = b [THEN fe_reduced_wide']
  have "eqp (fe_val (fe_add (p3_Y P) (p3_X P))) (snd a * fe_val (p3_Z P) + fst a * fe_val (p3_Z P))"
    using r by (intro fe_vals w) blast+
  moreover have "eqp (fe_val (fe_sub (p3_Y P) (p3_X P))) (snd a * fe_val (p3_Z P) - fst a * fe_val (p3_Z P))"
    using r by (intro fe_vals w) blast+
  moreover have "eqp (fe_val (fe_mul (p3_T P) (fe_frombytes ed25519_2d_bytes))) (fst a * snd a * fe_val (p3_Z P) * (2 * ed_d))"
    using r by (intro fe_mul_eqp w fe_reduced_wide' const_2d) blast+
  ultimately show ?thesis
    using r b const_2d(1) unfolding cached_rep_def ge_p3_to_cached_def Let_def
    by (auto simp: algebra_simps intro: fe_bounds)
qed

text \<open>From completed to extended coordinates.\<close>

lemma ge_p1p1_to_p3_ok:
  assumes w: "fe_wide (p1_X r)" "fe_wide (p1_Y r)" "fe_wide (p1_Z r)" "fe_wide (p1_T r)"
    and u: "unit_p (fe_val (p1_Z r))" "unit_p (fe_val (p1_T r))"
    and x: "eqp (fe_val (p1_X r)) (fst c * fe_val (p1_Z r))" and y: "eqp (fe_val (p1_Y r)) (snd c * fe_val (p1_T r))"
  shows "p3_rep (ge_p1p1_to_p3 r) c"
proof -
  let ?G = "fe_val (p1_Z r)" and ?F = "fe_val (p1_T r)" and ?P = "ge_p1p1_to_p3 r"
  have Z: "eqp (fe_val (p3_Z ?P)) (?G * ?F)" by (simp add: ge_p1p1_to_p3_def fe_mul_eqp w)
  have cong: "eqp v (k * fe_val (p3_Z ?P))" if "eqp v (k * (?G * ?F))" for v k
    by (rule eqp_trans [OF that eqp_sym [OF eqp_mult [OF eqp_refl Z]]])
  have "eqp (fe_val (p3_X ?P)) (fst c * ?G * ?F)" by (simp add: ge_p1p1_to_p3_def fe_mul_eqp w x)
  then have "eqp (fe_val (p3_X ?P)) (fst c * fe_val (p3_Z ?P))" by (intro cong) (simp only: ac_simps)
  moreover have "eqp (fe_val (p3_Y ?P)) (snd c * ?F * ?G)" by (simp add: ge_p1p1_to_p3_def fe_mul_eqp w y)
  then have "eqp (fe_val (p3_Y ?P)) (snd c * fe_val (p3_Z ?P))" by (intro cong) (simp only: ac_simps)
  moreover have "eqp (fe_val (p3_T ?P)) (fst c * ?G * (snd c * ?F))" by (simp add: ge_p1p1_to_p3_def fe_mul_eqp w x y)
  then have "eqp (fe_val (p3_T ?P)) (fst c * snd c * fe_val (p3_Z ?P))" by (intro cong) (simp only: ac_simps)
  moreover have "unit_p (fe_val (p3_Z ?P))" by (rule unit_cong [OF eqp_sym [OF Z]]) (rule unit_mult [OF u])
  moreover have "p3_ok ?P" unfolding p3_ok_def ge_p1p1_to_p3_def by (simp add: fe_mul_reduced w)
  ultimately show ?thesis unfolding p3_rep_def by blast
qed

lemma ge_add_ok:
  assumes P: "p3_rep P a" and Q: "cached_rep Q b" and s: "ed_sum a b c"
  shows "p3_rep (ge_p1p1_to_p3 (ge_add P Q)) c"
proof -
  obtain x1 y1 x2 y2 x3 y3 where p: "a = (x1, y1)" "b = (x2, y2)" "c = (x3, y3)" by (metis surj_pair)
  define Z1 where "Z1 = fe_val (p3_Z P)"
  define Z2 where "Z2 = fe_val (ca_Z Q)"
  define D where "D = ed_d * (x1 * x2) * (y1 * y2)"
  note r = P [unfolded p3_rep_def p3_ok_def p fst_conv snd_conv Z1_def [symmetric]]
  note q = Q [unfolded cached_rep_def p fst_conv snd_conv Z2_def [symmetric]]
  have b: "fe_reduced (p3_X P)" "fe_reduced (p3_Y P)" "fe_reduced (p3_Z P)" "fe_reduced (p3_T P)" using r by blast+
  have bq: "fe_mid (YpX Q)" "fe_reduced (YmX Q)" "fe_reduced (ca_Z Q)" "fe_reduced (T2d Q)" using q by blast+
  note w = b [THEN fe_reduced_wide'] fe_mid_wide [OF bq(1)] bq(2-4) [THEN fe_reduced_wide']
  define A where "A = fe_mul (fe_add (p3_Y P) (p3_X P)) (YpX Q)"
  define B where "B = fe_mul (fe_sub (p3_Y P) (p3_X P)) (YmX Q)"
  define C where "C = fe_mul (T2d Q) (p3_T P)"
  define E where "E = fe_mul (p3_Z P) (ca_Z Q)"
  have res: "ge_add P Q = \<lparr>p1_X = fe_sub A B, p1_Y = fe_add A B, p1_Z = fe_add (fe_add E E) C, p1_T = fe_sub (fe_add E E) C\<rparr>"
    by (simp add: ge_add_def Let_def A_def B_def C_def E_def)
  have R: "fe_reduced A" "fe_reduced B" "fe_reduced C" "fe_reduced E"
    unfolding A_def B_def C_def E_def by (intro fe_bounds b w fe_mid_wide fe_add_mid)+
  have vA: "eqp (fe_val A) ((y1 * Z1 + x1 * Z1) * ((y2 + x2) * Z2))"
    unfolding A_def using r q by (intro fe_vals w fe_mid_wide fe_add_mid b) blast+
  have vB: "eqp (fe_val B) ((y1 * Z1 - x1 * Z1) * ((y2 - x2) * Z2))"
    unfolding B_def using r q by (intro fe_vals w fe_reduced_wide' fe_sub_reduced' b) blast+
  have vC: "eqp (fe_val C) (2 * ed_d * (x2 * y2) * Z2 * (x1 * y1 * Z1))"
    unfolding C_def using r q by (intro fe_vals w) blast+
  have vE: "eqp (fe_val E) (Z1 * Z2)" unfolding E_def Z1_def Z2_def by (intro fe_vals w) simp_all
  have m: "fe_mid (fe_add E E)" by (intro fe_bounds R)
  have vX: "eqp (fe_val (p1_X (ge_add P Q))) ((x1 * y2 + y1 * x2) * (2 * (Z1 * Z2)))"
  proof -
    have "eqp (fe_val (fe_sub A B)) ((y1 * Z1 + x1 * Z1) * ((y2 + x2) * Z2) - (y1 * Z1 - x1 * Z1) * ((y2 - x2) * Z2))"
      by (intro fe_vals R [THEN fe_reduced_wide'] vA vB)
    then show ?thesis unfolding res by (simp add: algebra_simps)
  qed
  have vY: "eqp (fe_val (p1_Y (ge_add P Q))) ((y1 * y2 + x1 * x2) * (2 * (Z1 * Z2)))"
  proof -
    have "eqp (fe_val (fe_add A B)) ((y1 * Z1 + x1 * Z1) * ((y2 + x2) * Z2) + (y1 * Z1 - x1 * Z1) * ((y2 - x2) * Z2))"
      by (intro fe_vals R [THEN fe_reduced_wide'] vA vB)
    then show ?thesis unfolding res by (simp add: algebra_simps)
  qed
  have vEE: "eqp (fe_val (fe_add E E)) (Z1 * Z2 + Z1 * Z2)" by (intro fe_vals R [THEN fe_reduced_wide'] vE)
  have vZ: "eqp (fe_val (p1_Z (ge_add P Q))) ((1 + D) * (2 * (Z1 * Z2)))"
  proof -
    have "eqp (fe_val (fe_add (fe_add E E) C)) (Z1 * Z2 + Z1 * Z2 + 2 * ed_d * (x2 * y2) * Z2 * (x1 * y1 * Z1))"
      by (intro fe_vals R [THEN fe_reduced_wide'] vC vEE fe_mid_wide m)
    then show ?thesis unfolding res D_def by (simp add: algebra_simps)
  qed
  have vT: "eqp (fe_val (p1_T (ge_add P Q))) ((1 - D) * (2 * (Z1 * Z2)))"
  proof -
    have "eqp (fe_val (fe_sub (fe_add E E) C)) (Z1 * Z2 + Z1 * Z2 - 2 * ed_d * (x2 * y2) * Z2 * (x1 * y1 * Z1))"
      by (intro fe_vals R [THEN fe_reduced_wide'] vC vEE fe_mid_wide m)
    then show ?thesis unfolding res D_def by (simp add: algebra_simps)
  qed
  note s' = s [unfolded ed_sum_def ed_delta_def p fst_conv snd_conv, folded D_def]
  have u: "unit_p (2 * (Z1 * Z2))" using r q by (blast intro: unit_mult unit_two)
  show ?thesis
  proof (rule ge_p1p1_to_p3_ok)
    show "fe_wide (p1_X (ge_add P Q))" "fe_wide (p1_Y (ge_add P Q))" "fe_wide (p1_Z (ge_add P Q))" "fe_wide (p1_T (ge_add P Q))"
      unfolding res using R m by (auto intro!: fe_add_wide intro: fe_mid_wide fe_reduced_wide' fe_reduced_mid fe_add_mid fe_sub_reduced')
    show "unit_p (fe_val (p1_Z (ge_add P Q)))" "unit_p (fe_val (p1_T (ge_add P Q)))"
      using s' u by (blast intro: unit_cong [OF eqp_sym [OF vZ]] unit_cong [OF eqp_sym [OF vT]] unit_mult)+
    have "eqp ((x1 * y2 + y1 * x2) * (2 * (Z1 * Z2))) (x3 * (1 + D) * (2 * (Z1 * Z2)))"
      using s' by (blast intro: eqp_mult eqp_sym)
    then have "eqp ((x1 * y2 + y1 * x2) * (2 * (Z1 * Z2))) (x3 * ((1 + D) * (2 * (Z1 * Z2))))" by (simp only: mult.assoc)
    then show "eqp (fe_val (p1_X (ge_add P Q))) (fst c * fe_val (p1_Z (ge_add P Q)))"
      unfolding p fst_conv by (blast intro: eqp_trans eqp_mult eqp_sym [OF vZ] vX)
    have "eqp ((y1 * y2 + x1 * x2) * (2 * (Z1 * Z2))) (y3 * (1 - D) * (2 * (Z1 * Z2)))"
      using s' by (blast intro: eqp_mult eqp_sym)
    then have "eqp ((y1 * y2 + x1 * x2) * (2 * (Z1 * Z2))) (y3 * ((1 - D) * (2 * (Z1 * Z2))))" by (simp only: mult.assoc)
    then show "eqp (fe_val (p1_Y (ge_add P Q))) (snd c * fe_val (p1_T (ge_add P Q)))"
      unfolding p snd_conv by (blast intro: eqp_trans eqp_mult eqp_sym [OF vT] vY)
  qed
qed

text \<open>
  Doubling subtracts the doubled square of \<open>Z\<close>; its difference is reduced when that square, as the limbs
  represent it, is at most \<open>2 p\<close> above the minuend.
\<close>

definition dbl_safe :: "ge_p3 \<Rightarrow> bool" where
  "dbl_safe Q \<longleftrightarrow>
     fe_val (fe_add (fe_sq (p3_Z Q)) (fe_sq (p3_Z Q))) \<le>
     fe_val (fe_add (fe_neg (fe_sq (p3_X Q))) (fe_sq (p3_Y Q))) + 2 * p25519"

lemma unit_minus: "unit_p a \<Longrightarrow> unit_p (- a)"
proof -
  assume "unit_p a"
  then obtain w where "eqp (a * w) 1" unfolding unit_p_def by blast
  then show ?thesis unfolding unit_p_def by (intro exI [of _ "- w"]) simp
qed

lemma ge_double_ok:
  assumes P: "p3_rep P a" and c: "curve_point a" and s: "ed_sum a a b" and d: "dbl_safe P"
  shows "p3_rep (ge_double P) b"
proof -
  obtain x y x3 y3 where p: "a = (x, y)" "b = (x3, y3)" by (metis surj_pair)
  define Z where "Z = fe_val (p3_Z P)"
  define D where "D = ed_d * (x * x) * (y * y)"
  note r = P [unfolded p3_rep_def p3_ok_def p fst_conv snd_conv Z_def [symmetric]]
  have b: "fe_reduced (p3_X P)" "fe_reduced (p3_Y P)" "fe_reduced (p3_Z P)" using r by blast+
  note w = b [THEN fe_reduced_wide']
  define A where "A = fe_sq (p3_X P)"
  define B where "B = fe_sq (p3_Y P)"
  define S where "S = fe_sq (p3_Z P)"
  define N where "N = fe_neg A"
  define G where "G = fe_add N B"
  define E where "E = fe_sub (fe_sub (fe_sq (fe_add (p3_X P) (p3_Y P))) A) B"
  define F where "F = fe_sub G (fe_add S S)"
  define r1 where "r1 = \<lparr>p1_X = E, p1_Y = fe_sub N B, p1_Z = G, p1_T = F\<rparr>"
  have res: "ge_double P = ge_p1p1_to_p3 r1"
    by (simp add: ge_double_def ge_p3_to_p2_def ge_p2_dbl_def Let_def r1_def A_def B_def S_def N_def G_def E_def F_def)
  have R: "fe_reduced A" "fe_reduced B" "fe_reduced S"
    unfolding A_def B_def S_def by (intro fe_sq_reduced w)+
  have RN: "fe_reduced N" unfolding N_def by (intro fe_neg_reduced R)
  have mG: "fe_mid G" unfolding G_def by (intro fe_add_mid R RN)
  have mS: "fe_mid (fe_add S S)" by (intro fe_add_mid R)
  have mXY: "fe_mid (fe_add (p3_X P) (p3_Y P))" by (intro fe_add_mid b)
  have q: "fe_reduced (fe_sub (fe_sq (fe_add (p3_X P) (p3_Y P))) A)"
    by (intro fe_sub_reduced' fe_reduced_wide' fe_sq_reduced fe_mid_wide mXY R)
  have RE: "fe_reduced E" unfolding E_def by (intro fe_sub_reduced' fe_reduced_wide' q R)
  have RF: "fe_reduced F"
    unfolding F_def
    by (rule fe_sub_ok(2) [OF fe_mid_wide [OF mG, unfolded fe_wide_def] fe_mid_wide [OF mS, unfolded fe_wide_def]])
      (use d in \<open>simp add: dbl_safe_def G_def N_def A_def B_def S_def\<close>)
  have vA: "eqp (fe_val A) (x * Z * (x * Z))" and vB: "eqp (fe_val B) (y * Z * (y * Z))" and vS: "eqp (fe_val S) (Z * Z)"
    unfolding A_def B_def S_def using r by (blast intro: fe_sq_eqp w)
      (use r in \<open>blast intro: fe_sq_eqp w\<close>, simp add: Z_def fe_sq_eqp w)
  have vN: "eqp (fe_val N) (- (x * Z * (x * Z)))" unfolding N_def by (intro fe_neg_eqp fe_reduced_wide' R vA)
  have vG0: "eqp (fe_val G) (- (x * Z * (x * Z)) + y * Z * (y * Z))"
    unfolding G_def by (intro fe_add_eqp fe_reduced_wide' R RN vN vB)
  have cv: "eqp (y * y - x * x) (1 + D)" using c by (simp add: curve_point_def on_curve_def p D_def)
  have "eqp ((y * y - x * x) * (Z * Z)) ((1 + D) * (Z * Z))" by (intro eqp_mult cv eqp_refl)
  then have vG: "eqp (fe_val G) ((1 + D) * (Z * Z))" using vG0 by (simp add: algebra_simps) (blast intro: eqp_trans)
  have vF0: "eqp (fe_val F) ((1 + D) * (Z * Z) - (Z * Z + Z * Z))"
    unfolding F_def by (intro fe_sub_eqp fe_mid_wide mG mS vG fe_add_eqp fe_reduced_wide' R vS)
  then have vF: "eqp (fe_val F) (- ((1 - D) * (Z * Z)))" by (simp add: algebra_simps)
  have "eqp (fe_val E) ((x * Z + y * Z) * (x * Z + y * Z) - x * Z * (x * Z) - y * Z * (y * Z))"
    unfolding E_def using r
    by (intro fe_sub_eqp fe_reduced_wide' q R fe_sq_reduced fe_mid_wide mXY vA vB fe_sq_eqp fe_add_eqp w) blast+
  then have vE: "eqp (fe_val E) (2 * (x * y) * (Z * Z))" by (simp add: algebra_simps)
  have "eqp (fe_val (fe_sub N B)) (- (x * Z * (x * Z)) - y * Z * (y * Z))"
    by (intro fe_sub_eqp fe_reduced_wide' R RN vN vB)
  then have vH: "eqp (fe_val (fe_sub N B)) (- ((y * y + x * x) * (Z * Z)))" by (simp add: algebra_simps)
  have s': "unit_p (1 + D)" "unit_p (1 - D)" "eqp (x3 * (1 + D)) (x * y + y * x)" "eqp (y3 * (1 - D)) (y * y + x * x)"
    using s by (simp_all add: ed_sum_def ed_delta_def p D_def)
  have uz: "unit_p (Z * Z)" using r by (blast intro: unit_mult)
  show ?thesis unfolding res
  proof (rule ge_p1p1_to_p3_ok)
    show "fe_wide (p1_X r1)" "fe_wide (p1_Y r1)" "fe_wide (p1_Z r1)" "fe_wide (p1_T r1)"
      unfolding r1_def using RE RF RN R mG by (auto intro: fe_reduced_wide' fe_mid_wide fe_sub_reduced')
    show "unit_p (fe_val (p1_Z r1))" "unit_p (fe_val (p1_T r1))"
      unfolding r1_def using s' uz
      by (auto intro: unit_cong [OF eqp_sym [OF vG]] unit_cong [OF eqp_sym [OF vF]] unit_mult unit_minus)
    have "eqp (x3 * (1 + D) * (Z * Z)) ((x * y + y * x) * (Z * Z))" by (intro eqp_mult s' eqp_refl)
    moreover have "eqp (x3 * fe_val G) (x3 * ((1 + D) * (Z * Z)))" by (intro eqp_mult vG eqp_refl)
    ultimately have "eqp (x3 * fe_val G) (2 * (x * y) * (Z * Z))"
      by (simp add: algebra_simps) (blast intro: eqp_trans)
    then show "eqp (fe_val (p1_X r1)) (fst b * fe_val (p1_Z r1))"
      unfolding r1_def p by (simp add: eqp_trans [OF vE eqp_sym])
    have "eqp (- (y3 * (1 - D) * (Z * Z))) (- ((y * y + x * x) * (Z * Z)))" by (intro eqp_minus eqp_mult s' eqp_refl)
    moreover have "eqp (y3 * fe_val F) (y3 * (- ((1 - D) * (Z * Z))))" by (intro eqp_mult vF eqp_refl)
    ultimately have "eqp (y3 * fe_val F) (- ((y * y + x * x) * (Z * Z)))"
      by (simp add: mult.assoc) (blast intro: eqp_trans)
    then show "eqp (fe_val (p1_Y r1)) (snd b * fe_val (p1_T r1))"
      unfolding r1_def p by (simp add: eqp_trans [OF vH eqp_sym])
  qed
qed

section \<open>Encoding and decoding\<close>

lemma fe_isneg_wide: "fe_wide f \<Longrightarrow> fe_isneg f = (if odd (fe_val f mod p25519) then 1 else 0)"
  unfolding fe_wide_def by (rule fe_isneg_ok)

lemma fe_isnonzero_wide: "fe_wide f \<Longrightarrow> fe_isnonzero f \<longleftrightarrow> \<not> eqp (fe_val f) 0"
  unfolding fe_wide_def by (rule fe_isnonzero_ok)

lemma ge_tobytes_ok:
  assumes P: "p3_rep P (x, y)" and z: "eqp (fe_val (p3_Z P) ^ (2 ^ 255 - 20)) 1"
  shows "ge_tobytes P = (let s = le_bytes 32 (nat (y mod p25519))
    in s[31 := s ! 31 XOR (if odd (x mod p25519) then 0x80 else 0)])"
proof -
  define r where "r = fe_invert (p3_Z P)"
  define e :: nat where "e = 2 ^ 255 - 21"
  define Z where "Z = fe_val (p3_Z P)"
  have k: "fe_wide (p3_X P)" "fe_wide (p3_Y P)" "fe_wide (p3_Z P)" and
    v: "eqp (fe_val (p3_X P)) (x * Z)" "eqp (fe_val (p3_Y P)) (y * Z)"
    using P by (auto simp: p3_rep_def p3_ok_def Z_def intro: fe_reduced_wide')
  note i = fe_powers_ok(1,2) [OF k(3) [unfolded fe_wide_def], folded r_def e_def Z_def]
  have "2 ^ 255 - 20 = Suc e" by (simp add: e_def)
  then have one: "eqp (Z * Z ^ e) 1" using z by (simp only: Z_def power_Suc)
  have inv: "eqp (fe_val (fe_mul f r)) c" if "fe_wide f" "eqp (fe_val f) (c * Z)" for f c
  proof -
    have "eqp (fe_val (fe_mul f r)) (c * Z * Z ^ e)" by (intro fe_mul_eqp that fe_reduced_wide' i)
    also have "c * Z * Z ^ e = c * (Z * Z ^ e)" by (simp only: mult.assoc)
    also have "eqp \<dots> (c * 1)" by (intro eqp_mult one eqp_refl)
    finally show ?thesis by simp
  qed
  have w: "fe_wide (fe_mul (p3_X P) r)" "fe_wide (fe_mul (p3_Y P) r)" by (intro fe_reduced_wide' fe_mul_reduced k i)+
  have "fe_tobytes (fe_mul (p3_Y P) r) = le_bytes 32 (nat (y mod p25519))"
    by (rule tobytes_cong [OF w(2) [unfolded fe_wide_def] inv [OF k(2) v(2)]])
  moreover have "fe_isneg (fe_mul (p3_X P) r) = (if odd (x mod p25519) then 1 else 0)"
    unfolding fe_isneg_wide [OF w(1)] using inv [OF k(1) v(1)] by (simp only: eqp_def)
  ultimately show ?thesis unfolding ge_tobytes_def r_def [symmetric] by (simp add: Let_def)
qed

lemma const_d: "fe_reduced (fe_frombytes ed25519_d_bytes)" "eqp (fe_val (fe_frombytes ed25519_d_bytes)) ed_d"
proof -
  have l: "length ed25519_d_bytes = 32" by (simp add: ed25519_d_bytes_def)
  show "fe_reduced (fe_frombytes ed25519_d_bytes)" by (rule fe_frombytes_reduced [OF l])
  show "eqp (fe_val (fe_frombytes ed25519_d_bytes)) ed_d"
    unfolding fe_frombytes_ok(2) [OF l] eqp_def
    unfolding ed_d_def ed25519_d_bytes_def p25519_def by simp
qed

lemma const_sqrtm1:
  defines "i \<equiv> fe_val (fe_frombytes ed25519_sqrtm1_bytes)"
  shows "fe_reduced (fe_frombytes ed25519_sqrtm1_bytes)" "eqp (i * i) (- 1)"
proof -
  have l: "length ed25519_sqrtm1_bytes = 32" by (simp add: ed25519_sqrtm1_bytes_def)
  show "fe_reduced (fe_frombytes ed25519_sqrtm1_bytes)" by (rule fe_frombytes_reduced [OF l])
  show "eqp (i * i) (- 1)"
    unfolding i_def fe_frombytes_ok(2) [OF l]
    by (rule eqp_shift [of _ _ 6690407189080634018507799843845558368979872843924222843531373839242004886245])
      (simp add: ed25519_sqrtm1_bytes_def p25519_def)
qed

lemma clear_sign_bit:
  assumes "length s = 32"
  shows "le_val (s[31 := s ! 31 AND 0x7F]) mod 2 ^ 255 = le_val s mod 2 ^ 255"
proof -
  have m: "(0x7F :: u8) = mask 7" by (simp add: mask_eq_exp_minus_1)
  have "take_bit 255 (le_val (s[31 := s ! 31 AND 0x7F])) = take_bit 255 (le_val s)"
  proof (rule bit_eqI)
    fix n
    show "bit (take_bit 255 (le_val (s[31 := s ! 31 AND 0x7F]))) n = bit (take_bit 255 (le_val s)) n"
    proof (cases "n div 8 = 31 \<and> n < 255")
      case True
      then have "n mod 8 < 7" using minus_mult_div_eq_mod [of n 8] by linarith
      then show ?thesis using True assms by (simp add: bit_take_bit_iff bit_le_val m bit_and_iff bit_mask_iff)
    next
      case False
      then show ?thesis using assms by (auto simp: bit_take_bit_iff bit_le_val)
    qed
  qed
  then show ?thesis by (simp only: take_bit_eq_mod)
qed

lemma odd_neg_mod:
  assumes "\<not> eqp x 0"
  shows "odd ((- x) mod p25519) \<longleftrightarrow> even (x mod p25519)"
proof -
  have "x mod p25519 \<noteq> 0" using assms by (simp add: eqp_def)
  then have "(- x) mod p25519 = p25519 - x mod p25519" by (simp add: zmod_zminus1_eq_if)
  then show ?thesis by (simp add: p25519_def)
qed

text \<open>The point equation solved for \<open>x\<close>: \<open>v x ^ 2 = u\<close>.\<close>

lemma curve_from_root:
  assumes "eqp (x * x * (ed_d * (y * y) + 1)) (y * y - 1)"
  shows "on_curve x y"
proof -
  have "eqp (y * y - 1 - x * x + 1) (x * x * (ed_d * (y * y) + 1) - x * x + 1)"
    by (intro eqp_add eqp_diff eqp_refl eqp_sym [OF assms])
  then show ?thesis unfolding on_curve_def by (simp add: algebra_simps)
qed

text \<open>The stages of decoding, for the proofs.\<close>

definition dec_Y :: "bytes \<Rightarrow> fe" where
  "dec_Y s = fe_frombytes (s[31 := s ! 31 AND 0x7F])"

definition dec_u :: "bytes \<Rightarrow> fe" where
  "dec_u s = fe_sub (fe_sq (dec_Y s)) fe_1"

definition dec_v :: "bytes \<Rightarrow> fe" where
  "dec_v s = fe_add (fe_mul (fe_frombytes ed25519_d_bytes) (fe_copy (fe_sq (dec_Y s)))) fe_1"

definition dec_root :: "fe \<Rightarrow> fe \<Rightarrow> fe" where
  "dec_root u v = (let v3 = fe_mul (fe_sq v) v
     in fe_mul (fe_mul u v3) (fe_pow2523 (fe_mul u (fe_mul (fe_sq v3) v))))"

definition dec_point :: "bytes \<Rightarrow> fe \<Rightarrow> ge_p3" where
  "dec_point s X1 = (let X = (if fe_isneg X1 \<noteq> drop_bit 7 (s ! 31) AND 1 then fe_neg X1 else X1)
     in \<lparr>p3_X = X, p3_Y = dec_Y s, p3_Z = fe_1, p3_T = fe_mul X (dec_Y s)\<rparr>)"

lemma ge_frombytes_code:
  "ge_frombytes s =
    (let u = dec_u s; v = dec_v s; X0 = dec_root u v
     in case (if fe_isnonzero (fe_sub (fe_mul (fe_sq X0) v) u)
             then if fe_isnonzero (fe_add (fe_mul (fe_sq X0) v) u) then None
                  else Some (fe_mul X0 (fe_frombytes ed25519_sqrtm1_bytes))
             else Some X0) of None \<Rightarrow> None | Some X \<Rightarrow> Some (dec_point s X))"
  by (simp only: ge_frombytes_def Let_def dec_u_def dec_v_def dec_root_def dec_point_def dec_Y_def)

lemma dec_bounds:
  assumes "length s = 32"
  shows "fe_reduced (dec_Y s)" "fe_reduced (dec_u s)" "fe_mid (dec_v s)"
    "fe_val (dec_Y s) = int (le_val s mod 2 ^ 255)"
proof -
  have l: "length (s[31 := s ! 31 AND 0x7F]) = 32" using assms by simp
  show Y: "fe_reduced (dec_Y s)" unfolding dec_Y_def by (rule fe_frombytes_reduced [OF l])
  show "fe_reduced (dec_u s)" unfolding dec_u_def by (intro fe_bounds Y)
  show "fe_mid (dec_v s)" unfolding dec_v_def fe_copy_id by (intro fe_bounds Y const_d)
  show "fe_val (dec_Y s) = int (le_val s mod 2 ^ 255)"
    unfolding dec_Y_def fe_frombytes_ok(2) [OF l] clear_sign_bit [OF assms] ..
qed

lemma dec_vals:
  assumes "length s = 32"
  defines "y \<equiv> int (le_val s mod 2 ^ 255)"
  shows "eqp (fe_val (dec_u s)) (y * y - 1)" "eqp (fe_val (dec_v s)) (ed_d * (y * y) + 1)"
proof -
  note Y = dec_bounds [OF assms(1), folded y_def]
  show "eqp (fe_val (dec_u s)) (y * y - 1)" unfolding dec_u_def
    by (intro fe_sub_eqp fe_reduced_wide' fe_sq_reduced Y fe_const_reduced fe_sq_eqp fe_one_eqp) (simp add: Y)
  show "eqp (fe_val (dec_v s)) (ed_d * (y * y) + 1)" unfolding dec_v_def fe_copy_id
    by (intro fe_add_eqp fe_mul_eqp fe_reduced_wide' fe_mul_reduced fe_sq_reduced Y fe_const_reduced fe_sq_eqp fe_one_eqp const_d)
      (simp add: Y)
qed

lemma dec_root_reduced: "fe_reduced u \<Longrightarrow> fe_mid v \<Longrightarrow> fe_reduced (dec_root u v)"
  unfolding dec_root_def Let_def
  by (intro fe_mul_reduced fe_reduced_wide' fe_mid_wide fe_sq_reduced fe_powers_ok(3) [folded fe_wide_def])

lemma ge_frombytes_ok:
  assumes s: "length s = 32" and P: "ge_frombytes s = Some P"
  defines "x \<equiv> fe_val (p3_X P)" and "y \<equiv> int (le_val s mod 2 ^ 255)"
  shows "p3_rep P (x, y)" "on_curve x y"
    "eqp x 0 \<or> (if odd (x mod p25519) then 1 else 0) = drop_bit 7 (s ! 31) AND 1"
proof -
  define Y where "Y = dec_Y s"
  define u where "u = dec_u s"
  define v where "v = dec_v s"
  define X0 where "X0 = dec_root u v"
  define X1 where "X1 = (if fe_isnonzero (fe_sub (fe_mul (fe_sq X0) v) u) then fe_mul X0 (fe_frombytes ed25519_sqrtm1_bytes) else X0)"
  have RY: "fe_reduced Y" and Ru: "fe_reduced u" and mv: "fe_mid v" and vY: "fe_val Y = y"
    using dec_bounds [OF s] by (simp_all add: Y_def u_def v_def y_def)
  note wv = fe_mid_wide [OF mv]
  have R0: "fe_reduced X0" unfolding X0_def by (rule dec_root_reduced [OF Ru mv])
  have vu: "eqp (fe_val u) (y * y - 1)" and vv: "eqp (fe_val v) (ed_d * (y * y) + 1)"
    using dec_vals [OF s] by (simp_all add: u_def v_def y_def)
  have c1: "eqp (fe_val (fe_mul (fe_sq X0) v)) (fe_val X0 * fe_val X0 * (ed_d * (y * y) + 1))"
    by (intro fe_mul_eqp fe_reduced_wide' fe_sq_reduced R0 wv fe_sq_eqp vv eqp_refl)
  have b1: "fe_reduced (fe_mul (fe_sq X0) v)" by (intro fe_mul_reduced fe_reduced_wide' fe_sq_reduced R0 wv)
  define pt where "pt = dec_point s"
  note code = ge_frombytes_code [of s, folded u_def v_def, unfolded Let_def, folded X0_def pt_def]
  have "eqp (fe_val X1 * fe_val X1 * (ed_d * (y * y) + 1)) (y * y - 1) \<and> fe_reduced X1 \<and> P = pt X1"
  proof (cases "fe_isnonzero (fe_sub (fe_mul (fe_sq X0) v) u)")
    case False
    then have X1: "X1 = X0" by (simp add: X1_def)
    have "eqp (fe_val (fe_sub (fe_mul (fe_sq X0) v) u)) 0"
      using False by (simp add: fe_isnonzero_wide fe_reduced_wide' fe_sub_reduced' b1 Ru)
    moreover have "eqp (fe_val (fe_sub (fe_mul (fe_sq X0) v) u))
        (fe_val X0 * fe_val X0 * (ed_d * (y * y) + 1) - (y * y - 1))"
      by (intro fe_sub_eqp fe_reduced_wide' b1 Ru c1 vu)
    ultimately have "eqp (fe_val X0 * fe_val X0 * (ed_d * (y * y) + 1) - (y * y - 1)) 0"
      by (blast intro: eqp_sym eqp_trans)
    then have "eqp (fe_val X0 * fe_val X0 * (ed_d * (y * y) + 1) - (y * y - 1) + (y * y - 1)) (0 + (y * y - 1))"
      by (intro eqp_add eqp_refl)
    then show ?thesis using P False R0 unfolding code X1 by simp
  next
    case True
    define i where "i = fe_val (fe_frombytes ed25519_sqrtm1_bytes)"
    have X1: "X1 = fe_mul X0 (fe_frombytes ed25519_sqrtm1_bytes)" using True by (simp add: X1_def)
    have z: "\<not> fe_isnonzero (fe_add (fe_mul (fe_sq X0) v) u)" and pP: "P = pt X1"
      using P True unfolding code X1 by (auto split: if_splits)
    have "eqp (fe_val (fe_add (fe_mul (fe_sq X0) v) u)) 0"
      using z by (simp add: fe_isnonzero_wide fe_mid_wide fe_add_mid b1 Ru)
    moreover have "eqp (fe_val (fe_add (fe_mul (fe_sq X0) v) u))
        (fe_val X0 * fe_val X0 * (ed_d * (y * y) + 1) + (y * y - 1))"
      by (intro fe_add_eqp fe_reduced_wide' b1 Ru c1 vu)
    ultimately have "eqp (fe_val X0 * fe_val X0 * (ed_d * (y * y) + 1) + (y * y - 1)) 0"
      by (blast intro: eqp_sym eqp_trans)
    then have "eqp (- (fe_val X0 * fe_val X0 * (ed_d * (y * y) + 1) + (y * y - 1)) + (y * y - 1)) (- 0 + (y * y - 1))"
      by (intro eqp_add eqp_minus eqp_refl)
    then have n: "eqp (- (fe_val X0 * fe_val X0 * (ed_d * (y * y) + 1))) (y * y - 1)" by simp
    have v1: "eqp (fe_val X1) (fe_val X0 * i)"
      unfolding X1 i_def by (intro fe_mul_eqp fe_reduced_wide' R0 const_sqrtm1 eqp_refl)
    have "eqp (fe_val X1 * fe_val X1 * (ed_d * (y * y) + 1)) (fe_val X0 * i * (fe_val X0 * i) * (ed_d * (y * y) + 1))"
      by (intro eqp_mult v1 eqp_refl)
    also have "fe_val X0 * i * (fe_val X0 * i) * (ed_d * (y * y) + 1) = (i * i) * (fe_val X0 * fe_val X0 * (ed_d * (y * y) + 1))"
      by (simp only: ac_simps)
    also have "eqp \<dots> (- 1 * (fe_val X0 * fe_val X0 * (ed_d * (y * y) + 1)))"
      unfolding i_def by (intro eqp_mult const_sqrtm1 eqp_refl)
    finally have "eqp (fe_val X1 * fe_val X1 * (ed_d * (y * y) + 1)) (y * y - 1)" using n by (simp only: mult_minus_left mult_1) (rule eqp_trans)
    moreover have "fe_reduced X1" unfolding X1 by (intro fe_mul_reduced fe_reduced_wide' R0 const_sqrtm1)
    ultimately show ?thesis using pP by blast
  qed
  then have sx: "eqp (fe_val X1 * fe_val X1 * (ed_d * (y * y) + 1)) (y * y - 1)" and R1: "fe_reduced X1" and pp: "P = pt X1"
    by blast+
  define X where "X = (if fe_isneg X1 \<noteq> drop_bit 7 (s ! 31) AND 1 then fe_neg X1 else X1)"
  have pX: "P = \<lparr>p3_X = X, p3_Y = Y, p3_Z = fe_1, p3_T = fe_mul X Y\<rparr>" using pp by (simp add: pt_def dec_point_def X_def Y_def Let_def)
  have xX: "x = fe_val X" by (simp add: x_def pX)
  have RX: "fe_reduced X" unfolding X_def using R1 by (simp add: fe_neg_reduced)
  have neg: "eqp (fe_val (fe_neg X1)) (- fe_val X1)" by (intro fe_neg_eqp fe_reduced_wide' R1 eqp_refl)
  have "eqp (x * x) (fe_val X1 * fe_val X1)"
    unfolding xX X_def using eqp_mult [OF neg neg] by simp
  then have "eqp (x * x * (ed_d * (y * y) + 1)) (fe_val X1 * fe_val X1 * (ed_d * (y * y) + 1))"
    by (rule eqp_mult [OF _ eqp_refl])
  then show "on_curve x y" by (intro curve_from_root) (rule eqp_trans [OF _ sx])
  have one: "fe_val fe_1 = 1" by (simp add: fe_1_def)
  have "eqp (fe_val (fe_mul X Y)) (x * y)"
    by (intro fe_mul_eqp fe_reduced_wide' RX RY) (simp_all add: xX vY)
  then show "p3_rep P (x, y)"
    by (simp add: p3_rep_def p3_ok_def pX RX RY xX vY one fe_const_reduced fe_mul_reduced fe_reduced_wide')
  show "eqp x 0 \<or> (if odd (x mod p25519) then 1 else 0) = drop_bit 7 (s ! 31) AND 1"
  proof (cases "fe_isneg X1 = drop_bit 7 (s ! 31) AND 1")
    case True
    then show ?thesis unfolding xX X_def using fe_isneg_wide [OF fe_reduced_wide' [OF R1]] by simp
  next
    case False
    have "x = fe_val (fe_neg X1)" using False by (simp add: xX X_def)
    then have xn: "eqp x (- fe_val X1)" using neg by simp
    have b: "drop_bit 7 (s ! 31) AND 1 = 0 \<or> drop_bit 7 (s ! 31) AND 1 = 1"
      by (auto simp: and_one_eq mod2_eq_if)
    show ?thesis
    proof (cases "eqp x 0")
      case n: False
      have "\<not> eqp (fe_val X1) 0" using n xn eqp_minus [of "fe_val X1" 0] by (auto dest: eqp_trans)
      then have "odd (x mod p25519) \<longleftrightarrow> even (fe_val X1 mod p25519)"
        using odd_neg_mod xn by (simp add: eqp_def)
      then show ?thesis using False b fe_isneg_wide [OF fe_reduced_wide' [OF R1]] by auto
    qed simp
  qed
qed

section \<open>Properties\<close>

text \<open>
  C17. Addition of points: from two points in extended coordinates that represent affine points whose sum
  by the Edwards law is defined, the cached form, the addition and the conversion back give extended
  coordinates of that sum; a sum of curve points is on the curve.
\<close>

theorem point_addition_refines:
  assumes "p3_rep P a" "p3_rep Q b" "ed_sum a b c"
  shows "p3_rep (ge_p1p1_to_p3 (ge_add P (ge_p3_to_cached Q))) c \<and>
    (curve_point a \<and> curve_point b \<longrightarrow> curve_point c)"
  using ge_add_ok [OF assms(1) ge_p3_to_cached_ok [OF assms(2)] assms(3)] ed_sum_on_curve assms(3) by blast

text \<open>The point of order two, used in the examples.\<close>

definition point_two :: ge_p3 where
  "point_two = \<lparr>p3_X = fe_0, p3_Y = fe_neg fe_1, p3_Z = fe_1, p3_T = fe_0\<rparr>"

lemma point_two_rep: "p3_rep point_two (0, -1)" "curve_point (0, -1)"
proof -
  have "eqp (fe_val (fe_neg fe_1)) (- 1)" by (intro fe_vals fe_reduced_wide' fe_const_reduced)
  moreover have "fe_val fe_1 = 1" "fe_val fe_0 = 0" by (simp_all add: fe_1_def fe_0_def)
  ultimately show "p3_rep point_two (0, -1)"
    by (simp add: p3_rep_def p3_ok_def point_two_def fe_const_reduced fe_neg_reduced)
  show "curve_point (0, -1)" by (simp add: curve_point_def on_curve_def)
qed

lemma sum_with_zero: "ed_sum (0, 1) (x, y) (x, y)" "ed_sum (0, -1) (0, -1) (0, 1)"
  by (simp_all add: ed_sum_def ed_delta_def)

theorem point_addition_refines_witness:
  "p3_rep (ge_p1p1_to_p3 (ge_add point_two (ge_p3_to_cached point_two))) (0, 1)"
  using point_addition_refines [OF point_two_rep(1) point_two_rep(1) sum_with_zero(2)] by blast

definition scalar_one :: bytes where
  "scalar_one = 1 # replicate 31 0"

text \<open>
  C21. Decoding is sound: a decoded point has the affine coordinates \<open>(x, y)\<close> with \<open>y\<close> the low 255 bits of
  the string, it is on the curve, and the parity of \<open>x\<close> is the sign bit unless \<open>x\<close> is zero.
\<close>

theorem point_decoding_sound:
  assumes "length s = 32" "ge_frombytes s = Some P"
  shows "p3_rep P (fe_val (p3_X P), int (le_val s mod 2 ^ 255)) \<and>
    on_curve (fe_val (p3_X P)) (int (le_val s mod 2 ^ 255)) \<and>
    (eqp (fe_val (p3_X P)) 0 \<or> (if odd (fe_val (p3_X P) mod p25519) then 1 else 0) = drop_bit 7 (s ! 31) AND 1)"
  using ge_frombytes_ok [OF assms] by blast

text \<open>A string whose \<open>y\<close> is a square root of one decodes, whatever its sign bit.\<close>

lemma decode_unit_y:
  assumes s: "length s = 32" and y: "eqp (int (le_val s mod 2 ^ 255) * int (le_val s mod 2 ^ 255)) 1"
  shows "ge_frombytes s = Some (dec_point s (dec_root (dec_u s) (dec_v s)))" "eqp (fe_val (dec_root (dec_u s) (dec_v s))) 0"
proof -
  note b = dec_bounds [OF s]
  define u where "u = dec_u s"
  define v where "v = dec_v s"
  define X0 where "X0 = dec_root u v"
  note R = b(2) [folded u_def] b(3) [folded v_def]
  have "eqp (fe_val u) (1 - 1)" unfolding u_def by (rule eqp_trans [OF dec_vals(1) [OF s] eqp_diff [OF y eqp_refl]])
  then have u0: "eqp (fe_val u) 0" by simp
  have R0: "fe_reduced X0" unfolding X0_def by (rule dec_root_reduced [OF R])
  have mul0: "eqp (fe_val (fe_mul f g)) 0" if "fe_wide f" "fe_wide g" "eqp (fe_val f) 0" for f g
    using fe_mul_eqp [OF that(1,2,3) eqp_refl] by simp
  have "eqp (fe_val X0) 0" unfolding X0_def dec_root_def Let_def
    by (intro mul0 u0 fe_mul_reduced fe_reduced_wide' fe_mid_wide fe_sq_reduced fe_powers_ok(3) [folded fe_wide_def] R)
  then show "eqp (fe_val (dec_root (dec_u s) (dec_v s))) 0" by (simp add: X0_def u_def v_def)
  have "eqp (fe_val (fe_mul (fe_sq X0) v)) 0"
    unfolding fe_sq_def by (intro mul0 fe_mul_reduced fe_reduced_wide' R0 fe_mid_wide R \<open>eqp (fe_val X0) 0\<close>)
  then have "eqp (fe_val (fe_sub (fe_mul (fe_sq X0) v) u)) (0 - 0)"
    by (intro fe_sub_eqp fe_mul_reduced fe_sq_reduced fe_reduced_wide' R0 fe_mid_wide R u0)
  then have "\<not> fe_isnonzero (fe_sub (fe_mul (fe_sq X0) v) u)"
    by (subst fe_isnonzero_wide)
      (simp_all add: fe_reduced_wide' fe_sub_reduced' fe_mul_reduced fe_sq_reduced R R0 fe_mid_wide)
  then show "ge_frombytes s = Some (dec_point s (dec_root (dec_u s) (dec_v s)))"
    unfolding ge_frombytes_code Let_def by (simp add: u_def v_def X0_def)
qed

lemma scalar_one [simp]: "length scalar_one = 32" "le_val scalar_one = 1"
  by (simp_all add: scalar_one_def)

theorem point_decoding_sound_witness:
  "p3_rep (the (ge_frombytes scalar_one)) (fe_val (p3_X (the (ge_frombytes scalar_one))), 1)"
  using point_decoding_sound [OF scalar_one(1) decode_unit_y(1) [OF scalar_one(1)]] decode_unit_y(1) [OF scalar_one(1)]
  by simp

text \<open>
  Encoding is canonical: a point that represents \<open>(x, y)\<close>, with a third coordinate that satisfies
  Fermat's theorem, is encoded as the residue of \<open>y\<close> with the parity of the residue of \<open>x\<close> in the top bit.
\<close>

theorem point_encoding_canonical:
  assumes "p3_rep P (x, y)" "eqp (fe_val (p3_Z P) ^ (2 ^ 255 - 20)) 1"
  shows "ge_tobytes P = (let s = le_bytes 32 (nat (y mod p25519))
    in s[31 := s ! 31 XOR (if odd (x mod p25519) then 0x80 else 0)])"
  by (rule ge_tobytes_ok [OF assms])

theorem point_encoding_canonical_witness:
  "ge_tobytes point_two = le_bytes 32 (2 ^ 255 - 20)"
proof -
  have "fe_val (p3_Z point_two) = 1" by (simp add: point_two_def fe_1_def)
  then have "eqp (fe_val (p3_Z point_two) ^ (2 ^ 255 - 20)) 1" by (simp only: power_one eqp_refl)
  from point_encoding_canonical [OF point_two_rep(1) this] show ?thesis by (simp add: p25519_def Let_def)
qed

text \<open>
  Decoding accepts encodings that are not canonical: for the string of \<open>y = 1\<close> with the sign bit set, where
  \<open>x\<close> can only be zero, and for the string of \<open>y = p + 1\<close>, it returns a point.
\<close>

theorem decoding_accepts_noncanonical:
  "ge_frombytes (scalar_one[31 := 0x80]) \<noteq> None \<and>
   ge_frombytes (le_bytes 32 (2 ^ 255 - 18)) \<noteq> None \<and> int (le_val (le_bytes 32 (2 ^ 255 - 18))) = p25519 + 1"
proof -
  have "scalar_one[31 := 0x80] = (1 # replicate 30 0) @ [0x80]" by code_simp
  then have "le_val (scalar_one[31 := 0x80]) mod 2 ^ 255 = 1" by (simp add: le_val_append)
  then have "ge_frombytes (scalar_one[31 := 0x80]) \<noteq> None"
    using decode_unit_y(1) [of "scalar_one[31 := 0x80]"] by simp
  moreover have v: "le_val (le_bytes 32 (2 ^ 255 - 18)) = 2 ^ 255 - 18" by (simp add: le_val_le_bytes)
  then have "eqp (int (le_val (le_bytes 32 (2 ^ 255 - 18)) mod 2 ^ 255)) 1" by (simp add: eqp_def p25519_def)
  then have "ge_frombytes (le_bytes 32 (2 ^ 255 - 18)) \<noteq> None"
    using decode_unit_y(1) [of "le_bytes 32 (2 ^ 255 - 18)"] eqp_mult [of _ 1 _ 1] by simp
  ultimately show ?thesis using v by (simp add: p25519_def)
qed

end
