(* ===== verification/Verify.thy ===== *)
theory Verify
  imports Sha512 Curve25519
begin

text \<open>
  Signature verification of driver packages: \<^verbatim>\<open>ct_memcmp\<close>, \<^verbatim>\<open>ed25519_verify\<close> and the
  public functions at the end of \<^verbatim>\<open>store/verify.c\<close>, with the package header of
  \<^verbatim>\<open>store/package.h\<close>. A package is the memory from its first byte on and its size, so that a read past
  the size is a read of what follows it in memory. Messages on the console are not part of the state.
\<close>

section \<open>The signature check\<close>

definition ct_memcmp :: "bytes \<Rightarrow> bytes \<Rightarrow> nat \<Rightarrow> u8" where
  "ct_memcmp a b len = fold (\<lambda>i diff. diff OR (a ! i XOR b ! i)) [0..<len] 0"

text \<open>
  \<^verbatim>\<open>ed25519_verify\<close>, with the numbers it returns; \<open>ctx\<close> is the uninitialised hash context on
  the stack. \<open>None\<close> would be a hash that does not end.
\<close>

definition ed25519_verify :: "sha512_ctx \<Rightarrow> bytes \<Rightarrow> bytes \<Rightarrow> bytes \<Rightarrow> int option" where
  "ed25519_verify ctx public_key message signature =
     (let R_bytes = take 32 signature; S_bytes = take 32 (drop 32 signature)
      in if \<not> sc_is_canonical S_bytes then Some (-1) else
         case ge_frombytes public_key of None \<Rightarrow> Some (-2) | Some A \<Rightarrow>
         (case ge_frombytes R_bytes of None \<Rightarrow> Some (-3) | Some R_point \<Rightarrow>
          Option.bind (sha512_update (sha512_init ctx) R_bytes) (\<lambda>c.
          Option.bind (sha512_update c public_key) (\<lambda>c.
          Option.bind (sha512_update c message) (\<lambda>c.
            let h_full = sha512_final c;
                h = sc_reduce h_full;
                BX = fe_frombytes ed25519_Bx_bytes;
                BY = fe_frombytes ed25519_By_bytes;
                B = \<lparr>p3_X = BX, p3_Y = BY, p3_Z = fe_1, p3_T = fe_mul BX BY\<rparr>;
                hA = ge_scalarmult h A;
                rhs = ge_p1p1_to_p3 (ge_add R_point (ge_p3_to_cached hA));
                lhs = ge_scalarmult S_bytes B
            in if ct_memcmp (ge_tobytes lhs) (ge_tobytes rhs) 32 \<noteq> 0 then Some (-4) else Some 0)))))"

section \<open>The package header\<close>

definition AJDRV_MAGIC :: u32 where "AJDRV_MAGIC = 0x56444A41"
definition AJDRV_VERSION :: u32 where "AJDRV_VERSION = 1"
definition AJDRV_ARCH_ANY :: u32 where "AJDRV_ARCH_ANY = 0xFF"
definition AJDRV_SIGNATURE_SIZE :: u32 where "AJDRV_SIGNATURE_SIZE = 64"

record ajdrv_header =
  hdr_magic :: u32
  hdr_version :: u32
  hdr_arch :: u32
  hdr_category :: u32
  code_offset :: u32
  code_size :: u32
  name_offset :: u32
  name_size :: u32
  desc_offset :: u32
  desc_size :: u32
  entry_offset :: u32
  signature_offset :: u32
  vendor_id :: u16
  device_id :: u16
  min_os_version :: u16
  hdr_flags :: u16
  hdr_reserved :: bytes

type_synonym image = "nat \<Rightarrow> u8"

definition image_bytes :: "image \<Rightarrow> nat \<Rightarrow> nat \<Rightarrow> bytes" where
  "image_bytes img off n = map (\<lambda>i. img (off + i)) [0..<n]"

definition header_of_image :: "image \<Rightarrow> ajdrv_header" where
  "header_of_image img =
     (let h = image_bytes img 0 64
      in \<lparr>hdr_magic = le32 0 h, hdr_version = le32 4 h, hdr_arch = le32 8 h, hdr_category = le32 12 h,
          code_offset = le32 16 h, code_size = le32 20 h, name_offset = le32 24 h, name_size = le32 28 h,
          desc_offset = le32 32 h, desc_size = le32 36 h, entry_offset = le32 40 h,
          signature_offset = le32 44 h, vendor_id = le16 48 h, device_id = le16 50 h,
          min_os_version = le16 52 h, hdr_flags = le16 54 h, hdr_reserved = slice 56 8 h\<rparr>)"

text \<open>The sums are sums of \<^verbatim>\<open>uint32_t\<close>, widened only for the comparison.\<close>

definition ajdrv_validate_header :: "ajdrv_header \<Rightarrow> u64 \<Rightarrow> int" where
  "ajdrv_validate_header hdr total_size =
     (if hdr_magic hdr \<noteq> AJDRV_MAGIC then -1
      else if hdr_version hdr = 0 \<or> hdr_version hdr > AJDRV_VERSION then -2
      else if ucast (code_offset hdr + code_size hdr) > total_size then -3
      else if ucast (name_offset hdr + name_size hdr) > total_size then -4
      else if ucast (signature_offset hdr + AJDRV_SIGNATURE_SIZE) > total_size then -5
      else if entry_offset hdr \<ge> code_size hdr then -6
      else 0)"

section \<open>The public functions\<close>

record trust =
  g_trusted_key :: bytes
  g_key_set :: bool

definition ajdrv_set_trusted_key :: "bytes \<Rightarrow> trust \<Rightarrow> trust" where
  "ajdrv_set_trusted_key pub_key t = t\<lparr>g_trusted_key := take 32 pub_key, g_key_set := True\<rparr>"

definition ajdrv_verify_signature :: "sha512_ctx \<Rightarrow> bytes \<Rightarrow> image \<Rightarrow> u64 \<Rightarrow> hal_status option" where
  "ajdrv_verify_signature ctx pub_key img sz =
     (if sz < 64 + 64 then Some HAL_ERROR else
      let hdr = header_of_image img
      in if ajdrv_validate_header hdr sz \<noteq> 0 then Some HAL_ERROR else
         let signed_len = unat (signature_offset hdr);
             signature = image_bytes img signed_len 64
         in case ed25519_verify ctx pub_key (image_bytes img 0 signed_len) signature of
              None \<Rightarrow> None
            | Some rc \<Rightarrow> if rc \<noteq> 0 then Some HAL_ERROR else Some HAL_OK)"

definition ajdrv_verify :: "sha512_ctx \<Rightarrow> trust \<Rightarrow> image \<Rightarrow> u64 \<Rightarrow> hal_status option" where
  "ajdrv_verify ctx t img sz =
     (if \<not> g_key_set t then Some HAL_NOT_SUPPORTED
      else ajdrv_verify_signature ctx (g_trusted_key t) img sz)"

section \<open>Hash and comparison\<close>

lemma ct_memcmp_zero: "ct_memcmp a b n = 0 \<longleftrightarrow> (\<forall>i<n. a ! i = b ! i)"
proof (induction n)
  case (Suc n)
  have "ct_memcmp a b (Suc n) = ct_memcmp a b n OR (a ! n XOR b ! n)" by (simp add: ct_memcmp_def)
  moreover have "x OR y = 0 \<longleftrightarrow> x = 0 \<and> y = 0" for x y :: u8 by (auto simp: bit_eq_iff bit_or_iff)
  moreover have "x XOR y = 0 \<longleftrightarrow> x = y" for x y :: u8 by (auto simp: bit_eq_iff bit_xor_iff)
  ultimately show ?case using Suc by (auto simp: less_Suc_eq)
qed (simp add: ct_memcmp_def)

lemma ct_memcmp_eq: "length a = n \<Longrightarrow> length b = n \<Longrightarrow> ct_memcmp a b n = 0 \<longleftrightarrow> a = b"
  by (auto simp: ct_memcmp_zero list_eq_iff_nth_eq)

lemma length_fe_tobytes [simp]: "length (fe_tobytes h) = 32"
  by (cases "fe_trial (fe_carry (fe_carry h))") (simp add: fe_tobytes_def fe_pack.simps bytes8_def)

lemma length_ge_tobytes [simp]: "length (ge_tobytes h) = 32"
  by (simp add: ge_tobytes_def Let_def)

text \<open>Three updates of a fresh context hash the concatenation.\<close>

lemma sha512_three_parts:
  assumes b: "length (sha_buffer ctx) = 128" and l: "length (x @ y @ z) < 2 ^ 61"
  obtains c1 c2 c3 where "sha512_update (sha512_init ctx) x = Some c1" "sha512_update c1 y = Some c2"
    "sha512_update c2 z = Some c3" "sha512_final c3 = sha512_spec sha512_iv (x @ y @ z)"
proof -
  have k: "length x < 2 ^ 64" "length y < 2 ^ 64" "length z < 2 ^ 64" using l by simp_all
  from sha.feed_more [OF sha512_init_valid(1) [OF b] sha512_init_absorbed k(1)]
  obtain c1 where c1: "sha512_update (sha512_init ctx) x = Some c1" "sha_valid c1"
      "(sha_state c1, sha_pending c1) = absorb sha512_compress 128 sha512_iv x" "sha_count c1 = word_of_nat (length x)"
    by auto
  from sha.feed_more [OF c1(2-4) k(2)]
  obtain c2 where c2: "sha512_update c1 y = Some c2" "sha_valid c2"
      "(sha_state c2, sha_pending c2) = absorb sha512_compress 128 sha512_iv (x @ y)"
      "sha_count c2 = word_of_nat (length (x @ y))"
    by auto
  from sha.feed_more [OF c2(2-4) k(3)]
  obtain c3 where c3: "sha512_update c2 z = Some c3" "sha_valid c3"
      "(sha_state c3, sha_pending c3) = absorb sha512_compress 128 sha512_iv (x @ y @ z)"
      "sha_count c3 = word_of_nat (length (x @ y @ z))"
    by auto
  show thesis by (rule that [OF c1(1) c2(1) c3(1) sha512_final_spec [OF c3(2-4) l]])
qed

section \<open>Properties\<close>

definition base_point :: ge_p3 where
  "base_point = \<lparr>p3_X = fe_frombytes ed25519_Bx_bytes, p3_Y = fe_frombytes ed25519_By_bytes, p3_Z = fe_1,
     p3_T = fe_mul (fe_frombytes ed25519_Bx_bytes) (fe_frombytes ed25519_By_bytes)\<rparr>"

text \<open>
  C5. The verdict of the signature check: for a 64-byte signature, a 32-byte key and a message below
  \<open>2 ^ 61 - 64\<close> bytes the check returns. It rejects a scalar that is not below the group order, then a key and
  an \<open>R\<close> that do not decode, then unequal encodings of \<open>[S]B\<close> and \<open>R + [h]A\<close>, where \<open>h\<close> reduces the
  FIPS hash of \<open>R\<close>, the key and the message; else it accepts.
\<close>

theorem ed25519_verify_decides:
  assumes "length (sha_buffer ctx) = 128" "length sig = 64" "length pk = 32" "length msg < 2 ^ 61 - 64"
  defines "r \<equiv> take 32 sig" and "s \<equiv> drop 32 sig"
  shows "ed25519_verify ctx pk msg sig = Some
    (if \<not> int (le_val s) < order_L then -1
     else if ge_frombytes pk = None then -2
     else if ge_frombytes r = None then -3
     else if ge_tobytes (ge_scalarmult s base_point) \<noteq>
       ge_tobytes (ge_p1p1_to_p3 (ge_add (the (ge_frombytes r))
         (ge_p3_to_cached (ge_scalarmult (sc_reduce (sha512_spec sha512_iv (r @ pk @ msg))) (the (ge_frombytes pk))))))
     then -4 else 0)"
proof -
  have s: "take 32 (drop 32 sig) = s" "length s = 32" "length (r @ pk @ msg) < 2 ^ 61"
    using assms(2-4) by (simp_all add: s_def r_def)
  obtain c1 c2 c3 where c: "sha512_update (sha512_init ctx) r = Some c1" "sha512_update c1 pk = Some c2"
      "sha512_update c2 msg = Some c3" "sha512_final c3 = sha512_spec sha512_iv (r @ pk @ msg)"
    by (rule sha512_three_parts [OF assms(1) s(3)])
  have can: "sc_is_canonical s \<longleftrightarrow> int (le_val s) < order_L"
    by (rule sc_canonical_order [OF s(2)])
  show ?thesis
    unfolding ed25519_verify_def s(1) r_def [symmetric] Let_def can base_point_def
    by (simp add: c ct_memcmp_eq split: option.split)
qed

lemma le_val_ones: "le_val (replicate n 0xFF) + 1 = 256 ^ n"
  by (induction n) simp_all

theorem ed25519_verify_decides_witness:
  "ed25519_verify zero_ctx (replicate 32 0xFF) [] (replicate 64 0xFF) = Some (-1)"
proof -
  have "\<not> int (le_val (drop 32 (replicate 64 (0xFF :: u8)))) < order_L"
    using le_val_ones [of 32] by (simp add: order_L_def)
  then show ?thesis
    using ed25519_verify_decides [of zero_ctx "replicate 64 0xFF" "replicate 32 0xFF" "[]"] by (simp add: zero_ctx_def)
qed

lemma unat_ucast_u32: "unat (ucast (x :: u32) :: u64) = unat x"
  using unat_u32_lt [of x] by (simp add: unsigned_ucast_eq take_bit_eq_mod)

text \<open>
  C36. A package whose header passes, and whose offset and size pairs do not wrap 32 bits, has its code, name and
  signature inside the package and its entry point inside the code.
\<close>

theorem validated_header_in_bounds:
  assumes "ajdrv_validate_header h sz = 0"
    and "unat (code_offset h) + unat (code_size h) < 2 ^ 32" "unat (name_offset h) + unat (name_size h) < 2 ^ 32"
    and "unat (signature_offset h) + 64 < 2 ^ 32"
  shows "unat (code_offset h) + unat (code_size h) \<le> unat sz \<and> unat (name_offset h) + unat (name_size h) \<le> unat sz \<and>
    unat (signature_offset h) + 64 \<le> unat sz \<and> unat (entry_offset h) < unat (code_size h)"
proof -
  have u: "unat (ucast (a + b) :: u64) = unat a + unat b" if "unat a + unat b < 2 ^ 32" for a b :: u32
    using that by (simp add: unat_ucast_u32 unat_word_ariths(1))
  have "\<not> ucast (code_offset h + code_size h) > sz" "\<not> ucast (name_offset h + name_size h) > sz"
      "\<not> ucast (signature_offset h + AJDRV_SIGNATURE_SIZE) > sz" "\<not> entry_offset h \<ge> code_size h"
    using assms(1) by (auto simp: ajdrv_validate_header_def split: if_splits)
  then show ?thesis
    using u [OF assms(2)] u [OF assms(3)] u [of "signature_offset h" 64] assms(4)
    by (simp add: word_le_nat_alt word_less_nat_alt AJDRV_SIGNATURE_SIZE_def)
qed

definition sample_header :: ajdrv_header where
  "sample_header = \<lparr>hdr_magic = AJDRV_MAGIC, hdr_version = 1, hdr_arch = 0, hdr_category = 1, code_offset = 80,
     code_size = 16, name_offset = 64, name_size = 8, desc_offset = 72, desc_size = 8, entry_offset = 0,
     signature_offset = 96, vendor_id = 0, device_id = 0, min_os_version = 0, hdr_flags = 0, hdr_reserved = replicate 8 0\<rparr>"

theorem validated_header_in_bounds_witness:
  "unat (code_offset sample_header) + unat (code_size sample_header) \<le> 160"
  using validated_header_in_bounds [of sample_header 160]
  by (simp add: sample_header_def ajdrv_validate_header_def AJDRV_MAGIC_def AJDRV_VERSION_def AJDRV_SIGNATURE_SIZE_def)

text \<open>
  C38. Without that condition the check says nothing about where the parts lie, because it adds offset and size in 32
  bits. Take any header that passes for a package of less than four gigabytes. Its code offset may be replaced by any
  other whose sum with the code size wraps around to at most the package size, and its signature offset by any of the
  last 64 values: the header still passes, although the code or the signature lies outside the package.
\<close>

theorem validate_header_wraps:
  assumes "ajdrv_validate_header h sz = 0" "unat sz < 2 ^ 32"
  shows "(\<forall>off. 2 ^ 32 \<le> unat off + unat (code_size h) \<and> unat off + unat (code_size h) \<le> 2 ^ 32 + unat sz \<longrightarrow>
      ajdrv_validate_header (h\<lparr>code_offset := off\<rparr>) sz = 0 \<and> unat sz < unat off + unat (code_size h)) \<and>
    (\<forall>off. 2 ^ 32 - 64 \<le> unat off \<and> 64 \<le> unat sz \<longrightarrow>
      ajdrv_validate_header (h\<lparr>signature_offset := off\<rparr>) sz = 0 \<and> unat sz < unat off + 64)"
proof -
  have u: "unat (ucast (a + b) :: u64) = unat a + unat b - 2 ^ 32" if "2 ^ 32 \<le> unat a + unat b" for a b :: u32
  proof -
    have "(unat a + unat b) mod 2 ^ 32 = (unat a + unat b - 2 ^ 32) mod 2 ^ 32" using that by (rule le_mod_geq)
    moreover have "unat a + unat b - 2 ^ 32 < 2 ^ 32" using unat_u32_lt [of a] unat_u32_lt [of b] by simp
    ultimately show ?thesis by (simp add: unat_ucast_u32 unat_word_ariths(1))
  qed
  have code: "ajdrv_validate_header (h\<lparr>code_offset := off\<rparr>) sz = 0"
    if "2 ^ 32 \<le> unat off + unat (code_size h)" "unat off + unat (code_size h) \<le> 2 ^ 32 + unat sz" for off
  proof -
    have "\<not> ucast (off + code_size h) > sz" using u [OF that(1)] that(2) by (simp add: word_less_nat_alt)
    then show ?thesis using assms(1) by (simp add: ajdrv_validate_header_def split: if_splits)
  qed
  have sig: "ajdrv_validate_header (h\<lparr>signature_offset := off\<rparr>) sz = 0" if "2 ^ 32 - 64 \<le> unat off" "64 \<le> unat sz" for off
  proof -
    have "\<not> ucast (off + AJDRV_SIGNATURE_SIZE) > sz"
      using u [of off 64] that unat_u32_lt [of off] by (simp add: word_less_nat_alt AJDRV_SIGNATURE_SIZE_def)
    then show ?thesis using assms(1) by (simp add: ajdrv_validate_header_def split: if_splits)
  qed
  show ?thesis using code sig assms(2) by auto
qed

text \<open>The sample header with its sixteen bytes of code around the end of the address space.\<close>

theorem validate_header_wraps_witness:
  "ajdrv_validate_header (sample_header\<lparr>code_offset := 0xFFFFFFF8\<rparr>) 160 = 0 \<and>
   ajdrv_validate_header (sample_header\<lparr>signature_offset := 0xFFFFFFE0\<rparr>) 160 = 0"
proof -
  have "ajdrv_validate_header sample_header 160 = 0" "code_size sample_header = 16"
    by (simp_all add: sample_header_def ajdrv_validate_header_def AJDRV_MAGIC_def AJDRV_VERSION_def AJDRV_SIGNATURE_SIZE_def)
  then show ?thesis
    using conjunct1 [OF validate_header_wraps [of sample_header 160], THEN spec, of "0xFFFFFFF8"]
      conjunct2 [OF validate_header_wraps [of sample_header 160], THEN spec, of "0xFFFFFFE0"] by simp
qed

lemma image_bytes_cong: "(\<And>i. off \<le> i \<Longrightarrow> i < off + n \<Longrightarrow> a i = b i) \<Longrightarrow> image_bytes a off n = image_bytes b off n"
  by (simp add: image_bytes_def)

text \<open>
  The verdict depends only on the header and on the bytes up to the end of the signature: two packages that
  agree there, and differ in code placed after the signature, get the same verdict.
\<close>

theorem verdict_ignores_bytes_after_signature:
  assumes "\<forall>i < max 64 (unat (signature_offset (header_of_image img)) + 64). img' i = img i"
  shows "ajdrv_verify ctx t img' sz = ajdrv_verify ctx t img sz"
proof -
  have "image_bytes img' 0 64 = image_bytes img 0 64"
    by (rule image_bytes_cong) (use assms in auto)
  then have h: "header_of_image img' = header_of_image img" by (simp add: header_of_image_def)
  define n where "n = unat (signature_offset (header_of_image img))"
  have "image_bytes img' 0 n = image_bytes img 0 n" "image_bytes img' n 64 = image_bytes img n 64"
    by (rule image_bytes_cong; use assms in \<open>auto simp: n_def\<close>)+
  then show ?thesis by (simp add: ajdrv_verify_def ajdrv_verify_signature_def h n_def Let_def)
qed

theorem verdict_ignores_bytes_after_signature_witness:
  "ajdrv_verify zero_ctx \<lparr>g_trusted_key = scalar_one, g_key_set = True\<rparr> ((\<lambda>_. 0)(500 := 0xCC)) 160 =
   ajdrv_verify zero_ctx \<lparr>g_trusted_key = scalar_one, g_key_set = True\<rparr> (\<lambda>_. 0) 160"
  by (rule verdict_ignores_bytes_after_signature)
    (simp add: header_of_image_def image_bytes_def le32_def slice_def map_replicate_const Let_def)

end
