(* ===== verification/Driver_Loader.thy ===== *)
theory Driver_Loader
  imports Verify
begin

text \<open>
  The driver loader, \<^verbatim>\<open>kernel/driver_loader.c\<close>: registration and loading of built-in drivers, loading
  of signed packages at run time, the queries over the table of loaded drivers and the choice of the network
  driver. A driver's own functions, the allocation of executable memory and the code of a package are
  parameters; the buffers that hold loaded code are part of the state. Names are the contents of C strings,
  which \<^verbatim>\<open>str_eq\<close> compares.
\<close>

section \<open>The code\<close>

datatype driver_category =
    DRIVER_CAT_STORAGE
  | DRIVER_CAT_NETWORK
  | DRIVER_CAT_INPUT
  | DRIVER_CAT_DISPLAY
  | DRIVER_CAT_GPU
  | DRIVER_CAT_BUS
  | DRIVER_CAT_OTHER

type_synonym device = nat

text \<open>The fields of \<^verbatim>\<open>driver_ops_t\<close> that the loader reads; a null \<^verbatim>\<open>init\<close> is \<open>None\<close>.\<close>

record driver_ops =
  d_name :: bytes
  d_category :: driver_category
  d_init :: "(device \<Rightarrow> hal_status) option"

record loader =
  g_builtin_drivers :: "driver_ops list"
  g_loaded :: "(driver_ops \<times> bool) list"
  g_active_network :: int
  code_buffers :: "(nat \<times> bytes) list"

definition MAX_DRIVERS :: nat where
  "MAX_DRIVERS = 32"

definition loader_init :: loader where
  "loader_init = \<lparr>g_builtin_drivers = [], g_loaded = [], g_active_network = -1, code_buffers = []\<rparr>"

definition driver_register_builtin :: "driver_ops \<Rightarrow> loader \<Rightarrow> loader" where
  "driver_register_builtin ops st =
     (if length (g_builtin_drivers st) < MAX_DRIVERS
      then st\<lparr>g_builtin_drivers := g_builtin_drivers st @ [ops]\<rparr> else st)"

definition run_init :: "driver_ops \<Rightarrow> device \<Rightarrow> hal_status" where
  "run_init ops dev = (case d_init ops of None \<Rightarrow> HAL_OK | Some f \<Rightarrow> f dev)"

definition add_loaded :: "driver_ops \<Rightarrow> loader \<Rightarrow> loader" where
  "add_loaded ops st =
     (if length (g_loaded st) < MAX_DRIVERS then st\<lparr>g_loaded := g_loaded st @ [(ops, True)]\<rparr> else st)"

definition driver_load_builtin :: "bytes \<Rightarrow> device \<Rightarrow> loader \<Rightarrow> hal_status \<times> loader" where
  "driver_load_builtin name dev st =
     (case find (\<lambda>ops. d_name ops = name) (g_builtin_drivers st) of
        None \<Rightarrow> (HAL_NO_DEVICE, st)
      | Some ops \<Rightarrow>
          let rc = run_init ops dev
          in if rc \<noteq> HAL_OK then (rc, st) else (HAL_OK, add_loaded ops st))"

text \<open>
  What run-time loading takes from outside: the architecture, the allocator of code memory, what the entry point
  of some loaded code returns, and the verifier's stack and key.
\<close>

record load_env =
  env_arch :: hal_arch
  dma_alloc :: "u32 \<Rightarrow> (nat \<times> bytes) list \<Rightarrow> nat option"
  call_entry :: "bytes \<Rightarrow> u32 \<Rightarrow> driver_ops option"
  env_ctx :: sha512_ctx
  env_trust :: trust

definition driver_load_runtime ::
  "load_env \<Rightarrow> image \<Rightarrow> u64 \<Rightarrow> device \<Rightarrow> loader \<Rightarrow> (hal_status \<times> loader) option" where
  "driver_load_runtime env img sz dev st =
     (if sz < 64 then Some (HAL_ERROR, st) else
      let hdr = header_of_image img
      in if hdr_magic hdr \<noteq> AJDRV_MAGIC then Some (HAL_ERROR, st)
         else if hdr_arch hdr \<noteq> hal_arch_code (env_arch env) \<and> hdr_arch hdr \<noteq> 0xFF then Some (HAL_NOT_SUPPORTED, st)
         else if ucast (code_offset hdr + code_size hdr) > sz \<or> ucast (name_offset hdr + name_size hdr) > sz
         then Some (HAL_ERROR, st)
         else case ajdrv_verify (env_ctx env) (env_trust env) img sz of
           None \<Rightarrow> None
         | Some sig_rc \<Rightarrow>
           if sig_rc \<noteq> HAL_NOT_SUPPORTED \<and> sig_rc \<noteq> HAL_OK then Some (HAL_ERROR, st)
           else case dma_alloc env (code_size hdr) (code_buffers st) of
             None \<Rightarrow> Some (HAL_NO_MEMORY, st)
           | Some buf \<Rightarrow>
             let code = image_bytes img (unat (code_offset hdr)) (unat (code_size hdr));
                 st1 = st\<lparr>code_buffers := (buf, code) # code_buffers st\<rparr>;
                 dma_free = (\<lambda>s. s\<lparr>code_buffers := tl (code_buffers s)\<rparr>)
             in case call_entry env code (entry_offset hdr) of
                  None \<Rightarrow> Some (HAL_ERROR, dma_free st1)
                | Some ops \<Rightarrow>
                  let rc = run_init ops dev
                  in if rc \<noteq> HAL_OK then Some (rc, dma_free st1)
                     else Some (HAL_OK, add_loaded ops st1))"

definition driver_find :: "driver_category \<Rightarrow> loader \<Rightarrow> driver_ops option" where
  "driver_find cat st = map_option fst (find (\<lambda>(ops, active). active \<and> d_category ops = cat) (g_loaded st))"

definition driver_find_by_name :: "bytes \<Rightarrow> loader \<Rightarrow> driver_ops option" where
  "driver_find_by_name name st = map_option fst (find (\<lambda>(ops, active). active \<and> d_name ops = name) (g_loaded st))"

definition driver_get_network :: "loader \<Rightarrow> driver_ops option" where
  "driver_get_network st =
     (let n = g_active_network st; i = nat n
      in if 0 \<le> n \<and> i < length (g_loaded st) \<and> snd (g_loaded st ! i) \<and>
            d_category (fst (g_loaded st ! i)) = DRIVER_CAT_NETWORK
         then Some (fst (g_loaded st ! i))
         else map_option fst (find (\<lambda>(ops, active). active \<and> d_category ops = DRIVER_CAT_NETWORK) (g_loaded st)))"

definition driver_get_storage :: "loader \<Rightarrow> driver_ops option" where
  "driver_get_storage st = driver_find DRIVER_CAT_STORAGE st"

definition driver_get_input :: "loader \<Rightarrow> driver_ops option" where
  "driver_get_input st = driver_find DRIVER_CAT_INPUT st"

definition driver_list :: "nat \<Rightarrow> loader \<Rightarrow> driver_ops list" where
  "driver_list mx st = take mx (map fst (filter snd (g_loaded st)))"

text \<open>\<^verbatim>\<open>driver_set_active_network\<close>; a null name is \<open>None\<close>.\<close>

definition driver_set_active_network :: "bytes option \<Rightarrow> loader \<Rightarrow> hal_status \<times> loader" where
  "driver_set_active_network name st =
     (case name of
        None \<Rightarrow> (HAL_ERROR, st)
      | Some nm \<Rightarrow>
          (case find_from 0 (length (g_loaded st)) (\<lambda>i. snd (g_loaded st ! i) \<and>
             d_category (fst (g_loaded st ! i)) = DRIVER_CAT_NETWORK \<and> d_name (fst (g_loaded st ! i)) = nm) of
             None \<Rightarrow> (HAL_NO_DEVICE, st)
           | Some i \<Rightarrow> (HAL_OK, st\<lparr>g_active_network := int i\<rparr>)))"

section \<open>The loader's invariant\<close>

definition loader_inv :: "loader \<Rightarrow> bool" where
  "loader_inv st \<longleftrightarrow> length (g_builtin_drivers st) \<le> MAX_DRIVERS \<and> length (g_loaded st) \<le> MAX_DRIVERS \<and>
     (\<forall>d\<in>set (g_loaded st). snd d) \<and> -1 \<le> g_active_network st \<and>
     (0 \<le> g_active_network st \<longrightarrow> nat (g_active_network st) < length (g_loaded st) \<and>
        d_category (fst (g_loaded st ! nat (g_active_network st))) = DRIVER_CAT_NETWORK)"

text \<open>Every state the kernel's calls lead to.\<close>

inductive loader_reachable :: "load_env \<Rightarrow> loader \<Rightarrow> bool" for env where
  reach_init: "loader_reachable env loader_init"
| reach_register: "loader_reachable env st \<Longrightarrow> loader_reachable env (driver_register_builtin ops st)"
| reach_builtin: "loader_reachable env st \<Longrightarrow> loader_reachable env (snd (driver_load_builtin name dev st))"
| reach_runtime: "loader_reachable env st \<Longrightarrow> driver_load_runtime env img sz dev st = Some (rc, st') \<Longrightarrow> loader_reachable env st'"
| reach_network: "loader_reachable env st \<Longrightarrow> loader_reachable env (snd (driver_set_active_network name st))"

lemma nth_append_loaded: "i < length xs \<Longrightarrow> (xs @ ys) ! i = xs ! i"
  by (simp add: nth_append)

lemma add_loaded_inv: "loader_inv st \<Longrightarrow> loader_inv (add_loaded ops st)"
  by (auto simp: loader_inv_def add_loaded_def nth_append)

lemma loader_inv_buffers [simp]: "loader_inv (st\<lparr>code_buffers := b\<rparr>) = loader_inv st"
  by (simp add: loader_inv_def)

text \<open>The outcomes of run-time loading.\<close>

lemma load_runtime_cases:
  assumes "driver_load_runtime env img sz dev st = Some (rc, st')"
  obtains (rejected) "st' = st" "rc \<noteq> HAL_OK"
  | (loaded) buf ops where "rc = HAL_OK"
      "ajdrv_verify (env_ctx env) (env_trust env) img sz \<in> {Some HAL_OK, Some HAL_NOT_SUPPORTED}"
      "hdr_magic (header_of_image img) = AJDRV_MAGIC"
      "hdr_arch (header_of_image img) \<in> {hal_arch_code (env_arch env), 0xFF}"
      "call_entry env (image_bytes img (unat (code_offset (header_of_image img))) (unat (code_size (header_of_image img))))
         (entry_offset (header_of_image img)) = Some ops" "run_init ops dev = HAL_OK"
      "st' = add_loaded ops (st\<lparr>code_buffers :=
         (buf, image_bytes img (unat (code_offset (header_of_image img))) (unat (code_size (header_of_image img)))) # code_buffers st\<rparr>)"
proof -
  define hdr where "hdr = header_of_image img"
  define code where "code = image_bytes img (unat (code_offset hdr)) (unat (code_size hdr))"
  note eq = assms [unfolded driver_load_runtime_def Let_def, folded hdr_def, folded code_def]
  show thesis
  proof (cases "rc = HAL_OK")
    case False
    with eq have "st' = st" by (auto split: if_splits option.splits)
    with False show thesis using rejected by blast
  next
    case True
    with eq obtain buf ops where
      "ajdrv_verify (env_ctx env) (env_trust env) img sz \<in> {Some HAL_OK, Some HAL_NOT_SUPPORTED}"
      "hdr_magic hdr = AJDRV_MAGIC" "hdr_arch hdr \<in> {hal_arch_code (env_arch env), 0xFF}"
      "call_entry env code (entry_offset hdr) = Some ops" "run_init ops dev = HAL_OK"
      "st' = add_loaded ops (st\<lparr>code_buffers := (buf, code) # code_buffers st\<rparr>)"
      by (auto split: if_splits option.splits)
    with True show thesis using loaded unfolding hdr_def code_def by blast
  qed
qed

lemma set_active_inv: "loader_inv st \<Longrightarrow> loader_inv (snd (driver_set_active_network name st))"
  by (auto simp: driver_set_active_network_def loader_inv_def find_from_Some split: option.splits)

lemma load_builtin_inv: "loader_inv st \<Longrightarrow> loader_inv (snd (driver_load_builtin name dev st))"
  by (simp add: driver_load_builtin_def Let_def add_loaded_inv split: option.split)

lemma loader_reachable_inv: "loader_reachable env st \<Longrightarrow> loader_inv st"
proof (induction rule: loader_reachable.induct)
  case reach_init
  then show ?case by (simp add: loader_inv_def loader_init_def)
next
  case (reach_register st ops)
  then show ?case by (simp add: driver_register_builtin_def loader_inv_def)
next
  case (reach_runtime st img sz dev rc st')
  from reach_runtime.hyps(2) show ?case
    by (cases rule: load_runtime_cases) (use reach_runtime.IH in \<open>simp_all add: add_loaded_inv\<close>)
qed (simp_all add: set_active_inv load_builtin_inv)

section \<open>Properties\<close>

lemma find_active:
  "\<forall>d\<in>set xs. snd d \<Longrightarrow> map_option fst (find (\<lambda>(ops, active). active \<and> P ops) xs) = find P (map fst xs)"
  by (induction xs) (auto simp: case_prod_beta)

text \<open>
  C22. In every state reachable by registering, loading and selecting drivers, the tables hold at most 32 drivers and
  all loaded drivers are active. When a network driver is selected, the index is that of a loaded network driver, and
  \<^verbatim>\<open>driver_get_network\<close> returns the driver at that index; when none is selected it returns the first
  loaded network driver, if there is one.
\<close>

theorem loader_tables_safe:
  assumes "loader_reachable env st"
  shows "length (g_builtin_drivers st) \<le> 32 \<and> length (g_loaded st) \<le> 32 \<and> (\<forall>d\<in>set (g_loaded st). snd d) \<and>
    (if 0 \<le> g_active_network st then
       nat (g_active_network st) < length (g_loaded st) \<and>
       d_category (fst (g_loaded st ! nat (g_active_network st))) = DRIVER_CAT_NETWORK \<and>
       driver_get_network st = Some (fst (g_loaded st ! nat (g_active_network st)))
     else driver_get_network st = find (\<lambda>ops. d_category ops = DRIVER_CAT_NETWORK) (map fst (g_loaded st)))"
proof -
  have i: "loader_inv st" by (rule loader_reachable_inv [OF assms])
  then have a: "\<forall>d\<in>set (g_loaded st). snd d" by (simp add: loader_inv_def)
  show ?thesis using i a find_active [OF a] by (auto simp: loader_inv_def MAX_DRIVERS_def driver_get_network_def Let_def)
qed

definition demo_driver :: driver_ops where
  "demo_driver = \<lparr>d_name = [0x65, 0x31], d_category = DRIVER_CAT_NETWORK, d_init = None\<rparr>"

definition demo_env :: load_env where
  "demo_env = \<lparr>env_arch = HAL_ARCH_X86_64, dma_alloc = \<lambda>n bufs. Some (length bufs), call_entry = \<lambda>code e. Some demo_driver,
     env_ctx = zero_ctx, env_trust = \<lparr>g_trusted_key = replicate 32 0, g_key_set = True\<rparr>\<rparr>"

definition demo_loader :: loader where
  "demo_loader = snd (driver_set_active_network (Some [0x65, 0x31])
     (snd (driver_load_builtin [0x65, 0x31] 0 (driver_register_builtin demo_driver loader_init))))"

lemma demo_loader_reachable: "loader_reachable demo_env demo_loader"
  unfolding demo_loader_def by (rule reach_network, rule reach_builtin, rule reach_register, rule reach_init)

theorem loader_tables_safe_witness:
  "g_active_network demo_loader = 0 \<and> driver_get_network demo_loader = Some (fst (g_loaded demo_loader ! 0)) \<and>
   d_category (fst (g_loaded demo_loader ! 0)) = DRIVER_CAT_NETWORK"
proof -
  have "g_active_network demo_loader = 0"
    by (simp add: demo_loader_def driver_set_active_network_def driver_load_builtin_def driver_register_builtin_def
        loader_init_def demo_driver_def run_init_def add_loaded_def MAX_DRIVERS_def find_from_def)
  then show ?thesis using loader_tables_safe [OF demo_loader_reachable] by simp
qed

text \<open>
  C1. With a trusted key set, loading a package either leaves the loader as it was and reports an error, or
  has found the package's signature over its first \<^verbatim>\<open>signature_offset\<close> bytes valid under that key, its
  architecture supported, and then holds the package's code in one new buffer.
\<close>

theorem signed_loading_safe:
  assumes "driver_load_runtime env img sz dev st = Some (rc, st')" "g_key_set (env_trust env)"
  defines "n \<equiv> unat (signature_offset (header_of_image img))"
  shows "(rc \<noteq> HAL_OK \<longrightarrow> st' = st) \<and>
    (rc = HAL_OK \<longrightarrow>
      ed25519_verify (env_ctx env) (g_trusted_key (env_trust env)) (image_bytes img 0 n) (image_bytes img n 64) = Some 0 \<and>
      hdr_arch (header_of_image img) \<in> {hal_arch_code (env_arch env), 0xFF} \<and>
      (\<exists>buf. code_buffers st' = (buf, image_bytes img (unat (code_offset (header_of_image img)))
         (unat (code_size (header_of_image img)))) # code_buffers st))"
  using assms(1)
proof (cases rule: load_runtime_cases)
  case (loaded buf ops)
  have "ajdrv_verify_signature (env_ctx env) (g_trusted_key (env_trust env)) img sz = Some HAL_OK"
    using loaded(2) assms(2) by (auto simp: ajdrv_verify_def ajdrv_verify_signature_def Let_def split: if_splits option.splits)
  then have "ed25519_verify (env_ctx env) (g_trusted_key (env_trust env)) (image_bytes img 0 n) (image_bytes img n 64) = Some 0"
    by (auto simp: ajdrv_verify_signature_def Let_def n_def split: if_splits option.splits)
  then show ?thesis using loaded by (simp add: add_loaded_def)
qed simp

text \<open>A package with a well-formed header and a signature of ones.\<close>

definition demo_bytes :: bytes where
  "demo_bytes = [0x41, 0x4A, 0x44, 0x56, 1, 0, 0, 0, 0, 0, 0, 0, 1, 0, 0, 0, 80, 0, 0, 0, 16, 0, 0, 0, 64, 0, 0, 0,
     8, 0, 0, 0, 72, 0, 0, 0, 8, 0, 0, 0, 0, 0, 0, 0, 96, 0, 0, 0, 0, 0, 0, 0, 0, 0, 0, 0, 0, 0, 0, 0, 0, 0, 0, 0]"

definition demo_image :: image where
  "demo_image i = (if i < 64 then demo_bytes ! i else if i < 96 then 0 else 0xFF)"

lemma demo_header:
  "hdr_magic (header_of_image demo_image) = AJDRV_MAGIC" "hdr_version (header_of_image demo_image) = 1"
  "hdr_arch (header_of_image demo_image) = 0" "code_offset (header_of_image demo_image) = 80"
  "code_size (header_of_image demo_image) = 16" "name_offset (header_of_image demo_image) = 64"
  "name_size (header_of_image demo_image) = 8" "entry_offset (header_of_image demo_image) = 0"
  "signature_offset (header_of_image demo_image) = 96"
proof -
  have "length demo_bytes = 64" by (simp add: demo_bytes_def)
  then have b: "image_bytes demo_image 0 64 = demo_bytes"
    by (intro nth_equalityI) (simp_all add: image_bytes_def demo_image_def)
  show "hdr_magic (header_of_image demo_image) = AJDRV_MAGIC" "hdr_version (header_of_image demo_image) = 1"
    "hdr_arch (header_of_image demo_image) = 0" "code_offset (header_of_image demo_image) = 80"
    "code_size (header_of_image demo_image) = 16" "name_offset (header_of_image demo_image) = 64"
    "name_size (header_of_image demo_image) = 8" "entry_offset (header_of_image demo_image) = 0"
    "signature_offset (header_of_image demo_image) = 96"
    unfolding header_of_image_def Let_def b by (simp_all add: le32_def slice_def demo_bytes_def AJDRV_MAGIC_def)
qed

lemma demo_rejected: "driver_load_runtime demo_env demo_image 160 0 loader_init = Some (HAL_ERROR, loader_init)"
proof -
  have "image_bytes demo_image 96 64 = replicate 64 0xFF"
    by (rule nth_equalityI) (simp_all add: image_bytes_def demo_image_def)
  moreover have "\<not> sc_is_canonical (replicate 32 0xFF)" by code_simp
  ultimately have "ed25519_verify zero_ctx (replicate 32 0) (image_bytes demo_image 0 96) (image_bytes demo_image 96 64) = Some (-1)"
    by (simp add: ed25519_verify_def Let_def)
  then have "ajdrv_verify zero_ctx \<lparr>g_trusted_key = replicate 32 0, g_key_set = True\<rparr> demo_image 160 = Some HAL_ERROR"
    by (simp add: ajdrv_verify_def ajdrv_verify_signature_def Let_def demo_header ajdrv_validate_header_def
        AJDRV_MAGIC_def AJDRV_VERSION_def AJDRV_SIGNATURE_SIZE_def)
  then show ?thesis by (simp add: driver_load_runtime_def Let_def demo_header demo_env_def)
qed

theorem signed_loading_safe_witness:
  "\<exists>st. driver_load_runtime demo_env demo_image 160 0 loader_init = Some (HAL_ERROR, st) \<and> st = loader_init"
proof (intro exI conjI)
  show "driver_load_runtime demo_env demo_image 160 0 loader_init = Some (HAL_ERROR, loader_init)" by (rule demo_rejected)
  have "g_key_set (env_trust demo_env)" by (simp add: demo_env_def)
  from conjunct1 [OF signed_loading_safe [OF demo_rejected this]] show "loader_init = loader_init" by (rule mp) simp
qed

text \<open>A full table still reports success for a driver it does not record.\<close>

lemma full_table_forgets_driver:
  assumes "length (g_loaded st) = 32" "driver_load_builtin name dev st = (HAL_OK, st')"
  shows "st' = st"
  using assms by (auto simp: driver_load_builtin_def Let_def add_loaded_def MAX_DRIVERS_def split: option.splits if_splits)

end
