(* ===== verification/Ring.thy ===== *)
theory Ring
  imports Prelude
begin

text \<open>
  Ring buffers. The PS/2 driver, the USB HID driver and the keyboard layer each hold an array with a write
  index and a read index; one slot stays free, so a full ring drops the newest event. This theory has the index
  arithmetic of such a ring, the interface \<open>bounded_queue\<close> a ring offers, and the loop
  \<^verbatim>\<open>while (get(&e)) consume(e)\<close> that empties one.
\<close>

section \<open>Index arithmetic\<close>

text \<open>The elements of a ring of \<open>n\<close> slots, oldest first.\<close>

definition ring_items :: "nat \<Rightarrow> 'e list \<Rightarrow> nat \<Rightarrow> nat \<Rightarrow> 'e list" where
  "ring_items n buf h t = map (\<lambda>i. buf ! ((t + i) mod n)) [0..<(h + n - t) mod n]"

lemma ring_len: "h < n \<Longrightarrow> t < n \<Longrightarrow> (h + n - t) mod n = (if t \<le> h then h - t else h + n - t)" for h n t :: nat
  by (auto simp: mod_if)

lemma length_ring_items: "h < n \<Longrightarrow> t < n \<Longrightarrow> length (ring_items n buf h t) = (if t \<le> h then h - t else h + n - t)"
  by (simp add: ring_items_def ring_len)

lemma nth_ring_items: "i < length (ring_items n buf h t) \<Longrightarrow> ring_items n buf h t ! i = buf ! ((t + i) mod n)"
  by (simp add: ring_items_def)

lemma ring_next: "h < n \<Longrightarrow> Suc h mod n = (if Suc h = n then 0 else Suc h)"
  by (auto simp: mod_Suc)

lemma ring_full_iff:
  assumes "h < n" "t < n"
  shows "(h + 1) mod n = t \<longleftrightarrow> length (ring_items n buf h t) = n - 1"
  using assms by (auto simp: length_ring_items ring_next split: if_splits)

lemma ring_empty_iff: "h < n \<Longrightarrow> t < n \<Longrightarrow> ring_items n buf h t = [] \<longleftrightarrow> h = t"
  by (simp add: length_ring_items flip: length_0_conv)

lemma ring_items_bound: "h < n \<Longrightarrow> t < n \<Longrightarrow> length (ring_items n buf h t) \<le> n - 1"
  by (auto simp: length_ring_items)

lemma ring_slot:
  fixes t n i :: nat
  assumes "t < n" "i < n"
  shows "(t + i) mod n = (if t + i < n then t + i else t + i - n)"
  using assms by (simp add: mod_if)

lemma ring_items_push:
  assumes "h < n" "t < n" "length buf = n" "(h + 1) mod n \<noteq> t"
  shows "ring_items n (buf[h := e]) ((h + 1) mod n) t = ring_items n buf h t @ [e]"
proof (rule nth_equalityI)
  have h': "(h + 1) mod n < n" using assms by simp
  show len: "length (ring_items n (buf[h := e]) ((h + 1) mod n) t) = length (ring_items n buf h t @ [e])"
    using assms by (auto simp: length_ring_items ring_next split: if_splits)
  fix i assume "i < length (ring_items n (buf[h := e]) ((h + 1) mod n) t)"
  then have i: "i \<le> length (ring_items n buf h t)" "i < length (ring_items n (buf[h := e]) ((h + 1) mod n) t)"
    using len by simp_all
  have l: "length (ring_items n buf h t) = (if t \<le> h then h - t else h + n - t)"
    using assms by (simp add: length_ring_items)
  have "i < n" using i(1) l ring_items_bound [OF assms(1,2), of buf] assms(1) by linarith
  note s = ring_slot [OF assms(2) this]
  show "ring_items n (buf[h := e]) ((h + 1) mod n) t ! i = (ring_items n buf h t @ [e]) ! i"
  proof (cases "i = length (ring_items n buf h t)")
    case True
    then have "(t + i) mod n = h" using l s assms(1,2) by (auto split: if_splits)
    moreover have "ring_items n (buf[h := e]) ((h + 1) mod n) t ! i = (buf[h := e]) ! ((t + i) mod n)"
      using i(2) by (simp add: ring_items_def)
    ultimately show ?thesis using True assms(1,3) by simp
  next
    case False
    then have "(t + i) mod n \<noteq> h" using i(1) l s assms(1,2) by (auto split: if_splits)
    then show ?thesis using False i by (simp add: ring_items_def nth_append)
  qed
qed

lemma ring_items_pop:
  assumes "h < n" "t < n" "h \<noteq> t"
  shows "ring_items n buf h t = buf ! t # ring_items n buf h ((t + 1) mod n)"
proof (rule nth_equalityI)
  have t': "(t + 1) mod n < n" using assms by simp
  show len: "length (ring_items n buf h t) = length (buf ! t # ring_items n buf h ((t + 1) mod n))"
    using assms by (auto simp: length_ring_items ring_next split: if_splits)
  fix i assume i: "i < length (ring_items n buf h t)"
  show "ring_items n buf h t ! i = (buf ! t # ring_items n buf h ((t + 1) mod n)) ! i"
  proof (cases i)
    case 0
    then show ?thesis using i assms by (simp add: ring_items_def)
  next
    case (Suc j)
    moreover have "((t + 1) mod n + j) mod n = (t + i) mod n"
      using Suc by (simp add: mod_add_left_eq)
    ultimately show ?thesis using i len by (simp add: nth_ring_items)
  qed
qed

text \<open>Indices kept in a byte.\<close>

lemma unat_ring8: "n \<le> 256 \<Longrightarrow> 0 < n \<Longrightarrow> unat (word_of_nat (i mod n) :: u8) = i mod n"
  by (rule u8_of_nat_unat) (meson less_le_trans mod_less_divisor)

lemma ring8_eq: "n \<le> 256 \<Longrightarrow> 0 < n \<Longrightarrow> word_of_nat (i mod n) = (t :: u8) \<longleftrightarrow> i mod n = unat t"
  using unat_ring8 [of n i] by (auto simp: word_unat_eq_iff)

section \<open>The interface\<close>

text \<open>The loop that pops until the ring is empty; \<open>None\<close> when it does not return.\<close>

partial_function (option) drain ::
  "('s \<Rightarrow> ('e \<times> 's) option) \<Rightarrow> ('e \<Rightarrow> 's \<Rightarrow> 'k \<Rightarrow> 'k) \<Rightarrow> 's \<Rightarrow> 'k \<Rightarrow> ('s \<times> 'k) option" where
  "drain pop f s k = (case pop s of None \<Rightarrow> Some (s, k) | Some (e, s') \<Rightarrow> drain pop f s' (f e s' k))"

locale bounded_queue =
  fixes wf :: "'s \<Rightarrow> bool"
    and items :: "'s \<Rightarrow> 'e list"
    and push :: "'e \<Rightarrow> 's \<Rightarrow> 's"
    and pop :: "'s \<Rightarrow> ('e \<times> 's) option"
    and cap :: nat
  assumes push_wf: "wf s \<Longrightarrow> wf (push e s)"
    and push_items: "wf s \<Longrightarrow> items (push e s) = (if length (items s) < cap then items s @ [e] else items s)"
    and pop_empty: "wf s \<Longrightarrow> pop s = None \<longleftrightarrow> items s = []"
    and pop_first: "wf s \<Longrightarrow> pop s = Some (e, s') \<Longrightarrow> wf s' \<and> items s = e # items s'"
    and within_cap: "wf s \<Longrightarrow> length (items s) \<le> cap"
begin

lemma push_take: "wf s \<Longrightarrow> items (push e s) = take cap (items s @ [e])"
  using push_items [of s e] within_cap [of s] by auto

lemma push_all: "wf s \<Longrightarrow> wf (fold push es s) \<and> items (fold push es s) = take cap (items s @ es)"
proof (induction es arbitrary: s)
  case Nil
  then show ?case using within_cap [of s] by simp
next
  case (Cons e es)
  have "take cap (take cap (items s @ [e]) @ es) = take cap (items s @ e # es)"
    by (cases "length (items s) < cap") (simp_all add: within_cap Cons.prems)
  then show ?case using Cons.IH [OF push_wf [OF Cons.prems]] push_take [OF Cons.prems] by simp
qed

lemma pop_cons: "wf s \<Longrightarrow> items s = e # es \<Longrightarrow> \<exists>s'. pop s = Some (e, s') \<and> wf s' \<and> items s' = es"
  using pop_empty [of s] pop_first [of s] by (cases "pop s") auto

lemma drain_all:
  assumes "wf s" "I s"
    and keep: "\<And>s e s'. I s \<Longrightarrow> pop s = Some (e, s') \<Longrightarrow> I s'"
    and body: "\<And>s e k. I s \<Longrightarrow> f e s k = g e k"
  shows "\<exists>s'. drain pop f s k = Some (s', fold g (items s) k) \<and> wf s' \<and> items s' = [] \<and> I s'"
  using assms(1,2)
proof (induction "items s" arbitrary: s k)
  case Nil
  then show ?case using pop_empty [of s] by (simp add: drain.simps)
next
  case (Cons e es)
  obtain s' where s': "pop s = Some (e, s')" "wf s'" "items s' = es"
    using pop_cons [OF Cons.prems(1)] Cons.hyps(2) by metis
  have "I s'" using keep [OF Cons.prems(2) s'(1)] .
  from Cons.hyps(1) [OF s'(3) [symmetric] s'(2) this, of "g e k"] show ?case
    using s' body [OF \<open>I s'\<close>] Cons.hyps(2) [symmetric] by (simp add: drain.simps [of _ _ s])
qed

end

section \<open>Rings in an array\<close>

text \<open>What the code of a ring over \<open>n\<close> slots does to its array and its two indices makes it a bounded queue.\<close>

locale array_ring =
  fixes wf :: "'s \<Rightarrow> bool"
    and items :: "'s \<Rightarrow> 'e list"
    and push :: "'e \<Rightarrow> 's \<Rightarrow> 's"
    and pop :: "'s \<Rightarrow> ('e \<times> 's) option"
    and cap :: nat
    and buf :: "'s \<Rightarrow> 'e list"
    and head :: "'s \<Rightarrow> nat"
    and tail :: "'s \<Rightarrow> nat"
    and n :: nat
  assumes slots: "n = cap + 1"
    and items_eq: "items s = ring_items n (buf s) (head s) (tail s)"
    and wf_ring: "wf s \<Longrightarrow> length (buf s) = n \<and> head s < n \<and> tail s < n"
    and push_full: "wf s \<Longrightarrow> (head s + 1) mod n = tail s \<Longrightarrow> push e s = s"
    and push_room: "wf s \<Longrightarrow> (head s + 1) mod n \<noteq> tail s \<Longrightarrow> wf (push e s) \<and>
      buf (push e s) = (buf s)[head s := e] \<and> head (push e s) = (head s + 1) mod n \<and> tail (push e s) = tail s"
    and pop_none: "wf s \<Longrightarrow> head s = tail s \<Longrightarrow> pop s = None"
    and pop_some: "wf s \<Longrightarrow> head s \<noteq> tail s \<Longrightarrow> \<exists>s'. pop s = Some (buf s ! tail s, s') \<and> wf s' \<and>
      buf s' = buf s \<and> head s' = head s \<and> tail s' = (tail s + 1) mod n"

sublocale array_ring < bounded_queue wf items push pop cap
proof
  fix s e s'
  assume wf: "wf s"
  note r = wf_ring [OF wf]
  show "wf (push e s)"
    using wf push_full [OF wf] push_room [OF wf] by (cases "(head s + 1) mod n = tail s") simp_all
  show "items (push e s) = (if length (items s) < cap then items s @ [e] else items s)"
    using ring_items_push [of "head s" n "tail s" "buf s" e] ring_full_iff [of "head s" n "tail s" "buf s"]
      ring_items_bound [of "head s" n "tail s" "buf s"] r push_full [OF wf, of e] push_room [OF wf, of e] slots
    by (cases "(head s + 1) mod n = tail s") (simp_all add: items_eq)
  show "pop s = None \<longleftrightarrow> items s = []"
    using ring_empty_iff [of "head s" n "tail s" "buf s"] r pop_none [OF wf] pop_some [OF wf]
    by (cases "head s = tail s") (auto simp: items_eq)
  show "length (items s) \<le> cap"
    using ring_items_bound [of "head s" n "tail s" "buf s"] r slots by (simp add: items_eq)
  assume "pop s = Some (e, s')"
  then show "wf s' \<and> items s = e # items s'"
    using r ring_items_pop [of "head s" n "tail s" "buf s"] pop_none [OF wf] pop_some [OF wf]
    by (cases "head s = tail s") (auto simp: items_eq)
qed

end
