(* ===== verification/Ps2.thy ===== *)
theory Ps2
  imports Ring
begin

text \<open>
  The PS/2 keyboard driver, \<^verbatim>\<open>drivers/input/ps2.c\<close>: the set-2 scancode tables, the event ring, the
  controller's command protocol with its bounded waits, initialisation, the scancode decoder, polling and the
  interrupt handler. The controller is a parameter: what the \<open>k\<close>-th port read of a run returns, per port.
  The specification of the decoder is the list of key strokes its byte stream encodes.
\<close>

section \<open>Tables and state\<close>

definition sc2_normal :: bytes where
  "sc2_normal = char_table
    [(0x1C, CHR ''a''), (0x32, CHR ''b''), (0x21, CHR ''c''), (0x23, CHR ''d''), (0x24, CHR ''e''),
     (0x2B, CHR ''f''), (0x34, CHR ''g''), (0x33, CHR ''h''), (0x43, CHR ''i''), (0x3B, CHR ''j''),
     (0x42, CHR ''k''), (0x4B, CHR ''l''), (0x3A, CHR ''m''), (0x31, CHR ''n''), (0x44, CHR ''o''),
     (0x4D, CHR ''p''), (0x15, CHR ''q''), (0x2D, CHR ''r''), (0x1B, CHR ''s''), (0x2C, CHR ''t''),
     (0x3C, CHR ''u''), (0x2A, CHR ''v''), (0x1D, CHR ''w''), (0x22, CHR ''x''), (0x35, CHR ''y''),
     (0x1A, CHR ''z''), (0x16, CHR ''1''), (0x1E, CHR ''2''), (0x26, CHR ''3''), (0x25, CHR ''4''),
     (0x2E, CHR ''5''), (0x36, CHR ''6''), (0x3D, CHR ''7''), (0x3E, CHR ''8''), (0x46, CHR ''9''),
     (0x45, CHR ''0''), (0x5A, CHR 0x0A), (0x76, CHR 0x1B), (0x66, CHR 0x08), (0x0D, CHR 0x09),
     (0x29, CHR 0x20), (0x4E, CHR ''-''), (0x55, CHR ''=''), (0x54, CHR ''[''), (0x5B, CHR '']''),
     (0x5D, CHR 0x5C), (0x4C, CHR '';''), (0x52, CHR 0x27), (0x0E, CHR 0x60), (0x41, CHR '',''),
     (0x49, CHR ''.''), (0x4A, CHR ''/'')]"

definition sc2_shifted :: bytes where
  "sc2_shifted = char_table
    [(0x1C, CHR ''A''), (0x32, CHR ''B''), (0x21, CHR ''C''), (0x23, CHR ''D''), (0x24, CHR ''E''),
     (0x2B, CHR ''F''), (0x34, CHR ''G''), (0x33, CHR ''H''), (0x43, CHR ''I''), (0x3B, CHR ''J''),
     (0x42, CHR ''K''), (0x4B, CHR ''L''), (0x3A, CHR ''M''), (0x31, CHR ''N''), (0x44, CHR ''O''),
     (0x4D, CHR ''P''), (0x15, CHR ''Q''), (0x2D, CHR ''R''), (0x1B, CHR ''S''), (0x2C, CHR ''T''),
     (0x3C, CHR ''U''), (0x2A, CHR ''V''), (0x1D, CHR ''W''), (0x22, CHR ''X''), (0x35, CHR ''Y''),
     (0x1A, CHR ''Z''), (0x16, CHR ''!''), (0x1E, CHR ''@''), (0x26, CHR ''#''), (0x25, CHR ''$''),
     (0x2E, CHR ''%''), (0x36, CHR ''^''), (0x3D, CHR ''&''), (0x3E, CHR ''*''), (0x46, CHR ''(''),
     (0x45, CHR '')''), (0x5A, CHR 0x0A), (0x76, CHR 0x1B), (0x66, CHR 0x08), (0x0D, CHR 0x09),
     (0x29, CHR 0x20), (0x4E, CHR ''_''), (0x55, CHR ''+''), (0x54, CHR ''{''), (0x5B, CHR ''}''),
     (0x5D, CHR ''|''), (0x4C, CHR '':''), (0x52, CHR 0x22), (0x0E, CHR ''~''), (0x41, CHR ''<''),
     (0x49, CHR ''>''), (0x4A, CHR ''?'')]"

record ps2_key_event =
  p_scancode :: u8
  p_ascii :: u8
  p_pressed :: bool
  p_extended :: bool

definition PS2_KEY_BUF_SIZE :: nat where
  "PS2_KEY_BUF_SIZE = 64"

record ps2_dev =
  got_release :: bool
  got_extended :: bool
  shift_held :: bool
  ctrl_held :: bool
  alt_held :: bool
  caps_lock :: bool
  p_buf :: "ps2_key_event list"
  p_head :: u8
  p_tail :: u8
  port1_ok :: bool
  port2_ok :: bool
  p_initialized :: bool

definition ps2_push_key :: "ps2_key_event \<Rightarrow> ps2_dev \<Rightarrow> ps2_dev" where
  "ps2_push_key evt dev =
     (let nxt = word_of_nat ((unat (p_head dev) + 1) mod PS2_KEY_BUF_SIZE)
      in if nxt = p_tail dev then dev
         else dev\<lparr>p_buf := (p_buf dev)[unat (p_head dev) := evt], p_head := nxt\<rparr>)"

definition ps2_get_key :: "ps2_dev \<Rightarrow> (ps2_key_event \<times> ps2_dev) option" where
  "ps2_get_key dev =
     (if p_head dev = p_tail dev then None
      else Some (p_buf dev ! unat (p_tail dev),
                 dev\<lparr>p_tail := word_of_nat ((unat (p_tail dev) + 1) mod PS2_KEY_BUF_SIZE)\<rparr>))"

definition ps2_has_key :: "ps2_dev \<Rightarrow> bool" where
  "ps2_has_key dev \<longleftrightarrow> p_head dev \<noteq> p_tail dev"

section \<open>The controller\<close>

text \<open>
  Port input and output: how many reads a run has made, what it wrote, whether the keyboard interrupt is
  registered and enabled, and how many interrupts were acknowledged. \<open>env p k\<close> is what the \<open>k\<close>-th read of the run returns on port \<open>p\<close>.
\<close>

type_synonym port_env = "u16 \<Rightarrow> nat \<Rightarrow> u8"

record ports =
  port_reads :: nat
  port_outs :: "(u16 \<times> u8) list"
  kbd_irq :: bool
  kbd_eois :: nat

definition hal_port_in8 :: "port_env \<Rightarrow> u16 \<Rightarrow> ports \<Rightarrow> u8 \<times> ports" where
  "hal_port_in8 env p io = (env p (port_reads io), io\<lparr>port_reads := port_reads io + 1\<rparr>)"

definition hal_port_out8 :: "u16 \<Rightarrow> u8 \<Rightarrow> ports \<Rightarrow> ports" where
  "hal_port_out8 p v io = io\<lparr>port_outs := port_outs io @ [(p, v)]\<rparr>"

abbreviation PS2_DATA_PORT :: u16 where "PS2_DATA_PORT \<equiv> 0x60"
abbreviation PS2_STATUS_PORT :: u16 where "PS2_STATUS_PORT \<equiv> 0x64"

fun ps2_wait_input :: "port_env \<Rightarrow> nat \<Rightarrow> ports \<Rightarrow> bool \<times> ports" where
  "ps2_wait_input env n io =
     (if n = 0 then (False, io)
      else let (v, io') = hal_port_in8 env PS2_STATUS_PORT io
           in if v AND 2 = 0 then (True, io') else ps2_wait_input env (n - 1) io')"

fun ps2_wait_output :: "port_env \<Rightarrow> nat \<Rightarrow> ports \<Rightarrow> bool \<times> ports" where
  "ps2_wait_output env n io =
     (if n = 0 then (False, io)
      else let (v, io') = hal_port_in8 env PS2_STATUS_PORT io
           in if v AND 1 \<noteq> 0 then (True, io') else ps2_wait_output env (n - 1) io')"

declare ps2_wait_input.simps [simp del] ps2_wait_output.simps [simp del]

definition PS2_SPINS :: nat where
  "PS2_SPINS = 100000"

definition ps2_ctrl_cmd :: "port_env \<Rightarrow> u8 \<Rightarrow> ports \<Rightarrow> ports" where
  "ps2_ctrl_cmd env cmd io = hal_port_out8 PS2_STATUS_PORT cmd (snd (ps2_wait_input env PS2_SPINS io))"

definition ps2_kb_send :: "port_env \<Rightarrow> u8 \<Rightarrow> ports \<Rightarrow> ports" where
  "ps2_kb_send env b io = hal_port_out8 PS2_DATA_PORT b (snd (ps2_wait_input env PS2_SPINS io))"

definition ps2_read_data :: "port_env \<Rightarrow> ports \<Rightarrow> u8 option \<times> ports" where
  "ps2_read_data env io =
     (let (ready, io1) = ps2_wait_output env PS2_SPINS io
      in if ready then (let (v, io2) = hal_port_in8 env PS2_DATA_PORT io1 in (Some v, io2)) else (None, io1))"

text \<open>The loop that empties the output buffer; it does not return while the controller has data.\<close>

partial_function (option) ps2_flush :: "port_env \<Rightarrow> ports \<Rightarrow> ports option" where
  "ps2_flush env io =
     (let (v, io1) = hal_port_in8 env PS2_STATUS_PORT io
      in if v AND 1 \<noteq> 0 then ps2_flush env (snd (hal_port_in8 env PS2_DATA_PORT io1)) else Some io1)"

definition ps2_reset_state :: "ps2_dev \<Rightarrow> ps2_dev" where
  "ps2_reset_state dev = dev\<lparr>p_initialized := False, got_release := False, got_extended := False,
     shift_held := False, ctrl_held := False, alt_held := False, caps_lock := False,
     p_head := 0, p_tail := 0, port1_ok := False, port2_ok := False\<rparr>"

text \<open>
  Initialisation in the three parts of \<^verbatim>\<open>ps2_init\<close>: the keyboard (port and interrupt on, reset, scancode
  set 2, scanning on), the tests of the controller and of its first port, and the whole function.
\<close>

definition ps2_start_keyboard :: "port_env \<Rightarrow> ports \<Rightarrow> ports" where
  "ps2_start_keyboard env io =
     (let io = ps2_ctrl_cmd env 0xAE io;
          io = ps2_ctrl_cmd env 0x20 io;
          (r, io) = ps2_read_data env io;
          io = (case r of None \<Rightarrow> io
                | Some c \<Rightarrow> ps2_kb_send env (c OR 1) (ps2_ctrl_cmd env 0x60 io));
          io = ps2_kb_send env 0xFF io;
          (r, io) = ps2_read_data env io;
          io = (if r = Some 0xFA then snd (ps2_read_data env io) else io);
          io = ps2_kb_send env 0xF0 io;
          io = snd (ps2_read_data env io);
          io = ps2_kb_send env 0x02 io;
          io = snd (ps2_read_data env io);
          io = ps2_kb_send env 0xF4 io;
          io = snd (ps2_read_data env io)
      in io\<lparr>kbd_irq := True\<rparr>)"

definition ps2_self_tests :: "port_env \<Rightarrow> u8 \<Rightarrow> ps2_dev \<Rightarrow> ports \<Rightarrow> hal_status \<times> ps2_dev \<times> ports" where
  "ps2_self_tests env config dev io =
     (let io = ps2_ctrl_cmd env 0x60 io;
          io = ps2_kb_send env config io;
          io = ps2_ctrl_cmd env 0xAA io;
          (r, io) = ps2_read_data env io
      in if r \<noteq> Some 0x55 then (HAL_ERROR, dev, io)
      else
      let io = ps2_ctrl_cmd env 0x60 io;
          io = ps2_kb_send env config io;
          io = ps2_ctrl_cmd env 0xAB io;
          (r, io) = ps2_read_data env io;
          dev = (if r = Some 0 then dev\<lparr>port1_ok := True\<rparr> else dev)
      in if \<not> port1_ok dev then (HAL_NO_DEVICE, dev, io) else (HAL_OK, dev, io))"

definition ps2_init :: "hal_arch \<Rightarrow> port_env \<Rightarrow> ps2_dev \<Rightarrow> ports \<Rightarrow> (hal_status \<times> ps2_dev \<times> ports) option" where
  "ps2_init arch env dev io =
     (if arch \<noteq> HAL_ARCH_X86_64 then Some (HAL_NOT_SUPPORTED, dev, io)
      else
        let dev = ps2_reset_state dev;
            io = ps2_ctrl_cmd env 0xAD io;
            io = ps2_ctrl_cmd env 0xA7 io
        in case ps2_flush env io of None \<Rightarrow> None
        | Some io \<Rightarrow>
        let io = ps2_ctrl_cmd env 0x20 io;
            (r, io) = ps2_read_data env io
        in case r of None \<Rightarrow> Some (HAL_TIMEOUT, dev, io)
        | Some cfg \<Rightarrow>
        let (rc, dev, io) = ps2_self_tests env (cfg AND NOT 0x43) dev io
        in if rc \<noteq> HAL_OK then Some (rc, dev, io)
           else Some (HAL_OK, dev\<lparr>p_initialized := True\<rparr>, ps2_start_keyboard env io))"

section \<open>The decoder\<close>

definition ps2_ascii :: "ps2_dev \<Rightarrow> u8 \<Rightarrow> u8" where
  "ps2_ascii dev b =
     (if b < 128 then
        let normal = sc2_normal ! unat b;
            use_shifted = (if caps_lock dev \<and> 0x61 \<le> normal \<and> normal \<le> 0x7A then \<not> shift_held dev else shift_held dev);
            a = (if use_shifted then sc2_shifted ! unat b else sc2_normal ! unat b)
        in if ctrl_held dev \<and> 0x61 \<le> a \<and> a \<le> 0x7A then a - 0x61 + 1 else a
      else 0)"

definition ps2_process_byte :: "u8 \<Rightarrow> ps2_dev \<Rightarrow> ps2_dev" where
  "ps2_process_byte b dev =
     (if \<not> p_initialized dev then dev
      else if b = 0xE0 then dev\<lparr>got_extended := True\<rparr>
      else if b = 0xF0 then dev\<lparr>got_release := True\<rparr>
      else
        let pressed = (\<not> got_release dev);
            extended = got_extended dev;
            dev = dev\<lparr>got_release := False, got_extended := False\<rparr>
        in if b = 0x12 \<or> b = 0x59 then dev\<lparr>shift_held := pressed\<rparr>
           else if b = 0x14 then dev\<lparr>ctrl_held := pressed\<rparr>
           else if b = 0x11 then dev\<lparr>alt_held := pressed\<rparr>
           else if b = 0x58 \<and> pressed then dev\<lparr>caps_lock := \<not> caps_lock dev\<rparr>
           else ps2_push_key \<lparr>p_scancode = b, p_ascii = ps2_ascii dev b, p_pressed = pressed, p_extended = extended\<rparr> dev)"

partial_function (option) ps2_poll_loop :: "port_env \<Rightarrow> ps2_dev \<Rightarrow> ports \<Rightarrow> (ps2_dev \<times> ports) option" where
  "ps2_poll_loop env dev io =
     (let (v, io1) = hal_port_in8 env PS2_STATUS_PORT io
      in if v AND 1 \<noteq> 0 then
           let (b, io2) = hal_port_in8 env PS2_DATA_PORT io1
           in ps2_poll_loop env (ps2_process_byte b dev) io2
         else Some (dev, io1))"

definition ps2_poll :: "port_env \<Rightarrow> ps2_dev \<Rightarrow> ports \<Rightarrow> (ps2_dev \<times> ports) option" where
  "ps2_poll env dev io = (if \<not> p_initialized dev then Some (dev, io) else ps2_poll_loop env dev io)"

text \<open>The interrupt handler; a null context is \<open>None\<close>.\<close>

definition ps2_irq_handler :: "port_env \<Rightarrow> ps2_dev option \<Rightarrow> ports \<Rightarrow> ps2_dev option \<times> ports" where
  "ps2_irq_handler env ctx io =
     (case ctx of None \<Rightarrow> (None, io)
      | Some dev \<Rightarrow>
          if \<not> p_initialized dev then (Some dev, io)
          else let (status, io1) = hal_port_in8 env PS2_STATUS_PORT io
               in if status AND 1 \<noteq> 0 then
                    let (b, io2) = hal_port_in8 env PS2_DATA_PORT io1
                    in (Some (ps2_process_byte b dev), io2\<lparr>kbd_eois := kbd_eois io2 + 1\<rparr>)
                  else (Some dev, io1\<lparr>kbd_eois := kbd_eois io1 + 1\<rparr>))"

section \<open>The event ring is a bounded queue\<close>

definition ps2_wf :: "ps2_dev \<Rightarrow> bool" where
  "ps2_wf dev \<longleftrightarrow> length (p_buf dev) = 64 \<and> unat (p_head dev) < 64 \<and> unat (p_tail dev) < 64"

definition ps2_items :: "ps2_dev \<Rightarrow> ps2_key_event list" where
  "ps2_items dev = ring_items 64 (p_buf dev) (unat (p_head dev)) (unat (p_tail dev))"

interpretation pq: array_ring ps2_wf ps2_items ps2_push_key ps2_get_key 63 p_buf
    "\<lambda>dev. unat (p_head dev)" "\<lambda>dev. unat (p_tail dev)" 64
  by unfold_locales (auto simp: ps2_wf_def ps2_items_def ps2_push_key_def ps2_get_key_def PS2_KEY_BUF_SIZE_def
    Let_def unat_ring8 ring8_eq word_unat_eq_iff)

section \<open>The decoder's specification\<close>

text \<open>The modifier keys in force, and a key going down or up.\<close>

record mods =
  m_shift :: bool
  m_ctrl :: bool
  m_alt :: bool
  m_caps :: bool

datatype stroke = Stroke (st_ext: bool) (st_down: bool) (st_code: u8)

definition stroke_bytes :: "stroke \<Rightarrow> bytes" where
  "stroke_bytes s = (if st_ext s then [0xE0] else []) @ (if st_down s then [] else [0xF0]) @ [st_code s]"

definition is_letter :: "u8 \<Rightarrow> bool" where
  "is_letter c \<longleftrightarrow> 0x61 \<le> c \<and> c \<le> 0x7A"

text \<open>
  The character of a key: a letter is a capital when exactly one of shift and caps lock is on, and a control
  character when it is not a capital and control is held; another key has two characters, chosen by shift alone.
\<close>

definition layout_char :: "bytes \<Rightarrow> bytes \<Rightarrow> mods \<Rightarrow> u8 \<Rightarrow> u8" where
  "layout_char normal shifted m c =
     (if 128 \<le> c then 0
      else let n = normal ! unat c
           in if is_letter n
              then (if m_shift m \<noteq> m_caps m then n - 0x20 else if m_ctrl m then n - 0x60 else n)
              else (if m_shift m then shifted ! unat c else n))"

definition is_modifier :: "stroke \<Rightarrow> bool" where
  "is_modifier s \<longleftrightarrow> st_code s \<in> {0x12, 0x59, 0x14, 0x11} \<or> st_code s = 0x58 \<and> st_down s"

fun stroke_mods :: "stroke \<Rightarrow> mods \<Rightarrow> mods" where
  "stroke_mods (Stroke ext down c) m =
     (if c = 0x12 \<or> c = 0x59 then m\<lparr>m_shift := down\<rparr>
      else if c = 0x14 then m\<lparr>m_ctrl := down\<rparr>
      else if c = 0x11 then m\<lparr>m_alt := down\<rparr>
      else if c = 0x58 \<and> down then m\<lparr>m_caps := \<not> m_caps m\<rparr>
      else m)"

fun stroke_events :: "mods \<Rightarrow> stroke list \<Rightarrow> ps2_key_event list" where
  "stroke_events m [] = []"
| "stroke_events m (s # ss) =
     (if is_modifier s then [] else
        [\<lparr>p_scancode = st_code s, p_ascii = layout_char sc2_normal sc2_shifted m (st_code s),
          p_pressed = st_down s, p_extended = st_ext s\<rparr>]) @ stroke_events (stroke_mods s m) ss"

definition dev_mods :: "ps2_dev \<Rightarrow> mods" where
  "dev_mods dev = \<lparr>m_shift = shift_held dev, m_ctrl = ctrl_held dev, m_alt = alt_held dev, m_caps = caps_lock dev\<rparr>"

text \<open>A device between two key strokes.\<close>

definition ps2_idle :: "ps2_dev \<Rightarrow> bool" where
  "ps2_idle dev \<longleftrightarrow> p_initialized dev \<and> \<not> got_release dev \<and> \<not> got_extended dev"

definition plain_stroke :: "stroke \<Rightarrow> bool" where
  "plain_stroke s \<longleftrightarrow> st_code s \<noteq> 0xE0 \<and> st_code s \<noteq> 0xF0"

text \<open>The shifted table has the capital of every letter and no small letters elsewhere.\<close>

definition layout_ok :: "bytes \<Rightarrow> bytes \<Rightarrow> bool" where
  "layout_ok normal shifted \<longleftrightarrow> length normal = 128 \<and>
     list_all2 (\<lambda>n s. if is_letter n then s = n - 0x20 else \<not> is_letter s) normal shifted"

lemma sc2_layout: "layout_ok sc2_normal sc2_shifted"
  by code_simp

lemma layout_ok_nth:
  assumes "layout_ok normal shifted" "c < (128 :: u8)"
  shows "if is_letter (normal ! unat c) then shifted ! unat c = normal ! unat c - 0x20
         else \<not> is_letter (shifted ! unat c)"
proof -
  have "unat c < length normal" using assms by (simp add: layout_ok_def word_less_nat_alt)
  then show ?thesis
    using assms(1) list_all2_nthD [where P = "\<lambda>n s. if is_letter n then s = n - 0x20 else \<not> is_letter s" and p = "unat c"]
    unfolding layout_ok_def by blast
qed

lemma capital_not_letter: "is_letter n \<Longrightarrow> \<not> is_letter (n - 0x20)"
  by (simp add: is_letter_def) uint_arith

lemma control_char: "(n :: u8) - 0x61 + 1 = n - 0x60"
  by simp

lemma choose_char:
  assumes "layout_ok normal shifted" "c < (128 :: u8)"
  shows "(let n = normal ! unat c;
              u = (if m_caps m \<and> 0x61 \<le> n \<and> n \<le> 0x7A then \<not> m_shift m else m_shift m);
              a = (if u then shifted ! unat c else normal ! unat c)
          in if m_ctrl m \<and> 0x61 \<le> a \<and> a \<le> 0x7A then a - 0x61 + 1 else a) = layout_char normal shifted m c"
proof -
  have l: "x - 0x61 + 1 = x - 0x60" "0x61 \<le> x \<and> x \<le> 0x7A \<longleftrightarrow> is_letter x" for x :: u8
    by (simp_all add: is_letter_def)
  have c: "\<not> 128 \<le> c" using assms(2) by simp
  show ?thesis
    using layout_ok_nth [OF assms] capital_not_letter [of "normal ! unat c"] c
    by (cases "is_letter (normal ! unat c)"; cases "m_caps m"; cases "m_shift m"; cases "m_ctrl m")
       (simp_all add: layout_char_def Let_def l)
qed

lemma ps2_ascii_layout: "ps2_ascii dev b = layout_char sc2_normal sc2_shifted (dev_mods dev) b"
proof (cases "b < 128")
  case True
  note c = choose_char [OF sc2_layout True, of "dev_mods dev", unfolded dev_mods_def mods.select_convs]
  show ?thesis unfolding ps2_ascii_def dev_mods_def c [symmetric] by (simp only: True if_True)
next
  case False
  moreover from this have "128 \<le> b" by simp
  ultimately show ?thesis by (simp add: ps2_ascii_def layout_char_def)
qed

lemma push_key_keeps [simp]:
  "ps2_idle (ps2_push_key e dev) = ps2_idle dev" "dev_mods (ps2_push_key e dev) = dev_mods dev"
  by (simp_all add: ps2_push_key_def Let_def ps2_idle_def dev_mods_def)

lemma process_code:
  assumes "p_initialized dev" "ps2_wf dev" "c \<noteq> 0xE0" "c \<noteq> 0xF0"
  shows "let s = Stroke (got_extended dev) (\<not> got_release dev) c; dev' = ps2_process_byte c dev
         in ps2_wf dev' \<and> ps2_idle dev' \<and> dev_mods dev' = stroke_mods s (dev_mods dev) \<and>
            ps2_items dev' = take 63 (ps2_items dev @ stroke_events (dev_mods dev) [s])"
proof -
  let ?d = "dev\<lparr>got_release := False, got_extended := False\<rparr>"
  have d: "ps2_wf ?d" "ps2_items ?d = ps2_items dev" "dev_mods ?d = dev_mods dev" "ps2_idle ?d"
    using assms by (simp_all add: ps2_wf_def ps2_items_def dev_mods_def ps2_idle_def)
  have b: "take 63 (ps2_items dev) = ps2_items dev" using pq.within_cap [OF assms(2)] by simp
  show ?thesis
    using assms d b pq.push_wf [OF d(1)] pq.push_take [OF d(1)]
    by (auto simp: ps2_process_byte_def Let_def ps2_ascii_layout is_modifier_def)
       (auto simp: ps2_wf_def ps2_items_def dev_mods_def ps2_idle_def)
qed

lemma process_stroke:
  assumes "ps2_idle dev" "ps2_wf dev" "plain_stroke s"
  shows "let dev' = fold ps2_process_byte (stroke_bytes s) dev
         in ps2_wf dev' \<and> ps2_idle dev' \<and> dev_mods dev' = stroke_mods s (dev_mods dev) \<and>
            ps2_items dev' = take 63 (ps2_items dev @ stroke_events (dev_mods dev) [s])"
proof -
  let ?d = "dev\<lparr>got_extended := st_ext s, got_release := \<not> st_down s\<rparr>"
  have i: "p_initialized dev" "\<not> got_release dev" "\<not> got_extended dev" using assms(1) by (simp_all add: ps2_idle_def)
  then have "fold ps2_process_byte (stroke_bytes s) dev = ps2_process_byte (st_code s) ?d"
    by (auto simp: stroke_bytes_def ps2_process_byte_def Let_def)
  moreover have "ps2_wf ?d" "ps2_items ?d = ps2_items dev" "dev_mods ?d = dev_mods dev" "p_initialized ?d"
    using assms i by (simp_all add: ps2_wf_def ps2_items_def dev_mods_def)
  ultimately show ?thesis
    using process_code [of ?d "st_code s"] assms(3) by (cases s) (simp add: plain_stroke_def Let_def)
qed

lemma stroke_events_Cons:
  "stroke_events m (s # ss) = stroke_events m [s] @ stroke_events (stroke_mods s m) ss"
  by simp

lemma process_strokes:
  assumes "ps2_idle dev" "ps2_wf dev" "list_all plain_stroke ss"
  shows "let dev' = fold ps2_process_byte (concat (map stroke_bytes ss)) dev
         in ps2_wf dev' \<and> ps2_idle dev' \<and> dev_mods dev' = fold stroke_mods ss (dev_mods dev) \<and>
            ps2_items dev' = take 63 (ps2_items dev @ stroke_events (dev_mods dev) ss)"
  using assms
proof (induction ss arbitrary: dev)
  case Nil
  then show ?case using pq.within_cap [of dev] by (simp add: Let_def)
next
  case (Cons s ss)
  let ?d = "fold ps2_process_byte (stroke_bytes s) dev"
  have st: "ps2_wf ?d" "ps2_idle ?d" "dev_mods ?d = stroke_mods s (dev_mods dev)"
      "ps2_items ?d = take 63 (ps2_items dev @ stroke_events (dev_mods dev) [s])"
    using process_stroke [of dev s] Cons.prems by (simp_all add: Let_def)
  from Cons.IH [OF st(2,1)] Cons.prems show ?case
    by (simp add: Let_def st(3,4) take_take_append stroke_events_Cons [of _ s ss] del: take_append stroke_events.simps)
qed

section \<open>Polling\<close>

text \<open>The controller has exactly the bytes \<open>bs\<close> ready from the run's \<open>r\<close>-th read on.\<close>

fun offers :: "port_env \<Rightarrow> nat \<Rightarrow> bytes \<Rightarrow> bool" where
  "offers env r [] \<longleftrightarrow> env PS2_STATUS_PORT r AND 1 = 0"
| "offers env r (b # bs) \<longleftrightarrow>
     env PS2_STATUS_PORT r AND 1 \<noteq> 0 \<and> env PS2_DATA_PORT (r + 1) = b \<and> offers env (r + 2) bs"

lemma poll_loop_bytes:
  "offers env (port_reads io) bs \<Longrightarrow>
   ps2_poll_loop env dev io =
     Some (fold ps2_process_byte bs dev, io\<lparr>port_reads := port_reads io + 2 * length bs + 1\<rparr>)"
proof (induction bs arbitrary: dev io)
  case Nil
  then show ?case by (simp add: ps2_poll_loop.simps hal_port_in8_def)
next
  case (Cons b bs)
  have "offers env (port_reads (io\<lparr>port_reads := port_reads io + 2\<rparr>)) bs" using Cons.prems by simp
  from Cons.IH [OF this] Cons.prems show ?case
    by (simp add: ps2_poll_loop.simps [of env dev io] hal_port_in8_def add.commute)
qed

lemma poll_bytes:
  "p_initialized dev \<Longrightarrow> offers env (port_reads io) bs \<Longrightarrow>
   ps2_poll env dev io =
     Some (fold ps2_process_byte bs dev, io\<lparr>port_reads := port_reads io + 2 * length bs + 1\<rparr>)"
  by (simp add: ps2_poll_def poll_loop_bytes)

text \<open>
  C24. Polling an idle PS/2 device returns when the controller runs empty, and decodes the bytes it offered: the
  modifier state follows the key strokes the bytes encode, and the events of the other keys, with the characters
  the US layout gives under the modifiers of the moment, are queued in order until the 63 places are full.
\<close>

theorem ps2_poll_decodes:
  assumes "ps2_idle dev" "ps2_wf dev" "list_all plain_stroke ss"
    and "offers env (port_reads io) (concat (map stroke_bytes ss))"
  shows "\<exists>dev' io'. ps2_poll env dev io = Some (dev', io') \<and> ps2_wf dev' \<and> ps2_idle dev' \<and>
           dev_mods dev' = fold stroke_mods ss (dev_mods dev) \<and>
           ps2_items dev' = take 63 (ps2_items dev @ stroke_events (dev_mods dev) ss)"
proof -
  have "p_initialized dev" using assms(1) by (simp add: ps2_idle_def)
  from poll_bytes [OF this assms(4)] process_strokes [OF assms(1-3)] show ?thesis
    by (auto simp: Let_def)
qed

definition fresh_ps2 :: ps2_dev where
  "fresh_ps2 = \<lparr>got_release = False, got_extended = False, shift_held = False, ctrl_held = False, alt_held = False,
     caps_lock = False, p_buf = replicate 64 \<lparr>p_scancode = 0, p_ascii = 0, p_pressed = False, p_extended = False\<rparr>,
     p_head = 0, p_tail = 0, port1_ok = True, port2_ok = False, p_initialized = True\<rparr>"

definition no_ports :: ports where
  "no_ports = \<lparr>port_reads = 0, port_outs = [], kbd_irq = False, kbd_eois = 0\<rparr>"

definition list_ports :: "bytes \<Rightarrow> port_env" where
  "list_ports bs p k = (if p = PS2_STATUS_PORT then (if k div 2 < length bs then 1 else 0)
                        else if k div 2 < length bs then bs ! (k div 2) else 0)"

text \<open>Shift down, A down, shift up, right control (E0 14) down.\<close>

theorem ps2_poll_decodes_witness:
  "\<exists>dev' io'. ps2_poll (list_ports [0x12, 0x1C, 0xF0, 0x12, 0xE0, 0x14]) fresh_ps2 no_ports = Some (dev', io') \<and>
     ps2_wf dev' \<and> ps2_idle dev' \<and>
     dev_mods dev' = \<lparr>m_shift = False, m_ctrl = True, m_alt = False, m_caps = False\<rparr> \<and>
     ps2_items dev' = [\<lparr>p_scancode = 0x1C, p_ascii = 0x41, p_pressed = True, p_extended = False\<rparr>]"
proof -
  let ?ss = "[Stroke False True 0x12, Stroke False True 0x1C, Stroke False False 0x12, Stroke True True 0x14]"
  have "ps2_idle fresh_ps2" "ps2_wf fresh_ps2" "list_all plain_stroke ?ss" "ps2_items fresh_ps2 = []"
    by (simp_all add: ps2_idle_def ps2_wf_def fresh_ps2_def plain_stroke_def ps2_items_def ring_items_def)
  moreover have "offers (list_ports [0x12, 0x1C, 0xF0, 0x12, 0xE0, 0x14]) (port_reads no_ports) (concat (map stroke_bytes ?ss))"
    by code_simp
  moreover have "stroke_events (dev_mods fresh_ps2) ?ss = [\<lparr>p_scancode = 0x1C, p_ascii = 0x41, p_pressed = True, p_extended = False\<rparr>]"
    by code_simp
  moreover have "fold stroke_mods ?ss (dev_mods fresh_ps2) = \<lparr>m_shift = False, m_ctrl = True, m_alt = False, m_caps = False\<rparr>"
    by code_simp
  ultimately show ?thesis
    using ps2_poll_decodes [of fresh_ps2 ?ss "list_ports [0x12, 0x1C, 0xF0, 0x12, 0xE0, 0x14]" no_ports] by simp
qed

section \<open>Initialisation\<close>

lemma wait_keeps:
  "kbd_irq (snd (ps2_wait_input env n io)) = kbd_irq io" "kbd_irq (snd (ps2_wait_output env n io)) = kbd_irq io"
proof -
  show "kbd_irq (snd (ps2_wait_input env n io)) = kbd_irq io"
    by (induction env n io rule: ps2_wait_input.induct)
       (subst ps2_wait_input.simps, simp add: Let_def hal_port_in8_def)
  show "kbd_irq (snd (ps2_wait_output env n io)) = kbd_irq io"
    by (induction env n io rule: ps2_wait_output.induct)
       (subst ps2_wait_output.simps, simp add: Let_def hal_port_in8_def)
qed

lemma command_keeps [simp]:
  "kbd_irq (ps2_ctrl_cmd env c io) = kbd_irq io" "kbd_irq (ps2_kb_send env b io) = kbd_irq io"
  "kbd_irq (snd (ps2_read_data env io)) = kbd_irq io"
  by (simp_all add: ps2_ctrl_cmd_def ps2_kb_send_def ps2_read_data_def hal_port_out8_def hal_port_in8_def
        wait_keeps case_prod_beta Let_def)

lemma flush_steps:
  "env PS2_STATUS_PORT (port_reads io + 2 * n) AND 1 = 0 \<Longrightarrow>
   \<exists>io'. ps2_flush env io = Some io' \<and> kbd_irq io' = kbd_irq io"
proof (induction n arbitrary: io)
  case 0
  then show ?case by (simp add: ps2_flush.simps hal_port_in8_def)
next
  case (Suc n)
  have "env PS2_STATUS_PORT (port_reads (io\<lparr>port_reads := port_reads io + 2\<rparr>) + 2 * n) AND 1 = 0"
    using Suc.prems by (simp add: add.assoc)
  from Suc.IH [OF this] show ?case
    by (auto simp add: ps2_flush.simps [of env io] hal_port_in8_def Let_def)
qed

definition empty_ps2 :: "ps2_dev \<Rightarrow> bool" where
  "empty_ps2 dev \<longleftrightarrow> p_head dev = 0 \<and> p_tail dev = 0 \<and> \<not> got_release dev \<and> \<not> got_extended dev \<and>
     dev_mods dev = \<lparr>m_shift = False, m_ctrl = False, m_alt = False, m_caps = False\<rparr>"

lemma start_keyboard_irq: "kbd_irq (ps2_start_keyboard env io)"
  by (simp add: ps2_start_keyboard_def Let_def case_prod_beta)

lemma self_tests_outcome:
  "ps2_self_tests env config dev io = (rc, dev', io') \<Longrightarrow>
   kbd_irq io' = kbd_irq io \<and> rc \<in> {HAL_OK, HAL_ERROR, HAL_NO_DEVICE} \<and>
   (\<exists>ok. dev' = dev\<lparr>port1_ok := ok\<rparr>) \<and> (rc = HAL_OK \<longrightarrow> port1_ok dev')"
  by (auto simp: ps2_self_tests_def Let_def case_prod_beta split: if_splits intro: exI [of _ "port1_ok dev"])

text \<open>
  Initialisation of the PS/2 keyboard on x86-64 returns whenever the controller's output buffer gets empty
  again and again. It reports success exactly when the device is usable afterwards: the first port passed its
  test, the decoder is idle, no modifier is held, the ring is empty and the interrupt is on. On every failure the
  device stays unusable and the interrupt as it was.
\<close>

theorem ps2_init_returns:
  assumes "\<And>r. \<exists>n. env PS2_STATUS_PORT (r + 2 * n) AND 1 = 0" "length (p_buf dev) = 64"
  shows "\<exists>rc dev' io'. ps2_init HAL_ARCH_X86_64 env dev io = Some (rc, dev', io') \<and>
    rc \<in> {HAL_OK, HAL_TIMEOUT, HAL_ERROR, HAL_NO_DEVICE} \<and> ps2_wf dev' \<and> ps2_items dev' = [] \<and>
    dev_mods dev' = \<lparr>m_shift = False, m_ctrl = False, m_alt = False, m_caps = False\<rparr> \<and>
    ps2_idle dev' = (rc = HAL_OK) \<and> (rc = HAL_OK \<longrightarrow> port1_ok dev') \<and> kbd_irq io' = (kbd_irq io \<or> rc = HAL_OK)"
proof -
  let ?io = "ps2_ctrl_cmd env 0xA7 (ps2_ctrl_cmd env 0xAD io)" and ?d = "ps2_reset_state dev"
  obtain io1 where io1: "ps2_flush env ?io = Some io1" "kbd_irq io1 = kbd_irq io"
    using assms(1) [of "port_reads ?io"] flush_steps [of env ?io] by auto
  obtain r io2 where io2: "ps2_read_data env (ps2_ctrl_cmd env 0x20 io1) = (r, io2)" by force
  then have irq: "kbd_irq io2 = kbd_irq io" using io1(2) command_keeps(3) [of env "ps2_ctrl_cmd env 0x20 io1"] by simp
  have d: "ps2_wf (?d\<lparr>port1_ok := ok\<rparr>)" "ps2_items (?d\<lparr>port1_ok := ok\<rparr>) = []" for ok
    using assms(2) by (simp_all add: ps2_reset_state_def ps2_wf_def ps2_items_def ring_items_def)
  show ?thesis
  proof (cases r)
    case None
    then show ?thesis using io1 io2 irq d [of False]
      by (auto simp: ps2_init_def Let_def ps2_reset_state_def dev_mods_def ps2_idle_def ps2_wf_def ps2_items_def)
  next
    case (Some cfg)
    obtain rc dev' io3 where t: "ps2_self_tests env (cfg AND NOT 0x43) ?d io2 = (rc, dev', io3)"
      by (metis prod_cases3)
    obtain ok where o: "dev' = ?d\<lparr>port1_ok := ok\<rparr>" "kbd_irq io3 = kbd_irq io" "rc = HAL_OK \<longrightarrow> ok"
        "rc \<in> {HAL_OK, HAL_ERROR, HAL_NO_DEVICE}"
      using self_tests_outcome [OF t] irq by auto
    then show ?thesis using Some io1 io2 t d [of ok] start_keyboard_irq [of env io3]
      by (cases "rc = HAL_OK")
         (auto simp: ps2_init_def Let_def ps2_reset_state_def dev_mods_def ps2_idle_def ps2_wf_def ps2_items_def)
  qed
qed

text \<open>A controller that answers every command: status "data ready" outside the flush, then the expected bytes.\<close>

definition good_ports :: port_env where
  "good_ports p k = (if p = PS2_STATUS_PORT then (if k = 2 \<or> 40 < k then 0 else 1) else if k = 10 then 0x55 else 0)"

lemma wait_ready:
  "good_ports PS2_STATUS_PORT (port_reads io) AND 2 = 0 \<Longrightarrow>
     ps2_wait_input good_ports PS2_SPINS io = (True, io\<lparr>port_reads := port_reads io + 1\<rparr>)"
  "good_ports PS2_STATUS_PORT (port_reads io) AND 1 \<noteq> 0 \<Longrightarrow>
     ps2_wait_output good_ports PS2_SPINS io = (True, io\<lparr>port_reads := port_reads io + 1\<rparr>)"
  by (simp_all add: ps2_wait_input.simps ps2_wait_output.simps PS2_SPINS_def hal_port_in8_def)

lemma good_controller:
  "map_option fst (ps2_init HAL_ARCH_X86_64 good_ports fresh_ps2 no_ports) = Some HAL_OK"
  by (simp add: ps2_init_def ps2_ctrl_cmd_def ps2_kb_send_def ps2_read_data_def wait_ready no_ports_def good_ports_def
    hal_port_out8_def hal_port_in8_def ps2_flush.simps ps2_self_tests_def ps2_reset_state_def fresh_ps2_def)

theorem ps2_init_returns_witness:
  "\<exists>dev' io'. ps2_init HAL_ARCH_X86_64 good_ports fresh_ps2 no_ports = Some (HAL_OK, dev', io') \<and>
     ps2_wf dev' \<and> ps2_items dev' = [] \<and> ps2_idle dev' \<and> port1_ok dev' \<and> kbd_irq io'"
proof -
  have "\<exists>n. good_ports PS2_STATUS_PORT (r + 2 * n) AND 1 = 0" for r
    by (rule exI [of _ 41]) (simp add: good_ports_def)
  moreover have "length (p_buf fresh_ps2) = 64" by (simp add: fresh_ps2_def)
  ultimately show ?thesis
    using ps2_init_returns [of good_ports fresh_ps2 no_ports] good_controller by auto
qed

end
