(* ===== verification/Usb_Hid.thy ===== *)
theory Usb_Hid
  imports Ring "HOL-Library.Monad_Syntax"
begin

text \<open>
  The USB HID driver, \<^verbatim>\<open>drivers/input/usb_hid.c\<close>: the keycode tables, the key and mouse rings, the
  difference of two boot keyboard reports, mouse reports, the search of the configuration descriptor and polling.
  The host controller driver is a parameter: what its transfers return. A read past the descriptor buffer is the
  value \<open>None\<close>.
\<close>

section \<open>Tables and state\<close>

definition hid_keymap_normal :: bytes where
  "hid_keymap_normal = char_table
    [(0x00, CHR 0x00), (0x04, CHR ''a''), (0x05, CHR ''b''), (0x06, CHR ''c''), (0x07, CHR ''d''),
     (0x08, CHR ''e''), (0x09, CHR ''f''), (0x0A, CHR ''g''), (0x0B, CHR ''h''), (0x0C, CHR ''i''),
     (0x0D, CHR ''j''), (0x0E, CHR ''k''), (0x0F, CHR ''l''), (0x10, CHR ''m''), (0x11, CHR ''n''),
     (0x12, CHR ''o''), (0x13, CHR ''p''), (0x14, CHR ''q''), (0x15, CHR ''r''), (0x16, CHR ''s''),
     (0x17, CHR ''t''), (0x18, CHR ''u''), (0x19, CHR ''v''), (0x1A, CHR ''w''), (0x1B, CHR ''x''),
     (0x1C, CHR ''y''), (0x1D, CHR ''z''), (0x1E, CHR ''1''), (0x1F, CHR ''2''), (0x20, CHR ''3''),
     (0x21, CHR ''4''), (0x22, CHR ''5''), (0x23, CHR ''6''), (0x24, CHR ''7''), (0x25, CHR ''8''),
     (0x26, CHR ''9''), (0x27, CHR ''0''), (0x28, CHR 0x0A), (0x29, CHR 0x1B), (0x2A, CHR 0x08),
     (0x2B, CHR 0x09), (0x2C, CHR 0x20), (0x2D, CHR ''-''), (0x2E, CHR ''=''), (0x2F, CHR ''[''),
     (0x30, CHR '']''), (0x31, CHR 0x5C), (0x32, CHR ''#''), (0x33, CHR '';''), (0x34, CHR 0x27),
     (0x35, CHR 0x60), (0x36, CHR '',''), (0x37, CHR ''.''), (0x38, CHR ''/''), (0x4F, CHR 0x00),
     (0x50, CHR 0x00), (0x51, CHR 0x00), (0x52, CHR 0x00), (0x54, CHR ''/''), (0x55, CHR ''*''),
     (0x56, CHR ''-''), (0x57, CHR ''+''), (0x58, CHR 0x0A), (0x59, CHR ''1''), (0x5A, CHR ''2''),
     (0x5B, CHR ''3''), (0x5C, CHR ''4''), (0x5D, CHR ''5''), (0x5E, CHR ''6''), (0x5F, CHR ''7''),
     (0x60, CHR ''8''), (0x61, CHR ''9''), (0x62, CHR ''0''), (0x63, CHR ''.'')]"

definition hid_keymap_shifted :: bytes where
  "hid_keymap_shifted = char_table
    [(0x04, CHR ''A''), (0x05, CHR ''B''), (0x06, CHR ''C''), (0x07, CHR ''D''), (0x08, CHR ''E''),
     (0x09, CHR ''F''), (0x0A, CHR ''G''), (0x0B, CHR ''H''), (0x0C, CHR ''I''), (0x0D, CHR ''J''),
     (0x0E, CHR ''K''), (0x0F, CHR ''L''), (0x10, CHR ''M''), (0x11, CHR ''N''), (0x12, CHR ''O''),
     (0x13, CHR ''P''), (0x14, CHR ''Q''), (0x15, CHR ''R''), (0x16, CHR ''S''), (0x17, CHR ''T''),
     (0x18, CHR ''U''), (0x19, CHR ''V''), (0x1A, CHR ''W''), (0x1B, CHR ''X''), (0x1C, CHR ''Y''),
     (0x1D, CHR ''Z''), (0x1E, CHR ''!''), (0x1F, CHR ''@''), (0x20, CHR ''#''), (0x21, CHR ''$''),
     (0x22, CHR ''%''), (0x23, CHR ''^''), (0x24, CHR ''&''), (0x25, CHR ''*''), (0x26, CHR ''(''),
     (0x27, CHR '')''), (0x28, CHR 0x0A), (0x29, CHR 0x1B), (0x2A, CHR 0x08), (0x2B, CHR 0x09),
     (0x2C, CHR 0x20), (0x2D, CHR ''_''), (0x2E, CHR ''+''), (0x2F, CHR ''{''), (0x30, CHR ''}''),
     (0x31, CHR ''|''), (0x32, CHR ''~''), (0x33, CHR '':''), (0x34, CHR 0x22), (0x35, CHR ''~''),
     (0x36, CHR ''<''), (0x37, CHR ''>''), (0x38, CHR ''?'')]"

record hid_key_event =
  h_keycode :: u8
  h_ascii :: u8
  h_pressed :: bool
  h_modifiers :: u8

record hid_mouse_event =
  dx :: u16
  dy :: u16
  wheel :: u8
  buttons :: u8

definition HID_KEY_BUF_SIZE :: nat where
  "HID_KEY_BUF_SIZE = 32"

definition HID_MOUSE_BUF_SIZE :: nat where
  "HID_MOUSE_BUF_SIZE = 16"

record usb_hid_dev =
  slot_id :: u8
  protocol :: u8
  ep_num :: u8
  ep_max_packet :: u16
  ep_interval :: u8
  prev_keys :: bytes
  prev_modifiers :: u8
  key_buf :: "hid_key_event list"
  key_head :: u8
  key_tail :: u8
  mouse_buf :: "hid_mouse_event list"
  mouse_head :: u8
  mouse_tail :: u8
  h_initialized :: bool

section \<open>Rings\<close>

definition hid_push_key :: "hid_key_event \<Rightarrow> usb_hid_dev \<Rightarrow> usb_hid_dev" where
  "hid_push_key evt hid =
     (let nxt = word_of_nat ((unat (key_head hid) + 1) mod HID_KEY_BUF_SIZE)
      in if nxt = key_tail hid then hid
         else hid\<lparr>key_buf := (key_buf hid)[unat (key_head hid) := evt], key_head := nxt\<rparr>)"

definition hid_push_mouse :: "hid_mouse_event \<Rightarrow> usb_hid_dev \<Rightarrow> usb_hid_dev" where
  "hid_push_mouse evt hid =
     (let nxt = word_of_nat ((unat (mouse_head hid) + 1) mod HID_MOUSE_BUF_SIZE)
      in if nxt = mouse_tail hid then hid
         else hid\<lparr>mouse_buf := (mouse_buf hid)[unat (mouse_head hid) := evt], mouse_head := nxt\<rparr>)"

definition usb_hid_get_key :: "usb_hid_dev \<Rightarrow> (hid_key_event \<times> usb_hid_dev) option" where
  "usb_hid_get_key hid =
     (if key_head hid = key_tail hid then None
      else Some (key_buf hid ! unat (key_tail hid),
                 hid\<lparr>key_tail := word_of_nat ((unat (key_tail hid) + 1) mod HID_KEY_BUF_SIZE)\<rparr>))"

definition usb_hid_get_mouse :: "usb_hid_dev \<Rightarrow> (hid_mouse_event \<times> usb_hid_dev) option" where
  "usb_hid_get_mouse hid =
     (if mouse_head hid = mouse_tail hid then None
      else Some (mouse_buf hid ! unat (mouse_tail hid),
                 hid\<lparr>mouse_tail := word_of_nat ((unat (mouse_tail hid) + 1) mod HID_MOUSE_BUF_SIZE)\<rparr>))"

section \<open>Reports\<close>

definition usb_hid_keycode_to_ascii :: "u8 \<Rightarrow> u8 \<Rightarrow> u8" where
  "usb_hid_keycode_to_ascii keycode modifiers =
     (if 128 \<le> keycode then 0
      else if modifiers AND 0x22 \<noteq> 0 then hid_keymap_shifted ! unat keycode
      else hid_keymap_normal ! unat keycode)"

definition hid_key_in_array :: "u8 \<Rightarrow> bytes \<Rightarrow> bool" where
  "hid_key_in_array key arr = list_ex (\<lambda>i. arr ! i = key) [0..<6]"

text \<open>One round of the loops over the six keys: an event for a key that is not in the other report.\<close>

definition hid_key_change :: "bytes \<Rightarrow> bool \<Rightarrow> u8 \<Rightarrow> u8 \<Rightarrow> usb_hid_dev \<Rightarrow> usb_hid_dev" where
  "hid_key_change other down mods key hid =
     (if key = 0 \<or> key = 1 then hid
      else if \<not> hid_key_in_array key other
      then hid_push_key \<lparr>h_keycode = key, h_ascii = usb_hid_keycode_to_ascii key mods, h_pressed = down, h_modifiers = mods\<rparr> hid
      else hid)"

definition hid_process_keyboard :: "bytes \<Rightarrow> u16 \<Rightarrow> usb_hid_dev \<Rightarrow> usb_hid_dev" where
  "hid_process_keyboard report len hid =
     (if len < 8 then hid
      else let mods = report ! 0;
               keys = slice 2 6 report;
               hid1 = fold (hid_key_change (prev_keys hid) True mods) keys hid;
               hid2 = fold (hid_key_change keys False mods) (prev_keys hid1) hid1
           in hid2\<lparr>prev_keys := keys, prev_modifiers := mods\<rparr>)"

definition hid_process_mouse :: "bytes \<Rightarrow> u16 \<Rightarrow> usb_hid_dev \<Rightarrow> usb_hid_dev" where
  "hid_process_mouse report len hid =
     (if len < 3 then hid
      else hid_push_mouse \<lparr>dx = scast (report ! 1), dy = scast (report ! 2),
             wheel = (if 4 \<le> len then report ! 3 else 0), buttons = report ! 0\<rparr> hid)"

text \<open>What one \<^verbatim>\<open>xhci_poll_interrupt\<close> returns: status, the 64-byte report buffer and the length.\<close>

type_synonym hid_report = "hal_status \<times> bytes \<times> u16"

definition usb_hid_poll :: "hid_report \<Rightarrow> usb_hid_dev \<Rightarrow> hal_status \<times> usb_hid_dev" where
  "usb_hid_poll xfer hid =
     (if \<not> h_initialized hid then (HAL_ERROR, hid)
      else let (st, report, len) = xfer
           in if st \<noteq> HAL_OK then (st, hid)
              else if len = 0 then (HAL_OK, hid)
              else if protocol hid = 1 then (HAL_OK, hid_process_keyboard report len hid)
              else if protocol hid = 2 then (HAL_OK, hid_process_mouse report len hid)
              else (HAL_OK, hid))"

definition usb_hid_is_keyboard :: "usb_hid_dev \<Rightarrow> bool" where
  "usb_hid_is_keyboard hid \<longleftrightarrow> h_initialized hid \<and> protocol hid = 1"

definition usb_hid_is_mouse :: "usb_hid_dev \<Rightarrow> bool" where
  "usb_hid_is_mouse hid \<longleftrightarrow> h_initialized hid \<and> protocol hid = 2"

section \<open>Initialisation\<close>

text \<open>
  The loop over the configuration descriptor: \<open>buf\<close> is \<^verbatim>\<open>config_buf\<close>, \<open>total_len\<close> the clamped total length.
  The offset is at most 254 whenever it is advanced, so its 16 bits never wrap.
\<close>

definition hid_interface :: "bytes \<Rightarrow> nat \<Rightarrow> usb_hid_dev \<Rightarrow> (bool \<times> usb_hid_dev) option" where
  "hid_interface buf off hid =
     do { cls \<leftarrow> byte_at buf (off + 5);
          if cls \<noteq> 3 then Some (False, hid) else
          do { sub \<leftarrow> byte_at buf (off + 6);
               if sub \<noteq> 1 then Some (False, hid) else
               do { p \<leftarrow> byte_at buf (off + 7); Some (True, hid\<lparr>protocol := p\<rparr>) } } }"

definition hid_endpoint :: "bytes \<Rightarrow> nat \<Rightarrow> usb_hid_dev \<Rightarrow> (bool \<times> usb_hid_dev) option" where
  "hid_endpoint buf off hid =
     do { attr \<leftarrow> byte_at buf (off + 3);
          if attr AND 3 \<noteq> 3 then Some (False, hid) else
          do { addr \<leftarrow> byte_at buf (off + 2);
               if addr AND 0x80 = 0 then Some (False, hid) else
               do { l \<leftarrow> byte_at buf (off + 4); h \<leftarrow> byte_at buf (off + 5); i \<leftarrow> byte_at buf (off + 6);
                    Some (True, hid\<lparr>ep_num := addr AND 0x0F, ep_max_packet := le16 0 [l, h], ep_interval := i\<rparr>) } } }"

function hid_scan :: "bytes \<Rightarrow> nat \<Rightarrow> nat \<Rightarrow> bool \<Rightarrow> usb_hid_dev \<Rightarrow> (bool \<times> usb_hid_dev) option" where
  "hid_scan buf total_len off found hid =
     (if off + 2 \<le> total_len then
        do { desc_len \<leftarrow> byte_at buf off;
             desc_type \<leftarrow> byte_at buf (off + 1);
             if desc_len = 0 then Some (found, hid) else
             do { (f, hid) \<leftarrow> (if desc_type = 4 \<and> 9 \<le> desc_len then hid_interface buf off hid else Some (False, hid));
                  let found = (found \<or> f);
                  (stop, hid) \<leftarrow> (if found \<and> desc_type = 5 \<and> 7 \<le> desc_len then hid_endpoint buf off hid else Some (False, hid));
                  if stop then Some (found, hid) else hid_scan buf total_len (off + unat desc_len) found hid } }
      else Some (found, hid))"
  by pat_completeness auto
termination
  by (relation "measure (\<lambda>(buf, total_len, off, found, hid). total_len - off)") (auto simp: unat_gt_0 intro!: diff_less_mono2)

declare hid_scan.simps [simp del]

text \<open>
  What initialisation takes from the host controller driver: the status of reading the device descriptor, the
  status and bytes of the configuration descriptor (a 256-byte buffer, zero where nothing was read), and the
  status of setting the configuration and of configuring the endpoint.
\<close>

record xhci_env =
  x_device_desc :: hal_status
  x_config_desc :: "hal_status \<times> bytes"
  x_set_config :: "u8 \<Rightarrow> hal_status"
  x_configure_ep :: "u8 \<Rightarrow> u16 \<Rightarrow> u8 \<Rightarrow> hal_status"

definition zero_hid :: usb_hid_dev where
  "zero_hid = \<lparr>slot_id = 0, protocol = 0, ep_num = 0, ep_max_packet = 0, ep_interval = 0, prev_keys = replicate 6 0,
     prev_modifiers = 0,
     key_buf = replicate HID_KEY_BUF_SIZE \<lparr>h_keycode = 0, h_ascii = 0, h_pressed = False, h_modifiers = 0\<rparr>,
     key_head = 0, key_tail = 0,
     mouse_buf = replicate HID_MOUSE_BUF_SIZE \<lparr>dx = 0, dy = 0, wheel = 0, buttons = 0\<rparr>,
     mouse_head = 0, mouse_tail = 0, h_initialized = False\<rparr>"

definition usb_hid_init :: "xhci_env \<Rightarrow> u8 \<Rightarrow> (hal_status \<times> usb_hid_dev) option" where
  "usb_hid_init env slot =
     (let hid = zero_hid\<lparr>slot_id := slot\<rparr>; (st, config_buf) = x_config_desc env
      in if x_device_desc env \<noteq> HAL_OK then Some (x_device_desc env, hid)
         else if st \<noteq> HAL_OK then Some (st, hid)
         else let total_len = min (unat (le16 2 config_buf)) 256
              in do { (found, hid) \<leftarrow> hid_scan config_buf total_len (unat (config_buf ! 0)) False hid;
                      if \<not> found \<or> ep_num hid = 0 then Some (HAL_NO_DEVICE, hid)
                      else let st = x_set_config env (config_buf ! 5)
                           in if st \<noteq> HAL_OK then Some (st, hid)
                              else let st = x_configure_ep env (ep_num hid) (ep_max_packet hid) (ep_interval hid)
                                   in if st \<noteq> HAL_OK then Some (st, hid)
                                      else Some (HAL_OK, hid\<lparr>h_initialized := True\<rparr>) })"

section \<open>The rings are bounded queues\<close>

definition hid_wf :: "usb_hid_dev \<Rightarrow> bool" where
  "hid_wf hid \<longleftrightarrow> length (key_buf hid) = 32 \<and> unat (key_head hid) < 32 \<and> unat (key_tail hid) < 32 \<and>
     length (mouse_buf hid) = 16 \<and> unat (mouse_head hid) < 16 \<and> unat (mouse_tail hid) < 16 \<and>
     length (prev_keys hid) = 6"

definition hid_keys :: "usb_hid_dev \<Rightarrow> hid_key_event list" where
  "hid_keys hid = ring_items 32 (key_buf hid) (unat (key_head hid)) (unat (key_tail hid))"

definition hid_moves :: "usb_hid_dev \<Rightarrow> hid_mouse_event list" where
  "hid_moves hid = ring_items 16 (mouse_buf hid) (unat (mouse_head hid)) (unat (mouse_tail hid))"

interpretation hq: array_ring hid_wf hid_keys hid_push_key usb_hid_get_key 31 key_buf
    "\<lambda>hid. unat (key_head hid)" "\<lambda>hid. unat (key_tail hid)" 32
  by unfold_locales (auto simp: hid_wf_def hid_keys_def hid_push_key_def usb_hid_get_key_def HID_KEY_BUF_SIZE_def
    Let_def unat_ring8 ring8_eq word_unat_eq_iff)

interpretation mq: array_ring hid_wf hid_moves hid_push_mouse usb_hid_get_mouse 15 mouse_buf
    "\<lambda>hid. unat (mouse_head hid)" "\<lambda>hid. unat (mouse_tail hid)" 16
  by unfold_locales (auto simp: hid_wf_def hid_moves_def hid_push_mouse_def usb_hid_get_mouse_def HID_MOUSE_BUF_SIZE_def
    Let_def unat_ring8 ring8_eq word_unat_eq_iff)

section \<open>Reports and held keys\<close>

text \<open>The keys a report names, without the codes for "none" and "too many keys".\<close>

definition real_keys :: "bytes \<Rightarrow> bytes" where
  "real_keys ks = filter (\<lambda>k. k \<noteq> 0 \<and> k \<noteq> 1) ks"

definition key_event :: "bool \<Rightarrow> u8 \<Rightarrow> u8 \<Rightarrow> hid_key_event" where
  "key_event down mods k =
     \<lparr>h_keycode = k, h_ascii = usb_hid_keycode_to_ascii k mods, h_pressed = down, h_modifiers = mods\<rparr>"

text \<open>The events between two reports: the new keys in order, then the released ones.\<close>

definition report_events :: "bytes \<Rightarrow> u8 \<Rightarrow> bytes \<Rightarrow> hid_key_event list" where
  "report_events prev mods keys =
     map (key_event True mods) (filter (\<lambda>k. k \<notin> set prev) (real_keys keys)) @
     map (key_event False mods) (filter (\<lambda>k. k \<notin> set keys) (real_keys prev))"

text \<open>The set of keys held after a list of events.\<close>

fun replay :: "hid_key_event list \<Rightarrow> u8 set \<Rightarrow> u8 set" where
  "replay [] held = held"
| "replay (e # es) held = replay es (if h_pressed e then insert (h_keycode e) held else held - {h_keycode e})"

lemma replay_append: "replay (xs @ ys) held = replay ys (replay xs held)"
  by (induction xs arbitrary: held) auto

lemma replay_presses: "replay (map (key_event True mods) ks) held = held \<union> set ks"
  by (induction ks arbitrary: held) (auto simp: key_event_def)

lemma replay_releases: "replay (map (key_event False mods) ks) held = held - set ks"
  by (induction ks arbitrary: held) (auto simp: key_event_def)

lemma replay_report: "replay (report_events prev mods keys) (set (real_keys prev)) = set (real_keys keys)"
  by (auto simp: report_events_def replay_append replay_presses replay_releases real_keys_def)

lemma in_array_iff: "length arr = 6 \<Longrightarrow> hid_key_in_array key arr \<longleftrightarrow> key \<in> set arr"
  by (auto simp: hid_key_in_array_def list_ex_iff in_set_conv_nth)

lemma key_change_fold:
  assumes "length other = 6"
  shows "fold (hid_key_change other down mods) ks hid =
    fold hid_push_key (map (key_event down mods) (filter (\<lambda>k. k \<notin> set other) (real_keys ks))) hid"
  by (induction ks arbitrary: hid) (auto simp: hid_key_change_def in_array_iff [OF assms] real_keys_def key_event_def)

lemma push_keys_keep:
  "prev_keys (fold hid_push_key es hid) = prev_keys hid \<and> hid_moves (fold hid_push_key es hid) = hid_moves hid \<and>
   protocol (fold hid_push_key es hid) = protocol hid \<and> h_initialized (fold hid_push_key es hid) = h_initialized hid"
  by (induction es arbitrary: hid) (simp_all add: hid_push_key_def hid_moves_def Let_def)

lemma process_keyboard:
  assumes "hid_wf hid" "8 \<le> len" "8 \<le> length report"
  defines "keys \<equiv> slice 2 6 report" and "hid' \<equiv> hid_process_keyboard report len hid"
  shows "hid_wf hid' \<and> prev_keys hid' = keys \<and> hid_moves hid' = hid_moves hid \<and>
    h_initialized hid' = h_initialized hid \<and> protocol hid' = protocol hid \<and> prev_modifiers hid' = report ! 0 \<and>
    hid_keys hid' = take 31 (hid_keys hid @ report_events (prev_keys hid) (report ! 0) keys)"
proof -
  let ?es = "report_events (prev_keys hid) (report ! 0) keys" and ?h = "fold hid_push_key (report_events (prev_keys hid) (report ! 0) keys) hid"
  have l: "length (prev_keys hid) = 6" "length keys = 6" using assms by (simp_all add: hid_wf_def)
  have "\<not> len < 8" using assms(2) by simp
  then have h': "hid' = ?h\<lparr>prev_keys := keys, prev_modifiers := report ! 0\<rparr>"
    unfolding hid'_def hid_process_keyboard_def
    by (simp add: key_change_fold l push_keys_keep report_events_def Let_def flip: keys_def)
  have f: "hid_wf ?h" "hid_keys ?h = take 31 (hid_keys hid @ ?es)" using hq.push_all [OF assms(1)] by simp_all
  show ?thesis using f l push_keys_keep [of ?es hid] by (simp add: h' hid_wf_def hid_keys_def hid_moves_def)
qed

lemma report_events_length: "length prev = 6 \<Longrightarrow> length keys = 6 \<Longrightarrow> length (report_events prev mods keys) \<le> 12"
  using length_filter_le [of "\<lambda>k. k \<notin> set prev" "real_keys keys"] length_filter_le [of "\<lambda>k. k \<noteq> 0 \<and> k \<noteq> 1" keys]
    length_filter_le [of "\<lambda>k. k \<notin> set keys" "real_keys prev"] length_filter_le [of "\<lambda>k. k \<noteq> 0 \<and> k \<noteq> 1" prev]
  by (simp add: report_events_def real_keys_def)

lemma report_events_eq:
  "report_events prev mods keys =
     map (\<lambda>k. \<lparr>h_keycode = k, h_ascii = usb_hid_keycode_to_ascii k mods, h_pressed = True, h_modifiers = mods\<rparr>)
       (filter (\<lambda>k. k \<noteq> 0 \<and> k \<noteq> 1 \<and> k \<notin> set prev) keys) @
     map (\<lambda>k. \<lparr>h_keycode = k, h_ascii = usb_hid_keycode_to_ascii k mods, h_pressed = False, h_modifiers = mods\<rparr>)
       (filter (\<lambda>k. k \<noteq> 0 \<and> k \<noteq> 1 \<and> k \<notin> set keys) prev)"
  by (simp add: report_events_def real_keys_def key_event_def [abs_def] conj_ac)

text \<open>
  C25. Polling a HID keyboard that has a boot report queues exactly one event per key that changed since the previous
  report, in this order: the new keys in the order of the report, then the released ones in the order of the previous
  report, leaving out the codes 0 (none) and 1 (too many keys); each event carries the key's code, its character under
  the report's modifiers, and those modifiers. The ring keeps the first 31 of the queued and new events. When at least
  twelve of its places are free nothing is lost, and replaying the new events on the keys of the previous report gives
  exactly the keys of this report. The report's keys and modifiers become the previous ones.
\<close>

theorem hid_poll_tracks_keys:
  assumes "hid_wf hid" "h_initialized hid" "protocol hid = 1" "length report = 64" "8 \<le> len"
    and "mods = report ! 0" "keys = slice 2 6 report" "prev = prev_keys hid"
    and "es = map (\<lambda>k. \<lparr>h_keycode = k, h_ascii = usb_hid_keycode_to_ascii k mods, h_pressed = True, h_modifiers = mods\<rparr>)
        (filter (\<lambda>k. k \<noteq> 0 \<and> k \<noteq> 1 \<and> k \<notin> set prev) keys) @
      map (\<lambda>k. \<lparr>h_keycode = k, h_ascii = usb_hid_keycode_to_ascii k mods, h_pressed = False, h_modifiers = mods\<rparr>)
        (filter (\<lambda>k. k \<noteq> 0 \<and> k \<noteq> 1 \<and> k \<notin> set keys) prev)"
  shows "\<exists>hid'. usb_hid_poll (HAL_OK, report, len) hid = (HAL_OK, hid') \<and> hid_wf hid' \<and>
    prev_keys hid' = keys \<and> prev_modifiers hid' = mods \<and> hid_moves hid' = hid_moves hid \<and>
    hid_keys hid' = take 31 (hid_keys hid @ es) \<and>
    (length (hid_keys hid) \<le> 19 \<longrightarrow>
       hid_keys hid' = hid_keys hid @ es \<and> replay es (set prev - {0, 1}) = set keys - {0, 1})"
proof -
  have es: "es = report_events (prev_keys hid) (report ! 0) (slice 2 6 report)"
    unfolding report_events_eq using assms(6-9) by simp
  have "len \<noteq> 0" using assms(5) by auto
  then have "usb_hid_poll (HAL_OK, report, len) hid = (HAL_OK, hid_process_keyboard report len hid)"
    using assms(2,3) by (simp add: usb_hid_poll_def)
  moreover have "length es \<le> 12" unfolding es using assms by (intro report_events_length) (simp_all add: hid_wf_def)
  then have "length (hid_keys hid) \<le> 19 \<Longrightarrow> take 31 (hid_keys hid @ es) = hid_keys hid @ es" by simp
  moreover have "set (real_keys ks) = set ks - {0, 1}" for ks by (auto simp: real_keys_def)
  ultimately show ?thesis
    using process_keyboard [OF assms(1,5), of report] assms(4) replay_report [of "prev_keys hid" "report ! 0" "slice 2 6 report"]
      es assms(6-8) by auto
qed

text \<open>The key C goes up and B goes down while A stays held.\<close>

theorem hid_poll_tracks_keys_witness:
  "\<exists>hid'. usb_hid_poll (HAL_OK, [0, 0, 4, 5] @ replicate 60 0, 8)
      (zero_hid\<lparr>h_initialized := True, protocol := 1, prev_keys := [4, 6, 0, 0, 0, 0]\<rparr>) = (HAL_OK, hid') \<and> hid_wf hid' \<and>
    map (\<lambda>e. (h_keycode e, h_ascii e, h_pressed e)) (hid_keys hid') = [(5, 0x62, True), (6, 0x63, False)]"
proof -
  let ?h = "zero_hid\<lparr>h_initialized := True, protocol := 1, prev_keys := [4, 6, 0, 0, 0, 0]\<rparr>"
  let ?r = "[0, 0, 4, 5] @ replicate 60 0 :: bytes"
  have h: "hid_wf ?h" "hid_keys ?h = []"
    by (simp_all add: hid_wf_def zero_hid_def hid_keys_def ring_items_def HID_KEY_BUF_SIZE_def HID_MOUSE_BUF_SIZE_def)
  have r: "[4, 5, 0, 0, 0, 0] = slice 2 6 ?r" by (simp add: slice_def numeral_eq_Suc)
  have a: "usb_hid_keycode_to_ascii 5 0 = 0x62" "usb_hid_keycode_to_ascii 6 0 = 0x63" by code_simp+
  from hid_poll_tracks_keys [OF h(1) _ _ _ _ _ r, of 8 0 "[4, 6, 0, 0, 0, 0]", OF _ _ _ _ _ _ refl] show ?thesis
    by (auto simp: h(2) a)
qed

section \<open>The search of the configuration descriptor\<close>

text \<open>A descriptor: its first byte is its length.\<close>

definition desc_ok :: "bytes \<Rightarrow> bool" where
  "desc_ok d \<longleftrightarrow> 2 \<le> length d \<and> length d < 256 \<and> unat (d ! 0) = length d"

definition boot_interface :: "bytes \<Rightarrow> bool" where
  "boot_interface d \<longleftrightarrow> d ! 1 = 4 \<and> 9 \<le> length d \<and> d ! 5 = 3 \<and> d ! 6 = 1"

definition interrupt_in :: "bytes \<Rightarrow> bool" where
  "interrupt_in d \<longleftrightarrow> d ! 1 = 5 \<and> 7 \<le> length d \<and> d ! 3 AND 3 = 3 \<and> d ! 2 AND 0x80 \<noteq> 0"

text \<open>
  What the search looks for: the first interrupt endpoint towards the host that follows a boot interface, and the
  protocol of the last boot interface before it.
\<close>

fun find_hid :: "bool \<Rightarrow> usb_hid_dev \<Rightarrow> bytes list \<Rightarrow> bool \<times> usb_hid_dev" where
  "find_hid found hid [] = (found, hid)"
| "find_hid found hid (d # ds) =
     (if boot_interface d then find_hid True (hid\<lparr>protocol := d ! 7\<rparr>) ds
      else if found \<and> interrupt_in d
      then (True, hid\<lparr>ep_num := d ! 2 AND 0x0F, ep_max_packet := le16 4 d, ep_interval := d ! 6\<rparr>)
      else find_hid found hid ds)"

lemma find_hid_keeps: "h_initialized (snd (find_hid found hid ds)) = h_initialized hid"
  by (induction ds arbitrary: found hid) auto

lemma le16_nth: "i + 2 \<le> length d \<Longrightarrow> le16 i d = le16 0 [d ! i, d ! (i + 1)]"
  by (simp add: le16_def slice_def numeral_2_eq_2 take_Suc_conv_app_nth)

lemma unat_ge_of_nat: "(9 :: u8) \<le> x \<longleftrightarrow> 9 \<le> unat x" "(7 :: u8) \<le> x \<longleftrightarrow> 7 \<le> unat x"
  by (simp_all add: word_le_nat_alt)

lemma interface_at:
  assumes "9 \<le> length d"
  shows "hid_interface (pre @ d @ post) (length pre) hid =
    Some (if d ! 5 = 3 \<and> d ! 6 = 1 then (True, hid\<lparr>protocol := d ! 7\<rparr>) else (False, hid))"
  using assms by (simp add: hid_interface_def nth_append)

lemma endpoint_at:
  assumes "7 \<le> length d"
  shows "hid_endpoint (pre @ d @ post) (length pre) hid =
    Some (if d ! 3 AND 3 = 3 \<and> d ! 2 AND 0x80 \<noteq> 0
          then (True, hid\<lparr>ep_num := d ! 2 AND 0x0F, ep_max_packet := le16 4 d, ep_interval := d ! 6\<rparr>) else (False, hid))"
  using assms le16_nth [of 4 d] by (simp add: hid_endpoint_def nth_append)

lemma scan_step:
  assumes d: "desc_ok d" and fit: "length pre + length d \<le> n"
  shows "hid_scan (pre @ d @ post) n (length pre) found hid =
    (if boot_interface d then hid_scan (pre @ d @ post) n (length (pre @ d)) True (hid\<lparr>protocol := d ! 7\<rparr>)
     else if found \<and> interrupt_in d
     then Some (True, hid\<lparr>ep_num := d ! 2 AND 0x0F, ep_max_packet := le16 4 d, ep_interval := d ! 6\<rparr>)
     else hid_scan (pre @ d @ post) n (length (pre @ d)) found hid)"
proof -
  have l: "2 \<le> length d" "unat (d ! 0) = length d" using d by (simp_all add: desc_ok_def)
  then have z: "d ! 0 \<noteq> 0" by auto
  have r: "byte_at (pre @ d @ post) (length pre) = Some (d ! 0)" "(pre @ d @ post) ! length pre = d ! 0" "(pre @ d @ post) ! Suc (length pre) = d ! 1"
    using l by (auto simp: nth_append byte_at_def)
  show ?thesis
    using fit l z
    by (subst hid_scan.simps)
       (auto simp: r unat_ge_of_nat interface_at endpoint_at boot_interface_def interrupt_in_def)
qed

lemma scan_correct:
  assumes "list_all desc_ok ds" "length pre + length (concat ds) \<le> n" "n < length pre + length (concat ds) + 2"
  shows "hid_scan (pre @ concat ds @ post) n (length pre) found hid = Some (find_hid found hid ds)"
  using assms
proof (induction ds arbitrary: pre found hid)
  case Nil
  then show ?case by (simp add: hid_scan.simps)
next
  case (Cons d ds)
  have IH: "hid_scan (pre @ d @ concat ds @ post) n (length (pre @ d)) f h = Some (find_hid f h ds)" for f h
    using Cons.IH [of "pre @ d" f h] Cons.prems by simp
  have eq: "pre @ concat (d # ds) @ post = pre @ d @ concat ds @ post" by simp
  have d: "desc_ok d" "length pre + length d \<le> n" using Cons.prems by simp_all
  show ?case unfolding eq scan_step [OF d] IH by simp
qed

text \<open>
  On a configuration descriptor that is a chain of descriptors ending at its total length, the search of HID
  initialisation reads nothing past its 256-byte buffer and finds the first interrupt endpoint behind a boot
  interface; the device is ready exactly when there is one and the host controller accepts it.
\<close>

theorem hid_init_finds_device:
  assumes "x_device_desc env = HAL_OK" "x_config_desc env = (HAL_OK, c # cfg @ concat ds @ post)"
    and "unat c = length (c # cfg)" "list_all desc_ok ds"
    and "unat (le16 2 (c # cfg @ concat ds @ post)) = length (c # cfg) + length (concat ds)"
    and "length (c # cfg @ concat ds @ post) = 256"
  shows "\<exists>rc hid'. usb_hid_init env slot = Some (rc, hid') \<and>
    (let (found, hid) = find_hid False (zero_hid\<lparr>slot_id := slot\<rparr>) ds
     in h_initialized hid' = (rc = HAL_OK) \<and>
        (rc = HAL_OK \<longleftrightarrow> found \<and> ep_num hid \<noteq> 0 \<and> x_set_config env ((c # cfg @ concat ds @ post) ! 5) = HAL_OK \<and>
          x_configure_ep env (ep_num hid) (ep_max_packet hid) (ep_interval hid) = HAL_OK) \<and>
        (rc = HAL_OK \<longrightarrow> hid' = hid\<lparr>h_initialized := True\<rparr>))"
proof -
  let ?buf = "c # cfg @ concat ds @ post" and ?n = "length (c # cfg) + length (concat ds)"
  obtain found hid where f: "find_hid False (zero_hid\<lparr>slot_id := slot\<rparr>) ds = (found, hid)" by force
  have m: "min ?n 256 = ?n" using assms(6) by simp
  have "hid_scan ((c # cfg) @ concat ds @ post) ?n (length (c # cfg)) False (zero_hid\<lparr>slot_id := slot\<rparr>) = Some (found, hid)"
    unfolding f [symmetric] by (rule scan_correct) (use assms in simp_all)
  then have s: "hid_scan ?buf (min (unat (le16 2 ?buf)) 256) (unat (?buf ! 0)) False (zero_hid\<lparr>slot_id := slot\<rparr>) = Some (found, hid)"
    unfolding assms(5) m using assms(3) by simp
  have "\<not> h_initialized hid" using find_hid_keeps [of False "zero_hid\<lparr>slot_id := slot\<rparr>" ds] f by (simp add: zero_hid_def)
  then show ?thesis using s by (auto simp: usb_hid_init_def assms(1,2) f Let_def)
qed

definition sample_env :: xhci_env where
  "sample_env = \<lparr>x_device_desc = HAL_OK,
     x_config_desc = (HAL_OK, [9, 2, 25, 0, 1, 1, 0, 0x80, 50] @ [9, 4, 0, 0, 1, 3, 1, 1, 0, 7, 5, 0x81, 3, 8, 0, 10] @ replicate 231 0),
     x_set_config = (\<lambda>_. HAL_OK), x_configure_ep = (\<lambda>_ _ _. HAL_OK)\<rparr>"

text \<open>A boot keyboard with endpoint 1.\<close>

theorem hid_init_finds_device_witness:
  "\<exists>hid'. usb_hid_init sample_env 1 = Some (HAL_OK, hid') \<and> usb_hid_is_keyboard hid' \<and> ep_num hid' = 1 \<and> ep_max_packet hid' = 8"
proof -
  let ?ds = "[[9, 4, 0, 0, 1, 3, 1, 1, 0], [7, 5, 0x81, 3, 8, 0, 10]] :: bytes list"
  have f: "find_hid False (zero_hid\<lparr>slot_id := 1\<rparr>) ?ds =
      (True, zero_hid\<lparr>slot_id := 1, protocol := 1, ep_num := 1, ep_max_packet := 8, ep_interval := 10\<rparr>)"
    by (simp add: boot_interface_def interrupt_in_def le16_def slice_def)
  have "le16 2 (9 # [2, 25, 0, 1, 1, 0, 0x80, 50] @ concat ?ds @ replicate 231 0) = 25"
    by (simp add: le16_def slice_def)
  then show ?thesis
    using hid_init_finds_device [of sample_env 9 "[2, 25, 0, 1, 1, 0, 0x80, 50]" ?ds "replicate 231 0" 1] f
    by (auto simp: sample_env_def desc_ok_def usb_hid_is_keyboard_def)
qed

text \<open>
  The search checks only that a descriptor's first two bytes lie within the total length: an interface
  descriptor cut off by the end of the buffer is read past it.
\<close>

theorem hid_init_overreads:
  "usb_hid_init (sample_env\<lparr>x_config_desc := (HAL_OK, [250, 2, 0, 1] @ replicate 246 0 @ [9, 4, 0, 0, 1, 3])\<rparr>) slot = None"
  by (simp add: usb_hid_init_def sample_env_def le16_def slice_def hid_scan.simps hid_interface_def byte_at_def nth_append)

end
