(* ===== verification/Keyboard.thy ===== *)
theory Keyboard
  imports Ps2 Usb_Hid Driver_Loader
begin

text \<open>
  The unified keyboard layer, \<^verbatim>\<open>kernel/keyboard.c\<close>: the event ring every backend feeds, the raw port
  fallback with its set-1 tables, the PS/2, USB HID and driver-loader backends, and the calls of the shell. The
  drivers are the models of their own theories; the controller's ports, the USB transfers and the input function
  of a loaded driver are parameters, numbered by call.
\<close>

section \<open>Tables and state\<close>

definition sc1_normal :: bytes where
  "sc1_normal = char_table
    [(0x02, CHR ''1''), (0x03, CHR ''2''), (0x04, CHR ''3''), (0x05, CHR ''4''), (0x06, CHR ''5''),
     (0x07, CHR ''6''), (0x08, CHR ''7''), (0x09, CHR ''8''), (0x0A, CHR ''9''), (0x0B, CHR ''0''),
     (0x0C, CHR ''-''), (0x0D, CHR ''=''), (0x0E, CHR 0x08), (0x0F, CHR 0x09), (0x10, CHR ''q''),
     (0x11, CHR ''w''), (0x12, CHR ''e''), (0x13, CHR ''r''), (0x14, CHR ''t''), (0x15, CHR ''y''),
     (0x16, CHR ''u''), (0x17, CHR ''i''), (0x18, CHR ''o''), (0x19, CHR ''p''), (0x1A, CHR ''[''),
     (0x1B, CHR '']''), (0x1C, CHR 0x0A), (0x1E, CHR ''a''), (0x1F, CHR ''s''), (0x20, CHR ''d''),
     (0x21, CHR ''f''), (0x22, CHR ''g''), (0x23, CHR ''h''), (0x24, CHR ''j''), (0x25, CHR ''k''),
     (0x26, CHR ''l''), (0x27, CHR '';''), (0x28, CHR 0x27), (0x29, CHR 0x60), (0x2B, CHR 0x5C),
     (0x2C, CHR ''z''), (0x2D, CHR ''x''), (0x2E, CHR ''c''), (0x2F, CHR ''v''), (0x30, CHR ''b''),
     (0x31, CHR ''n''), (0x32, CHR ''m''), (0x33, CHR '',''), (0x34, CHR ''.''), (0x35, CHR ''/''),
     (0x39, CHR 0x20), (0x01, CHR 0x1B)]"

definition sc1_shifted :: bytes where
  "sc1_shifted = char_table
    [(0x02, CHR ''!''), (0x03, CHR ''@''), (0x04, CHR ''#''), (0x05, CHR ''$''), (0x06, CHR ''%''),
     (0x07, CHR ''^''), (0x08, CHR ''&''), (0x09, CHR ''*''), (0x0A, CHR ''(''), (0x0B, CHR '')''),
     (0x0C, CHR ''_''), (0x0D, CHR ''+''), (0x0E, CHR 0x08), (0x0F, CHR 0x09), (0x10, CHR ''Q''),
     (0x11, CHR ''W''), (0x12, CHR ''E''), (0x13, CHR ''R''), (0x14, CHR ''T''), (0x15, CHR ''Y''),
     (0x16, CHR ''U''), (0x17, CHR ''I''), (0x18, CHR ''O''), (0x19, CHR ''P''), (0x1A, CHR ''{''),
     (0x1B, CHR ''}''), (0x1C, CHR 0x0A), (0x1E, CHR ''A''), (0x1F, CHR ''S''), (0x20, CHR ''D''),
     (0x21, CHR ''F''), (0x22, CHR ''G''), (0x23, CHR ''H''), (0x24, CHR ''J''), (0x25, CHR ''K''),
     (0x26, CHR ''L''), (0x27, CHR '':''), (0x28, CHR 0x22), (0x29, CHR ''~''), (0x2B, CHR ''|''),
     (0x2C, CHR ''Z''), (0x2D, CHR ''X''), (0x2E, CHR ''C''), (0x2F, CHR ''V''), (0x30, CHR ''B''),
     (0x31, CHR ''N''), (0x32, CHR ''M''), (0x33, CHR ''<''), (0x34, CHR ''>''), (0x35, CHR ''?''),
     (0x39, CHR 0x20), (0x01, CHR 0x1B)]"

record keyboard_event =
  k_scancode :: u8
  k_ascii :: u8
  k_pressed :: bool
  k_modifiers :: u8

record keyboard =
  g_shift :: bool
  g_ctrl :: bool
  g_alt :: bool
  g_capslock :: bool
  g_buf :: "keyboard_event list"
  g_head :: u32
  g_tail :: u32
  g_ps2 :: ps2_dev
  g_ps2_active :: bool
  g_usb_hid :: "usb_hid_dev option"
  g_usb_hid_active :: bool
  g_initialized :: bool

text \<open>What the layer takes from outside, and how far a run has read it.\<close>

record kbd_env =
  kb_arch :: hal_arch
  kb_ports :: port_env
  kb_hid :: "nat \<Rightarrow> hid_report"
  kb_loader :: loader
  kb_input_poll :: "driver_ops \<Rightarrow> (nat \<Rightarrow> int) option"

record kbd_io =
  io_ports :: ports
  io_hid_polls :: nat
  io_input_polls :: nat

definition KB_BUF_SIZE :: nat where
  "KB_BUF_SIZE = 64"

definition KB_BUF_MASK :: u32 where
  "KB_BUF_MASK = 63"

definition kb_push :: "keyboard_event \<Rightarrow> keyboard \<Rightarrow> keyboard" where
  "kb_push evt kb =
     (let nxt = (g_head kb + 1) AND KB_BUF_MASK
      in if nxt = g_tail kb then kb
         else kb\<lparr>g_buf := (g_buf kb)[unat (g_head kb) := evt], g_head := nxt\<rparr>)"

definition kb_pop :: "keyboard \<Rightarrow> (keyboard_event \<times> keyboard) option" where
  "kb_pop kb =
     (if g_head kb = g_tail kb then None
      else Some (g_buf kb ! unat (g_tail kb), kb\<lparr>g_tail := (g_tail kb + 1) AND KB_BUF_MASK\<rparr>))"

definition mod_mask :: "bool \<Rightarrow> bool \<Rightarrow> bool \<Rightarrow> bool \<Rightarrow> u8" where
  "mod_mask shift ctrl alt caps =
     (if shift then 1 else 0) OR (if ctrl then 2 else 0) OR (if alt then 4 else 0) OR (if caps then 8 else 0)"

definition kb_modifiers :: "keyboard \<Rightarrow> u8" where
  "kb_modifiers kb = mod_mask (g_shift kb) (g_ctrl kb) (g_alt kb) (g_capslock kb)"

section \<open>The backends\<close>

text \<open>One byte of the raw port: the new state and whether the loop is left.\<close>

definition raw_ascii :: "keyboard \<Rightarrow> u8 \<Rightarrow> u8" where
  "raw_ascii kb code =
     (if code < 128 then
        let normal = sc1_normal ! unat code;
            use_shift = (if g_capslock kb \<and> 0x61 \<le> normal \<and> normal \<le> 0x7A then \<not> g_shift kb else g_shift kb);
            a = (if use_shift then sc1_shifted ! unat code else sc1_normal ! unat code)
        in if g_ctrl kb \<and> 0x61 \<le> a \<and> a \<le> 0x7A then a - 0x61 + 1 else a
      else 0)"

definition raw_byte :: "u8 \<Rightarrow> keyboard \<Rightarrow> bool \<times> keyboard" where
  "raw_byte sc kb =
     (let release = (sc AND 0x80 \<noteq> 0); code = sc AND 0x7F
      in if code = 0x2A \<or> code = 0x36 then (True, kb\<lparr>g_shift := \<not> release\<rparr>)
         else if code = 0x1D then (True, kb\<lparr>g_ctrl := \<not> release\<rparr>)
         else if code = 0x38 then (True, kb\<lparr>g_alt := \<not> release\<rparr>)
         else if code = 0x3A \<and> \<not> release then (True, kb\<lparr>g_capslock := \<not> g_capslock kb\<rparr>)
         else (False, kb_push \<lparr>k_scancode = code, k_ascii = raw_ascii kb code, k_pressed = \<not> release,
                               k_modifiers = kb_modifiers kb\<rparr> kb))"

partial_function (option) poll_raw_port60 :: "port_env \<Rightarrow> keyboard \<Rightarrow> ports \<Rightarrow> (keyboard \<times> ports) option" where
  "poll_raw_port60 env kb io =
     (let (v, io1) = hal_port_in8 env PS2_STATUS_PORT io
      in if v AND 1 \<noteq> 0 then
           let (sc, io2) = hal_port_in8 env PS2_DATA_PORT io1; (stop, kb') = raw_byte sc kb
           in if stop then Some (kb', io2) else poll_raw_port60 env kb' io2
         else Some (kb, io1))"

definition of_ps2 :: "ps2_dev \<Rightarrow> ps2_key_event \<Rightarrow> keyboard_event" where
  "of_ps2 dev pe = \<lparr>k_scancode = p_scancode pe, k_ascii = p_ascii pe, k_pressed = p_pressed pe,
     k_modifiers = mod_mask (shift_held dev) (ctrl_held dev) (alt_held dev) (caps_lock dev)\<rparr>"

definition poll_ps2 :: "port_env \<Rightarrow> keyboard \<Rightarrow> ports \<Rightarrow> (keyboard \<times> ports) option" where
  "poll_ps2 env kb io =
     (if \<not> g_ps2_active kb then Some (kb, io)
      else do { (dev, io) \<leftarrow> ps2_poll env (g_ps2 kb) io;
                (dev, kb) \<leftarrow> drain ps2_get_key (\<lambda>pe dev. kb_push (of_ps2 dev pe)) dev kb;
                Some (kb\<lparr>g_ps2 := dev\<rparr>, io) })"

definition of_hid :: "hid_key_event \<Rightarrow> keyboard_event" where
  "of_hid he = \<lparr>k_scancode = h_keycode he, k_ascii = h_ascii he, k_pressed = h_pressed he,
     k_modifiers = mod_mask (h_modifiers he AND 0x22 \<noteq> 0) (h_modifiers he AND 0x11 \<noteq> 0) (h_modifiers he AND 0x44 \<noteq> 0) False\<rparr>"

definition poll_usb_hid :: "kbd_env \<Rightarrow> keyboard \<Rightarrow> kbd_io \<Rightarrow> (keyboard \<times> kbd_io) option" where
  "poll_usb_hid env kb io =
     (case g_usb_hid kb of
        None \<Rightarrow> Some (kb, io)
      | Some hid \<Rightarrow>
          if \<not> g_usb_hid_active kb then Some (kb, io)
          else let (st, hid) = usb_hid_poll (kb_hid env (io_hid_polls io)) hid;
                   io = io\<lparr>io_hid_polls := io_hid_polls io + 1\<rparr>
               in do { (hid, kb) \<leftarrow> drain usb_hid_get_key (\<lambda>he _. kb_push (of_hid he)) hid kb;
                       Some (kb\<lparr>g_usb_hid := Some hid\<rparr>, io) })"

definition of_keycode :: "int \<Rightarrow> keyboard_event" where
  "of_keycode kc = \<lparr>k_scancode = word_of_int (kc AND 0xFF), k_ascii = (if kc < 128 then word_of_int kc else 0),
     k_pressed = True, k_modifiers = 0\<rparr>"

partial_function (option) input_loop :: "(nat \<Rightarrow> int) \<Rightarrow> keyboard \<Rightarrow> kbd_io \<Rightarrow> (keyboard \<times> kbd_io) option" where
  "input_loop poll kb io =
     (let kc = poll (io_input_polls io); io = io\<lparr>io_input_polls := io_input_polls io + 1\<rparr>
      in if 0 \<le> kc then input_loop poll (kb_push (of_keycode kc) kb) io else Some (kb, io))"

definition poll_driver_loader :: "kbd_env \<Rightarrow> keyboard \<Rightarrow> kbd_io \<Rightarrow> (keyboard \<times> kbd_io) option" where
  "poll_driver_loader env kb io =
     (case Option.bind (driver_get_input (kb_loader env)) (kb_input_poll env) of
        None \<Rightarrow> Some (kb, io)
      | Some poll \<Rightarrow> input_loop poll kb io)"

section \<open>The public functions\<close>

definition zero_ps2 :: ps2_dev where
  "zero_ps2 = \<lparr>got_release = False, got_extended = False, shift_held = False, ctrl_held = False, alt_held = False,
     caps_lock = False,
     p_buf = replicate PS2_KEY_BUF_SIZE \<lparr>p_scancode = 0, p_ascii = 0, p_pressed = False, p_extended = False\<rparr>,
     p_head = 0, p_tail = 0, port1_ok = False, port2_ok = False, p_initialized = False\<rparr>"

definition keyboard_init :: "kbd_env \<Rightarrow> keyboard \<Rightarrow> kbd_io \<Rightarrow> (hal_status \<times> keyboard \<times> kbd_io) option" where
  "keyboard_init env kb io =
     (let kb = kb\<lparr>g_head := 0, g_tail := 0, g_shift := False, g_ctrl := False, g_alt := False, g_capslock := False,
                  g_ps2_active := False, g_usb_hid_active := False, g_usb_hid := None, g_initialized := False\<rparr>
      in do { (any_source, kb, io) \<leftarrow>
                (if kb_arch env = HAL_ARCH_X86_64 then
                   do { (rc, dev, p) \<leftarrow> ps2_init (kb_arch env) (kb_ports env) zero_ps2 (io_ports io);
                        Some (True, kb\<lparr>g_ps2 := dev, g_ps2_active := (rc = HAL_OK)\<rparr>, io\<lparr>io_ports := p\<rparr>) }
                 else Some (False, kb, io));
              let any_source = (any_source \<or> driver_get_input (kb_loader env) \<noteq> None);
              let kb = kb\<lparr>g_initialized := True\<rparr>;
              Some (if any_source then HAL_OK else HAL_NO_DEVICE, kb, io) })"

definition keyboard_poll :: "kbd_env \<Rightarrow> keyboard \<Rightarrow> kbd_io \<Rightarrow> (keyboard \<times> kbd_io) option" where
  "keyboard_poll env kb io =
     (if \<not> g_initialized kb then Some (kb, io)
      else do { (kb, p) \<leftarrow> (if g_ps2_active kb then poll_ps2 (kb_ports env) kb (io_ports io)
                           else if kb_arch env = HAL_ARCH_X86_64 then poll_raw_port60 (kb_ports env) kb (io_ports io)
                           else Some (kb, io_ports io));
                let io = io\<lparr>io_ports := p\<rparr>;
                (kb, io) \<leftarrow> (if g_usb_hid_active kb then poll_usb_hid env kb io else Some (kb, io));
                poll_driver_loader env kb io })"

definition keyboard_available :: "keyboard \<Rightarrow> int" where
  "keyboard_available kb = (if g_head kb \<noteq> g_tail kb then 1 else 0)"

text \<open>The event is \<open>None\<close> when the status is an error; the flag says whether the caller passed a buffer.\<close>

definition keyboard_get_event ::
  "kbd_env \<Rightarrow> bool \<Rightarrow> keyboard \<Rightarrow> kbd_io \<Rightarrow> ((hal_status \<times> keyboard_event option) \<times> keyboard \<times> kbd_io) option" where
  "keyboard_get_event env dest kb io =
     (if \<not> dest then Some ((HAL_ERROR, None), kb, io)
      else do { (kb, io) \<leftarrow> keyboard_poll env kb io;
                case kb_pop kb of
                  Some (e, kb) \<Rightarrow> Some ((HAL_OK, Some e), kb, io)
                | None \<Rightarrow> Some ((HAL_ERROR, None), kb, io) })"

partial_function (option) keyboard_getchar :: "kbd_env \<Rightarrow> keyboard \<Rightarrow> kbd_io \<Rightarrow> (u8 \<times> keyboard \<times> kbd_io) option" where
  "keyboard_getchar env kb io =
     Option.bind (keyboard_poll env kb io) (\<lambda>(kb, io).
       case kb_pop kb of
         Some (e, kb) \<Rightarrow>
           if k_pressed e \<and> k_ascii e \<noteq> 0 then Some (k_ascii e, kb, io) else keyboard_getchar env kb io
       | None \<Rightarrow> keyboard_getchar env kb io)"

definition keyboard_buffered :: "keyboard \<Rightarrow> u32" where
  "keyboard_buffered kb = (g_head kb - g_tail kb) AND KB_BUF_MASK"

section \<open>The event ring is a bounded queue\<close>

definition kb_wf :: "keyboard \<Rightarrow> bool" where
  "kb_wf kb \<longleftrightarrow> length (g_buf kb) = 64 \<and> unat (g_head kb) < 64 \<and> unat (g_tail kb) < 64 \<and>
     ps2_wf (g_ps2 kb) \<and> pred_option hid_wf (g_usb_hid kb)"

definition kb_items :: "keyboard \<Rightarrow> keyboard_event list" where
  "kb_items kb = ring_items 64 (g_buf kb) (unat (g_head kb)) (unat (g_tail kb))"

lemma unat_mask63: "unat ((x :: u32) AND 63) = unat x mod 64"
proof -
  have "(63 :: u32) = mask 6" by (simp add: mask_eq_exp_minus_1)
  then have "x AND 63 = take_bit 6 x" by (simp add: take_bit_eq_mask)
  then show ?thesis by (simp add: take_bit_eq_mod unat_mod)
qed

lemma kb_next: "unat (h :: u32) < 64 \<Longrightarrow> unat ((h + 1) AND 63) = (unat h + 1) mod 64"
  by (simp add: unat_mask63 unat_word_ariths)

lemma kb_next_eq: "unat h < 64 \<Longrightarrow> (h + 1) AND 63 = (t :: u32) \<longleftrightarrow> (unat h + 1) mod 64 = unat t"
  by (simp only: word_unat_eq_iff kb_next)

interpretation kq: array_ring kb_wf kb_items kb_push kb_pop 63 g_buf
    "\<lambda>kb. unat (g_head kb)" "\<lambda>kb. unat (g_tail kb)" 64
  by unfold_locales (auto simp: kb_wf_def kb_items_def kb_push_def kb_pop_def KB_BUF_MASK_def Let_def kb_next
    kb_next_eq word_unat_eq_iff)

text \<open>A state that has only gained events, with the same USB HID device or none.\<close>

definition gained :: "keyboard \<Rightarrow> keyboard \<Rightarrow> bool" where
  "gained kb kb' \<longleftrightarrow> (kb_wf kb \<longrightarrow> kb_wf kb' \<and> (\<exists>es. kb_items kb' = kb_items kb @ es)) \<and>
     g_usb_hid_active kb' = g_usb_hid_active kb \<and> (g_usb_hid kb' = None \<longleftrightarrow> g_usb_hid kb = None)"

lemma gained_refl [intro, simp]: "gained kb kb"
  by (simp add: gained_def)

lemma gained_trans [trans]: "gained a b \<Longrightarrow> gained b c \<Longrightarrow> gained a c"
  by (auto simp: gained_def)

lemma push_keeps [simp]: "g_usb_hid_active (kb_push e kb) = g_usb_hid_active kb" "g_usb_hid (kb_push e kb) = g_usb_hid kb"
  by (simp_all add: kb_push_def Let_def)

lemma gained_push [intro, simp]: "gained kb (kb_push e kb)"
  using kq.push_wf [of kb e] kq.push_items [of kb e] by (auto simp: gained_def)

lemma gained_fold: "gained kb (fold (\<lambda>x. kb_push (f x)) xs kb)"
  by (induction xs arbitrary: kb) (auto intro: gained_trans [OF gained_push])

lemma raw_byte_gained: "gained kb (snd (raw_byte sc kb))"
  by (auto simp: raw_byte_def Let_def) (auto simp: gained_def kb_wf_def kb_items_def)


lemma poll_raw_gained:
  assumes "poll_raw_port60 env kb io = Some r"
  shows "gained kb (fst r)"
  using assms
proof (rule poll_raw_port60.raw_induct [where P = "\<lambda>env kb io r. gained kb (fst r)", rotated])
  fix f env kb io r
  assume IH: "\<And>env kb io r. f env kb io = Some r \<Longrightarrow> gained kb (fst r)"
    and body: "(let (v, io1) = hal_port_in8 env PS2_STATUS_PORT io
      in if v AND 1 \<noteq> 0 then
           let (sc, io2) = hal_port_in8 env PS2_DATA_PORT io1; (stop, kb') = raw_byte sc kb
           in if stop then Some (kb', io2) else f env kb' io2
         else Some (kb, io1)) = Some r"
  obtain v io1 where v: "hal_port_in8 env PS2_STATUS_PORT io = (v, io1)" by force
  obtain sc io2 where sc: "hal_port_in8 env PS2_DATA_PORT io1 = (sc, io2)" by force
  obtain stop kb' where k: "raw_byte sc kb = (stop, kb')" by force
  then have g: "gained kb kb'" using raw_byte_gained [of kb sc] by simp
  show "gained kb (fst r)"
    using body g IH [of env kb' io2 r] by (auto simp: v sc k split: if_splits intro: gained_trans)
qed

lemma input_loop_gained:
  assumes "input_loop poll kb io = Some r"
  shows "gained kb (fst r)"
  using assms
  by (rule input_loop.raw_induct [where P = "\<lambda>poll kb io r. gained kb (fst r)", rotated])
     (auto simp: Let_def split: if_splits, blast intro: gained_trans [OF gained_push])

lemma poll_driver_gained: "poll_driver_loader env kb io = Some r \<Longrightarrow> gained kb (fst r)"
  by (auto simp: poll_driver_loader_def split: option.splits dest: input_loop_gained)

lemma process_byte_wf: "ps2_wf dev \<Longrightarrow> ps2_wf (ps2_process_byte b dev)"
  using pq.push_wf by (auto simp: ps2_process_byte_def Let_def) (auto simp: ps2_wf_def)

lemma poll_loop_wf:
  assumes "ps2_poll_loop env dev io = Some r"
  shows "ps2_wf dev \<longrightarrow> ps2_wf (fst r)"
  using assms
  by (rule ps2_poll_loop.raw_induct [where P = "\<lambda>env dev io r. ps2_wf dev \<longrightarrow> ps2_wf (fst r)", rotated])
     (auto simp: hal_port_in8_def Let_def split: if_splits, blast intro: process_byte_wf)

lemma ps2_poll_wf: "ps2_poll env dev io = Some r \<Longrightarrow> ps2_wf dev \<Longrightarrow> ps2_wf (fst r)"
  by (auto simp: ps2_poll_def split: if_splits dest: poll_loop_wf)

text \<open>Emptying the PS/2 ring queues its events with the modifiers of the device.\<close>

lemma get_key_keeps: "ps2_get_key dev = Some (e, dev') \<Longrightarrow> dev_mods dev' = dev_mods dev \<and> ps2_idle dev' = ps2_idle dev"
  by (auto simp: ps2_get_key_def dev_mods_def ps2_idle_def split: if_splits)

definition ps2_event :: "mods \<Rightarrow> ps2_key_event \<Rightarrow> keyboard_event" where
  "ps2_event m pe = \<lparr>k_scancode = p_scancode pe, k_ascii = p_ascii pe, k_pressed = p_pressed pe,
     k_modifiers = mod_mask (m_shift m) (m_ctrl m) (m_alt m) (m_caps m)\<rparr>"

lemma of_ps2_mods: "of_ps2 dev = ps2_event (dev_mods dev)"
  by (rule ext) (simp add: of_ps2_def ps2_event_def dev_mods_def)

lemma drain_ps2:
  assumes "ps2_wf dev"
  shows "\<exists>dev'. drain ps2_get_key (\<lambda>pe dev. kb_push (of_ps2 dev pe)) dev kb =
      Some (dev', fold (\<lambda>pe. kb_push (ps2_event (dev_mods dev) pe)) (ps2_items dev) kb) \<and>
    ps2_wf dev' \<and> ps2_items dev' = [] \<and> dev_mods dev' = dev_mods dev \<and> ps2_idle dev' = ps2_idle dev"
proof -
  let ?I = "\<lambda>d. dev_mods d = dev_mods dev \<and> ps2_idle d = ps2_idle dev"
  have keep: "?I d'" if "?I d" "ps2_get_key d = Some (e, d')" for d e d'
    using get_key_keeps [OF that(2)] that(1) by simp
  have body: "kb_push (of_ps2 d e) k = kb_push (ps2_event (dev_mods dev) e) k" if "?I d" for d e k
    using that by (simp add: of_ps2_mods)
  have "?I dev" by simp
  note drained = pq.drain_all [where I = ?I and f = "\<lambda>pe dev. kb_push (of_ps2 dev pe)"
      and g = "\<lambda>pe. kb_push (ps2_event (dev_mods dev) pe)" and s = dev and k = kb]
  show ?thesis by (rule drained [OF assms \<open>?I dev\<close>]) (fact keep, fact body)
qed

lemma set_ps2: "gained kb kb' \<Longrightarrow> ps2_wf dev \<Longrightarrow> gained kb (kb'\<lparr>g_ps2 := dev\<rparr>)"
  by (auto simp: gained_def kb_wf_def kb_items_def)

lemma set_hid: "gained kb kb' \<Longrightarrow> g_usb_hid kb \<noteq> None \<Longrightarrow> hid_wf hid \<Longrightarrow> gained kb (kb'\<lparr>g_usb_hid := Some hid\<rparr>)"
  by (auto simp: gained_def kb_wf_def kb_items_def)

lemma poll_ps2_gained:
  assumes "poll_ps2 env kb io = Some r" "kb_wf kb"
  shows "gained kb (fst r)"
proof (cases "g_ps2_active kb")
  case True
  then obtain dev p where d: "ps2_poll env (g_ps2 kb) io = Some (dev, p)"
    using assms by (auto simp: poll_ps2_def bind_eq_Some_conv)
  then have "ps2_wf dev" using ps2_poll_wf assms(2) by (fastforce simp: kb_wf_def)
  from drain_ps2 [OF this, of kb] assms(1) d True show ?thesis
    by (auto simp: poll_ps2_def intro!: set_ps2 gained_fold)
next
  case False
  then show ?thesis using assms by (auto simp: poll_ps2_def)
qed

lemma drain_hid:
  assumes "hid_wf hid"
  shows "\<exists>hid'. drain usb_hid_get_key (\<lambda>he _. kb_push (of_hid he)) hid kb =
      Some (hid', fold (\<lambda>he. kb_push (of_hid he)) (hid_keys hid) kb) \<and> hid_wf hid' \<and> hid_keys hid' = []"
  using hq.drain_all [OF assms, where I = "\<lambda>_. True" and f = "\<lambda>he _. kb_push (of_hid he)"
      and g = "\<lambda>he. kb_push (of_hid he)" and k = kb] by simp

lemma hid_poll_wf:
  assumes "hid_wf hid" "length (fst (snd x)) = 64"
  shows "hid_wf (snd (usb_hid_poll x hid))"
proof -
  have m: "hid_wf (hid_process_mouse r l hid)" for r l
    using mq.push_wf [OF assms(1)] assms(1) by (simp add: hid_process_mouse_def)
  have k: "hid_wf (hid_process_keyboard r l hid)" if "length r = 64" for r l
    using process_keyboard [OF assms(1), of l r] assms(1) that
    by (cases "l < 8") (simp_all add: hid_process_keyboard_def not_less)
  show ?thesis using assms m k by (cases x) (simp add: usb_hid_poll_def)
qed

text \<open>The reports of the host controller driver fill its 64-byte buffer.\<close>

definition reports_ok :: "kbd_env \<Rightarrow> bool" where
  "reports_ok env \<longleftrightarrow> (\<forall>k. length (fst (snd (kb_hid env k))) = 64)"

lemma poll_hid_gained:
  assumes "poll_usb_hid env kb io = Some r" "kb_wf kb" "reports_ok env"
  shows "gained kb (fst r)"
proof (cases "g_usb_hid_active kb \<and> g_usb_hid kb \<noteq> None")
  case True
  then obtain hid where h: "g_usb_hid kb = Some hid" "g_usb_hid_active kb" by auto
  let ?x = "kb_hid env (io_hid_polls io)"
  have "hid_wf (snd (usb_hid_poll ?x hid))"
    using hid_poll_wf [of hid ?x] assms(2,3) h by (simp add: reports_ok_def kb_wf_def)
  from drain_hid [OF this, of kb] assms(1) h show ?thesis
    by (auto simp: poll_usb_hid_def case_prod_beta intro!: set_hid gained_fold)
next
  case False
  then show ?thesis using assms by (auto simp: poll_usb_hid_def split: option.splits)
qed

lemma keyboard_poll_gained:
  assumes "keyboard_poll env kb io = Some (kb', io')" "kb_wf kb" "reports_ok env"
  shows "gained kb kb'"
proof (cases "g_initialized kb")
  case True
  with assms(1) obtain kb1 p kb2 io2 where
      1: "(if g_ps2_active kb then poll_ps2 (kb_ports env) kb (io_ports io)
           else if kb_arch env = HAL_ARCH_X86_64 then poll_raw_port60 (kb_ports env) kb (io_ports io)
           else Some (kb, io_ports io)) = Some (kb1, p)" and
      2: "(if g_usb_hid_active kb1 then poll_usb_hid env kb1 (io\<lparr>io_ports := p\<rparr>) else Some (kb1, io\<lparr>io_ports := p\<rparr>)) = Some (kb2, io2)" and
      3: "poll_driver_loader env kb2 io2 = Some (kb', io')"
    by (auto simp: keyboard_poll_def bind_eq_Some_conv Let_def)
  have g1: "gained kb kb1"
    using 1 poll_ps2_gained [OF _ assms(2)] poll_raw_gained by (fastforce split: if_splits)
  then have "kb_wf kb1" using assms(2) by (simp add: gained_def)
  then have "gained kb1 kb2" using 2 poll_hid_gained [OF _ _ assms(3)] by (fastforce split: if_splits)
  moreover have "gained kb2 kb'" using poll_driver_gained [OF 3] by simp
  ultimately show ?thesis using g1 gained_trans by blast
next
  case False
  then show ?thesis using assms(1) by (simp add: keyboard_poll_def)
qed

section \<open>Polling returns\<close>

text \<open>
  What the backends need in order to return: a controller whose output buffer gets empty again and again, a loaded
  input driver that again and again has nothing, and full report buffers.
\<close>

definition backends_settle :: "kbd_env \<Rightarrow> bool" where
  "backends_settle env \<longleftrightarrow> reports_ok env \<and> (\<forall>r. \<exists>n. kb_ports env PS2_STATUS_PORT (r + 2 * n) AND 1 = 0) \<and>
     (\<forall>ops poll. kb_input_poll env ops = Some poll \<longrightarrow> (\<forall>k. \<exists>n. poll (k + n) < 0))"

lemma poll_loop_returns:
  "env PS2_STATUS_PORT (port_reads io + 2 * n) AND 1 = 0 \<Longrightarrow> \<exists>r. ps2_poll_loop env dev io = Some r"
proof (induction n arbitrary: dev io)
  case 0
  then show ?case by (simp add: ps2_poll_loop.simps hal_port_in8_def)
next
  case (Suc n)
  have "env PS2_STATUS_PORT (port_reads (io\<lparr>port_reads := port_reads io + 2\<rparr>) + 2 * n) AND 1 = 0"
    using Suc.prems by (simp add: add.assoc)
  from Suc.IH [OF this] show ?case
    by (simp add: ps2_poll_loop.simps [of env dev io] hal_port_in8_def Let_def)
qed

lemma poll_raw_returns:
  "env PS2_STATUS_PORT (port_reads io + 2 * n) AND 1 = 0 \<Longrightarrow> \<exists>r. poll_raw_port60 env kb io = Some r"
proof (induction n arbitrary: kb io)
  case 0
  then show ?case by (simp add: poll_raw_port60.simps hal_port_in8_def)
next
  case (Suc n)
  have "env PS2_STATUS_PORT (port_reads (io\<lparr>port_reads := port_reads io + 2\<rparr>) + 2 * n) AND 1 = 0"
    using Suc.prems by (simp add: add.assoc)
  from Suc.IH [OF this] show ?case
    by (simp add: poll_raw_port60.simps [of env kb io] hal_port_in8_def Let_def case_prod_beta)
qed

lemma input_loop_returns: "poll (io_input_polls io + n) < 0 \<Longrightarrow> \<exists>r. input_loop poll kb io = Some r"
proof (induction n arbitrary: kb io)
  case 0
  then show ?case by (simp add: input_loop.simps Let_def)
next
  case (Suc n)
  have "poll (io_input_polls (io\<lparr>io_input_polls := io_input_polls io + 1\<rparr>) + n) < 0" using Suc.prems by simp
  from Suc.IH [OF this] show ?case by (simp add: input_loop.simps [of poll kb io] Let_def)
qed

lemma poll_ps2_returns:
  assumes "backends_settle env" "kb_wf kb"
  shows "\<exists>r. poll_ps2 (kb_ports env) kb p = Some r"
proof (cases "g_ps2_active kb")
  case True
  obtain n where "kb_ports env PS2_STATUS_PORT (port_reads p + 2 * n) AND 1 = 0"
    using assms(1) unfolding backends_settle_def by blast
  then obtain dev q where d: "ps2_poll (kb_ports env) (g_ps2 kb) p = Some (dev, q)"
    using poll_loop_returns [of "kb_ports env" p n "g_ps2 kb"] by (cases "p_initialized (g_ps2 kb)") (auto simp: ps2_poll_def)
  then have "ps2_wf dev" using ps2_poll_wf [OF d] assms(2) by (simp add: kb_wf_def)
  from drain_ps2 [OF this, of kb] d True show ?thesis by (auto simp: poll_ps2_def)
qed (simp add: poll_ps2_def)

lemma poll_hid_returns:
  assumes "backends_settle env" "kb_wf kb"
  shows "\<exists>r. poll_usb_hid env kb io = Some r"
proof (cases "g_usb_hid kb")
  case (Some hid)
  have "hid_wf (snd (usb_hid_poll (kb_hid env (io_hid_polls io)) hid))"
    using hid_poll_wf [of hid "kb_hid env (io_hid_polls io)"] assms Some
    by (simp add: backends_settle_def reports_ok_def kb_wf_def)
  from drain_hid [OF this, of kb] show ?thesis by (auto simp: poll_usb_hid_def Some case_prod_beta)
qed (simp add: poll_usb_hid_def)

lemma poll_driver_returns:
  assumes "backends_settle env"
  shows "\<exists>r. poll_driver_loader env kb io = Some r"
proof (cases "Option.bind (driver_get_input (kb_loader env)) (kb_input_poll env)")
  case (Some poll)
  then obtain ops where "kb_input_poll env ops = Some poll" by (auto simp: bind_eq_Some_conv)
  then obtain n where "poll (io_input_polls io + n) < 0" using assms unfolding backends_settle_def by blast
  from input_loop_returns [of poll io n kb, OF this] show ?thesis by (simp add: poll_driver_loader_def Some)
qed (simp add: poll_driver_loader_def)

lemma keyboard_poll_returns:
  assumes "backends_settle env" "kb_wf kb"
  shows "\<exists>kb' io'. keyboard_poll env kb io = Some (kb', io')"
proof (cases "g_initialized kb")
  case True
  have ok: "reports_ok env" using assms(1) by (simp add: backends_settle_def)
  obtain n where n: "kb_ports env PS2_STATUS_PORT (port_reads (io_ports io) + 2 * n) AND 1 = 0"
    using assms(1) unfolding backends_settle_def by blast
  obtain kb1 p where 1: "(if g_ps2_active kb then poll_ps2 (kb_ports env) kb (io_ports io)
           else if kb_arch env = HAL_ARCH_X86_64 then poll_raw_port60 (kb_ports env) kb (io_ports io)
           else Some (kb, io_ports io)) = Some (kb1, p)"
    using poll_ps2_returns [OF assms, of "io_ports io"] poll_raw_returns [of "kb_ports env" "io_ports io" n kb] n
    by (cases "g_ps2_active kb"; cases "kb_arch env = HAL_ARCH_X86_64") auto
  then have "kb_wf kb1"
    using poll_ps2_gained [OF _ assms(2)] poll_raw_gained assms(2) by (fastforce simp: gained_def split: if_splits)
  from poll_hid_returns [OF assms(1) this, of "io\<lparr>io_ports := p\<rparr>"] obtain kb2 io2 where
    2: "(if g_usb_hid_active kb1 then poll_usb_hid env kb1 (io\<lparr>io_ports := p\<rparr>) else Some (kb1, io\<lparr>io_ports := p\<rparr>)) = Some (kb2, io2)"
    by (cases "g_usb_hid_active kb1") auto
  from poll_driver_returns [OF assms(1), of kb2 io2] 1 2 True show ?thesis
    by (auto simp: keyboard_poll_def Let_def simp del: if_split)
qed (simp add: keyboard_poll_def)

section \<open>Characters for the shell\<close>

definition typed :: "keyboard_event \<Rightarrow> bool" where
  "typed e \<longleftrightarrow> k_pressed e \<and> k_ascii e \<noteq> 0"

text \<open>
  C26. When the backends settle, reading a character returns as soon as the ring holds the press of a key with
  a character: it returns the character of the first such event, discards only events before it, and leaves the
  later events queued in order.
\<close>

theorem keyboard_getchar_first:
  assumes "backends_settle env" "kb_wf kb"
    and "kb_items kb = pre @ e # post" "list_all (\<lambda>x. \<not> typed x) pre" "typed e"
  shows "\<exists>kb' io' new. keyboard_getchar env kb io = Some (k_ascii e, kb', io') \<and> kb_wf kb' \<and> kb_items kb' = post @ new"
proof -
  have ok: "reports_ok env" using assms(1) by (simp add: backends_settle_def)
  show ?thesis
    using assms(2-4)
  proof (induction pre arbitrary: kb io post)
    case Nil
    obtain kb1 io1 where p: "keyboard_poll env kb io = Some (kb1, io1)" using keyboard_poll_returns [OF assms(1)] Nil(1) by blast
    then obtain new where "kb_wf kb1" "kb_items kb1 = e # post @ new"
      using keyboard_poll_gained [OF p Nil(1) ok] Nil by (auto simp: gained_def)
    then obtain kb2 where "kb_pop kb1 = Some (e, kb2)" "kb_wf kb2" "kb_items kb2 = post @ new"
      using kq.pop_cons by metis
    then show ?case using p assms(5) by (auto simp: keyboard_getchar.simps [of env kb io] typed_def)
  next
    case (Cons x pre)
    obtain kb1 io1 where p: "keyboard_poll env kb io = Some (kb1, io1)" using keyboard_poll_returns [OF assms(1)] Cons.prems(1) by blast
    then obtain new where "kb_wf kb1" "kb_items kb1 = x # pre @ e # post @ new"
      using keyboard_poll_gained [OF p Cons.prems(1) ok] Cons.prems by (auto simp: gained_def)
    then obtain kb2 where k: "kb_pop kb1 = Some (x, kb2)" "kb_wf kb2" "kb_items kb2 = pre @ e # post @ new"
      using kq.pop_cons by metis
    have "keyboard_getchar env kb io = keyboard_getchar env kb2 io1"
      using p k(1) Cons.prems(3) by (auto simp add: keyboard_getchar.simps [of env kb io] typed_def)
    moreover obtain kb' io' more where "keyboard_getchar env kb2 io1 = Some (k_ascii e, kb', io')" "kb_wf kb'"
        "kb_items kb' = (post @ new) @ more"
      using Cons.IH [OF k(2,3), of io1] Cons.prems(3) by auto
    ultimately show ?case by auto
  qed
qed

definition kb_static :: keyboard where
  "kb_static = \<lparr>g_shift = False, g_ctrl = False, g_alt = False, g_capslock = False,
     g_buf = replicate KB_BUF_SIZE \<lparr>k_scancode = 0, k_ascii = 0, k_pressed = False, k_modifiers = 0\<rparr>,
     g_head = 0, g_tail = 0, g_ps2 = zero_ps2, g_ps2_active = False, g_usb_hid = None, g_usb_hid_active = False,
     g_initialized = False\<rparr>"

definition quiet_env :: kbd_env where
  "quiet_env = \<lparr>kb_arch = HAL_ARCH_AARCH64, kb_ports = (\<lambda>_ _. 0), kb_hid = (\<lambda>_. (HAL_ERROR, replicate 64 0, 0)),
     kb_loader = loader_init, kb_input_poll = (\<lambda>_. None)\<rparr>"

definition quiet_io :: kbd_io where
  "quiet_io = \<lparr>io_ports = no_ports, io_hid_polls = 0, io_input_polls = 0\<rparr>"

definition key_up_a :: keyboard_event where
  "key_up_a = \<lparr>k_scancode = 0x1E, k_ascii = 0x61, k_pressed = False, k_modifiers = 0\<rparr>"

definition key_down_b :: keyboard_event where
  "key_down_b = \<lparr>k_scancode = 0x30, k_ascii = 0x62, k_pressed = True, k_modifiers = 0\<rparr>"

lemma kb_static_wf: "kb_wf kb_static" "kb_items kb_static = []"
  by (simp_all add: kb_wf_def kb_static_def kb_items_def ring_items_def ps2_wf_def zero_ps2_def KB_BUF_SIZE_def PS2_KEY_BUF_SIZE_def)

lemma quiet_settles: "backends_settle quiet_env"
  by (simp add: backends_settle_def reports_ok_def quiet_env_def)

text \<open>A released, then b pressed: the call returns b.\<close>

theorem keyboard_getchar_first_witness:
  "\<exists>kb' io' new. keyboard_getchar quiet_env (kb_push key_down_b (kb_push key_up_a kb_static)) quiet_io = Some (0x62, kb', io') \<and>
     kb_wf kb' \<and> kb_items kb' = new"
proof -
  let ?kb = "kb_push key_down_b (kb_push key_up_a kb_static)"
  have "kb_wf ?kb" "kb_items ?kb = [key_up_a] @ key_down_b # []"
    using kq.push_wf kq.push_items kb_static_wf by simp_all
  from keyboard_getchar_first [OF quiet_settles this, of quiet_io] show ?thesis
    by (auto simp: typed_def key_up_a_def key_down_b_def)
qed

section \<open>Delivery from the PS/2 driver\<close>

text \<open>
  C23. A poll with an active PS/2 driver moves every event of the key strokes the controller offers through both
  rings into the keyboard's own, in order: first what the driver had queued, then the decoded strokes, until a
  ring is full. The modifier mask of every event is the one after the last stroke, not the one of its moment.
\<close>

theorem keyboard_poll_delivers:
  assumes "kb_wf kb" "g_initialized kb" "g_ps2_active kb" "\<not> g_usb_hid_active kb" "ps2_idle (g_ps2 kb)"
    and "driver_get_input (kb_loader env) = None" "list_all plain_stroke ss"
    and "offers (kb_ports env) (port_reads (io_ports io)) (concat (map stroke_bytes ss))"
  defines "m \<equiv> dev_mods (g_ps2 kb)"
  shows "\<exists>kb' io'. keyboard_poll env kb io = Some (kb', io') \<and> kb_wf kb' \<and> ps2_items (g_ps2 kb') = [] \<and>
    kb_items kb' = take 63 (kb_items kb @
      map (ps2_event (fold stroke_mods ss m)) (take 63 (ps2_items (g_ps2 kb) @ stroke_events m ss)))"
proof -
  let ?d = "fold ps2_process_byte (concat (map stroke_bytes ss)) (g_ps2 kb)"
  have wf: "ps2_wf (g_ps2 kb)" "p_initialized (g_ps2 kb)" using assms(1,5) by (simp_all add: kb_wf_def ps2_idle_def)
  note p = poll_bytes [OF wf(2) assms(8)]
  have d: "ps2_wf ?d" "dev_mods ?d = fold stroke_mods ss m"
      "ps2_items ?d = take 63 (ps2_items (g_ps2 kb) @ stroke_events m ss)"
    using process_strokes [OF assms(5) wf(1) assms(7)] by (simp_all add: Let_def m_def)
  let ?es = "map (ps2_event (fold stroke_mods ss m)) (ps2_items ?d)"
  obtain dev' where dev': "drain ps2_get_key (\<lambda>pe dev. kb_push (of_ps2 dev pe)) ?d kb = Some (dev', fold kb_push ?es kb)"
      "ps2_wf dev'" "ps2_items dev' = []"
    using drain_ps2 [OF d(1), of kb] unfolding d(2) by (auto simp: fold_map comp_def)
  have k: "kb_wf (fold kb_push ?es kb)" "kb_items (fold kb_push ?es kb) = take 63 (kb_items kb @ ?es)"
    using kq.push_all [OF assms(1), of ?es] by simp_all
  have h: "\<not> g_usb_hid_active (fold kb_push es kb)" for es
    using assms(4) gained_fold [of kb "\<lambda>x. x" es] by (simp add: gained_def)
  have "keyboard_poll env kb io = Some ((fold kb_push ?es kb)\<lparr>g_ps2 := dev'\<rparr>,
      io\<lparr>io_ports := (io_ports io)\<lparr>port_reads := port_reads (io_ports io) + 2 * length (concat (map stroke_bytes ss)) + 1\<rparr>\<rparr>)"
    using assms(2,3,6) p dev'(1) h [of ?es] by (simp add: keyboard_poll_def poll_ps2_def poll_driver_loader_def Let_def)
  moreover have "kb_wf ((fold kb_push ?es kb)\<lparr>g_ps2 := dev'\<rparr>)" "kb_items ((fold kb_push ?es kb)\<lparr>g_ps2 := dev'\<rparr>) = take 63 (kb_items kb @ ?es)"
    using k dev'(2) by (simp_all add: kb_wf_def kb_items_def)
  ultimately show ?thesis using dev'(3) unfolding d(3) by simp
qed

text \<open>Shift down, A down, shift up, B down: the shifted A carries the mask 0 of the end.\<close>

theorem keyboard_poll_delivers_witness:
  "\<exists>kb' io'. keyboard_poll (quiet_env\<lparr>kb_ports := list_ports [0x12, 0x1C, 0xF0, 0x12, 0x32]\<rparr>)
      (kb_static\<lparr>g_initialized := True, g_ps2_active := True, g_ps2 := fresh_ps2\<rparr>) quiet_io = Some (kb', io') \<and> kb_wf kb' \<and>
    kb_items kb' = [\<lparr>k_scancode = 0x1C, k_ascii = 0x41, k_pressed = True, k_modifiers = 0\<rparr>,
                    \<lparr>k_scancode = 0x32, k_ascii = 0x62, k_pressed = True, k_modifiers = 0\<rparr>]"
proof -
  let ?env = "quiet_env\<lparr>kb_ports := list_ports [0x12, 0x1C, 0xF0, 0x12, 0x32]\<rparr>"
  let ?kb = "kb_static\<lparr>g_initialized := True, g_ps2_active := True, g_ps2 := fresh_ps2\<rparr>"
  let ?ss = "[Stroke False True 0x12, Stroke False True 0x1C, Stroke False False 0x12, Stroke False True 0x32]"
  have f: "ps2_wf fresh_ps2" "ps2_idle fresh_ps2" "ps2_items fresh_ps2 = []"
    by (simp_all add: ps2_wf_def ps2_idle_def ps2_items_def ring_items_def fresh_ps2_def)
  have k: "kb_wf ?kb" "kb_items ?kb = []"
    using kb_static_wf f(1) by (simp_all add: kb_wf_def kb_items_def)
  have o: "offers (kb_ports ?env) (port_reads (io_ports quiet_io)) (concat (map stroke_bytes ?ss))"
    by code_simp
  have e: "map (ps2_event (fold stroke_mods ?ss (dev_mods fresh_ps2))) (stroke_events (dev_mods fresh_ps2) ?ss) =
      [\<lparr>k_scancode = 0x1C, k_ascii = 0x41, k_pressed = True, k_modifiers = 0\<rparr>,
       \<lparr>k_scancode = 0x32, k_ascii = 0x62, k_pressed = True, k_modifiers = 0\<rparr>]"
    by code_simp
  have l: "length (stroke_events (dev_mods fresh_ps2) ?ss) = 2" using arg_cong [OF e, of length] by simp
  have d: "driver_get_input (kb_loader ?env) = None"
    by (simp add: quiet_env_def driver_get_input_def driver_find_def loader_init_def)
  have p: "list_all plain_stroke ?ss" by (simp add: plain_stroke_def)
  have g: "g_initialized ?kb" "g_ps2_active ?kb" "\<not> g_usb_hid_active ?kb" "ps2_idle (g_ps2 ?kb)"
    using f by (simp_all add: kb_static_def)
  obtain kb' io' where "keyboard_poll ?env ?kb quiet_io = Some (kb', io')" "kb_wf kb'"
      "kb_items kb' = take 63 (map (ps2_event (fold stroke_mods ?ss (dev_mods fresh_ps2)))
        (take 63 (stroke_events (dev_mods fresh_ps2) ?ss)))"
    using keyboard_poll_delivers [OF k(1) g d p o] k(2) f(3) by auto
  then show ?thesis using e l by simp
qed

section \<open>Every state the kernel reaches\<close>

lemma self_tests_wf: "ps2_wf dev \<Longrightarrow> ps2_wf (fst (snd (ps2_self_tests env c dev io)))"
  by (cases "ps2_self_tests env c dev io") (auto simp: ps2_wf_def dest!: self_tests_outcome)

lemma ps2_wf_update [simp]:
  "ps2_wf (dev\<lparr>p_initialized := b\<rparr>) = ps2_wf dev" "ps2_wf dev \<Longrightarrow> ps2_wf (ps2_reset_state dev)"
  by (simp_all add: ps2_wf_def ps2_reset_state_def)

lemma ps2_init_wf: "ps2_init arch env dev io = Some (rc, dev', io') \<Longrightarrow> ps2_wf dev \<Longrightarrow> ps2_wf dev'"
  using self_tests_wf [of "ps2_reset_state dev" env]
  by (auto simp: ps2_init_def Let_def case_prod_beta split: if_splits option.splits) (metis fst_conv snd_conv ps2_wf_update(2))

text \<open>The calls of the kernel, with whatever the hardware and the loaded drivers do in between.\<close>

inductive kb_reachable :: "keyboard \<Rightarrow> bool" where
  kb_boot: "kb_reachable kb_static"
| kb_init: "kb_reachable kb \<Longrightarrow> keyboard_init env kb io = Some (rc, kb', io') \<Longrightarrow> kb_reachable kb'"
| kb_poll: "kb_reachable kb \<Longrightarrow> reports_ok env \<Longrightarrow> keyboard_poll env kb io = Some (kb', io') \<Longrightarrow> kb_reachable kb'"
| kb_get: "kb_reachable kb \<Longrightarrow> reports_ok env \<Longrightarrow>
    keyboard_get_event env dest kb io = Some (res, kb', io') \<Longrightarrow> kb_reachable kb'"
| kb_getchar: "kb_reachable kb \<Longrightarrow> reports_ok env \<Longrightarrow>
    keyboard_getchar env kb io = Some (c, kb', io') \<Longrightarrow> kb_reachable kb'"

definition kb_inv :: "keyboard \<Rightarrow> bool" where
  "kb_inv kb \<longleftrightarrow> kb_wf kb \<and> \<not> g_usb_hid_active kb \<and> g_usb_hid kb = None"

lemma poll_inv: "keyboard_poll env kb io = Some (kb', io') \<Longrightarrow> reports_ok env \<Longrightarrow> kb_inv kb \<Longrightarrow> kb_inv kb'"
  using keyboard_poll_gained by (fastforce simp: kb_inv_def gained_def)

lemma pop_inv: "kb_pop kb = Some (e, kb') \<Longrightarrow> kb_inv kb \<Longrightarrow> kb_inv kb'"
  using kq.pop_first [of kb e kb'] by (auto simp: kb_inv_def kb_pop_def split: if_splits)

lemma getchar_inv:
  assumes "keyboard_getchar env kb io = Some r"
  shows "reports_ok env \<longrightarrow> kb_inv kb \<longrightarrow> kb_inv (fst (snd r))"
  using assms
proof (rule keyboard_getchar.raw_induct
    [where P = "\<lambda>env kb io r. reports_ok env \<longrightarrow> kb_inv kb \<longrightarrow> kb_inv (fst (snd r))", rotated])
  fix f env kb io r
  assume IH: "\<And>env kb io r. f env kb io = Some r \<Longrightarrow> reports_ok env \<longrightarrow> kb_inv kb \<longrightarrow> kb_inv (fst (snd r))"
    and body: "Option.bind (keyboard_poll env kb io) (\<lambda>(kb, io).
       case kb_pop kb of
         Some (e, kb) \<Rightarrow> if k_pressed e \<and> k_ascii e \<noteq> 0 then Some (k_ascii e, kb, io) else f env kb io
       | None \<Rightarrow> f env kb io) = Some r"
  then obtain kb1 io1 where p: "keyboard_poll env kb io = Some (kb1, io1)" by (auto simp: bind_eq_Some_conv)
  show "reports_ok env \<longrightarrow> kb_inv kb \<longrightarrow> kb_inv (fst (snd r))"
    using body IH [of env _ io1 r] poll_inv [OF p] pop_inv [of kb1]
    by (cases "kb_pop kb1") (auto simp: p split: if_splits)
qed

lemma zero_ps2_wf: "ps2_wf zero_ps2"
  by (simp add: ps2_wf_def zero_ps2_def PS2_KEY_BUF_SIZE_def)

lemma init_inv: "keyboard_init env kb io = Some (rc, kb', io') \<Longrightarrow> kb_inv kb \<Longrightarrow> kb_inv kb'"
  using ps2_init_wf [OF _ zero_ps2_wf]
  by (auto simp: keyboard_init_def Let_def bind_eq_Some_conv kb_inv_def kb_wf_def split: if_splits)

lemma reachable_inv: "kb_reachable kb \<Longrightarrow> kb_inv kb"
proof (induction rule: kb_reachable.induct)
  case kb_boot
  then show ?case using kb_static_wf by (simp add: kb_inv_def) (simp add: kb_static_def)
next
  case (kb_get kb env dest io res kb' io')
  then show ?case
    by (auto simp: keyboard_get_event_def bind_eq_Some_conv split: if_splits option.splits prod.splits
        dest: poll_inv) (blast dest: poll_inv intro: pop_inv)
next
  case (kb_getchar kb env io c kb' io')
  then show ?case using getchar_inv [OF kb_getchar(3)] by simp
qed (auto intro: init_inv poll_inv)

lemma buffered_items:
  assumes "kb_wf kb"
  shows "unat (keyboard_buffered kb) = length (kb_items kb)"
proof -
  have w: "unat (g_head kb) < 64" "unat (g_tail kb) < 64" using assms by (simp_all add: kb_wf_def)
  have "unat (g_head kb - g_tail kb) mod 64 = (unat (g_head kb) + 64 - unat (g_tail kb)) mod 64"
  proof (cases "unat (g_tail kb) \<le> unat (g_head kb)")
    case True
    then have "unat (g_head kb - g_tail kb) = unat (g_head kb) - unat (g_tail kb)"
      by (simp add: unat_sub word_le_nat_alt)
    then show ?thesis using True w by (simp add: mod_if)
  next
    case False
    then have "unat (g_head kb - g_tail kb) = 2 ^ 32 + unat (g_head kb) - unat (g_tail kb)"
      using w by (simp add: unat_sub_if' word_le_nat_alt)
    moreover have "2 ^ 32 + unat (g_head kb) - unat (g_tail kb) =
        (unat (g_head kb) + 64 - unat (g_tail kb)) + 64 * 67108863"
      using w False by simp
    ultimately show ?thesis by (metis mod_mult_self2)
  qed
  then show ?thesis
    by (simp add: keyboard_buffered_def KB_BUF_MASK_def unat_mask63 kb_items_def ring_items_def)
qed

text \<open>
  C27. In every state the kernel's calls lead to, the keyboard's data are well-formed: both ring indices of the
  keyboard and of the PS/2 driver lie inside their arrays, so every access of the code is in bounds, and the
  reported number of events is the number queued, at most 63. No call ever attaches a USB HID device, so the
  backend for it never runs.
\<close>

theorem keyboard_well_formed:
  assumes "kb_reachable kb"
  shows "unat (g_head kb) < length (g_buf kb) \<and> unat (g_tail kb) < length (g_buf kb) \<and> ps2_wf (g_ps2 kb) \<and>
    unat (keyboard_buffered kb) = length (kb_items kb) \<and> length (kb_items kb) \<le> 63 \<and>
    (keyboard_available kb = 1 \<longleftrightarrow> kb_items kb \<noteq> []) \<and> \<not> g_usb_hid_active kb \<and> g_usb_hid kb = None"
proof -
  have i: "kb_wf kb" "\<not> g_usb_hid_active kb" "g_usb_hid kb = None"
    using reachable_inv [OF assms] by (simp_all add: kb_inv_def)
  have "keyboard_available kb = 1 \<longleftrightarrow> kb_items kb \<noteq> []"
    using kq.pop_empty [OF i(1)] by (auto simp: keyboard_available_def kb_pop_def split: if_splits)
  then show ?thesis
    using i buffered_items [OF i(1)] kq.within_cap [OF i(1)] by (simp add: kb_wf_def)
qed

theorem keyboard_well_formed_witness:
  "unat (g_head kb_static) < length (g_buf kb_static) \<and> unat (keyboard_buffered kb_static) = 0"
  using keyboard_well_formed [OF kb_boot] kb_static_wf by simp

section \<open>The layouts\<close>

text \<open>
  The three keyboards have one layout: the raw-port table and the PS/2 table pair the same unshifted and
  shifted characters, and the USB HID table contains all of these pairs.
\<close>

theorem layouts_agree:
  "set (zip sc1_normal sc1_shifted) = set (zip sc2_normal sc2_shifted) \<and>
   set (zip sc1_normal sc1_shifted) \<subseteq> set (zip hid_keymap_normal hid_keymap_shifted)"
  by code_simp

end
