(* ===== verification/Net.thy ===== *)
theory Net
  imports Lib_String Checksum "HOL-Library.Monad_Syntax"
begin

text \<open>
  What the network code shares: the device and the clock as parameters, numbered by call (what the \<open>k\<close>-th
  reading of the clock and the \<open>k\<close>-th receive of a run return), the frames a run has sent, network byte order
  inside frames, and the Ethernet, IPv4 and UDP headers that \<^verbatim>\<open>net/dhcp.c\<close>, \<^verbatim>\<open>net/dns.c\<close> and
  \<^verbatim>\<open>net/tcp.c\<close> build and check.
\<close>

section \<open>Device and clock\<close>

text \<open>
  The active network driver: which of its functions are present (none when there is no driver), its address, the
  readings of \<^verbatim>\<open>hal_timer_ns\<close> and the frames \<^verbatim>\<open>net_rx\<close> delivers; an empty frame stands for a result
  that is not positive.
\<close>

record netdev =
  has_tx :: bool
  has_rx :: bool
  has_get_mac :: bool
  dev_mac :: bytes
  clock_ns :: "nat \<Rightarrow> u64"
  rx_frame :: "nat \<Rightarrow> bytes"

record nic =
  ticks :: nat
  polls :: nat
  sent :: "bytes list"

definition hal_timer_ns :: "netdev \<Rightarrow> nic \<Rightarrow> u64 \<times> nic" where
  "hal_timer_ns dev s = (clock_ns dev (ticks s), s\<lparr>ticks := ticks s + 1\<rparr>)"

definition hal_timer_ms :: "netdev \<Rightarrow> nic \<Rightarrow> u64 \<times> nic" where
  "hal_timer_ms dev s = (let (ns, s) = hal_timer_ns dev s in (ns div 1000000, s))"

definition net_rx :: "netdev \<Rightarrow> nic \<Rightarrow> bytes \<times> nic" where
  "net_rx dev s = (rx_frame dev (polls s), s\<lparr>polls := polls s + 1\<rparr>)"

definition net_tx :: "bytes \<Rightarrow> nic \<Rightarrow> nic" where
  "net_tx frame s = s\<lparr>sent := sent s @ [frame]\<rparr>"

definition clock_ms :: "netdev \<Rightarrow> nat \<Rightarrow> u64" where
  "clock_ms dev k = clock_ns dev k div 1000000"

lemma timer_ms_eq: "hal_timer_ms dev s = (clock_ms dev (ticks s), s\<lparr>ticks := ticks s + 1\<rparr>)"
  by (simp add: hal_timer_ms_def hal_timer_ns_def clock_ms_def)

section \<open>Byte order in frames\<close>

definition be16 :: "nat \<Rightarrow> bytes \<Rightarrow> u16" where
  "be16 off bs = ntohs (le16 off bs)"

definition be32 :: "nat \<Rightarrow> bytes \<Rightarrow> u32" where
  "be32 off bs = ntohl (le32 off bs)"

definition put_be16 :: "u16 \<Rightarrow> bytes" where
  "put_be16 v = put16 (htons v)"

definition put_be32 :: "u32 \<Rightarrow> bytes" where
  "put_be32 v = put32 (htonl v)"

lemma length_put_be [simp]: "length (put_be16 v) = 2" "length (put_be32 w) = 4"
  by (simp_all add: put_be16_def put_be32_def)

lemma be_at_start [simp]:
  "be16 0 (put_be16 v @ bs) = v" "be32 0 (put_be32 w @ bs) = w"
  by (simp_all add: be16_def be32_def le16_def le32_def put_be16_def put_be32_def slice_def le_val_put16 le_val_put32)

lemma be_skip:
  "length xs \<le> off \<Longrightarrow> be16 off (xs @ bs) = be16 (off - length xs) bs"
  "length xs \<le> off \<Longrightarrow> be32 off (xs @ bs) = be32 (off - length xs) bs"
  by (simp_all add: be16_def be32_def le16_def le32_def slice_append_right)

lemma be_prefix:
  "off + 2 \<le> length xs \<Longrightarrow> be16 off (xs @ bs) = be16 off xs"
  "off + 4 \<le> length xs \<Longrightarrow> be32 off (xs @ bs) = be32 off xs"
  by (simp_all add: be16_def be32_def le16_def le32_def slice_append_left)

section \<open>Headers\<close>

text \<open>The Ethernet and IPv4 part of \<^verbatim>\<open>net_header_t\<close> and \<^verbatim>\<open>tcp_frame_t\<close>; the values are those of the host.\<close>

record ip_header =
  eth_dst :: bytes
  eth_src :: bytes
  ip_len :: u16
  ip_id :: u16
  ip_frag :: u16
  ip_proto :: u8
  ip_src :: u32
  ip_dst :: u32

definition ip_fields :: "ip_header \<Rightarrow> bytes \<Rightarrow> bytes" where
  "ip_fields h ck = [0x45, 0] @ put_be16 (ip_len h) @ put_be16 (ip_id h) @ put_be16 (ip_frag h) @ [64, ip_proto h] @
     ck @ put_be32 (ip_src h) @ put_be32 (ip_dst h)"

text \<open>The header with its checksum filled in.\<close>

definition ip_bytes :: "ip_header \<Rightarrow> bytes" where
  "ip_bytes h = ip_fields h (put16 (ip_checksum (ip_fields h [0, 0])))"

definition eth_bytes :: "ip_header \<Rightarrow> bytes" where
  "eth_bytes h = eth_dst h @ eth_src h @ put_be16 0x0800"

definition udp_bytes :: "u16 \<Rightarrow> u16 \<Rightarrow> u16 \<Rightarrow> bytes" where
  "udp_bytes src dst len = put_be16 src @ put_be16 dst @ put_be16 len @ [0, 0]"

text \<open>A frame is padded with zeros to the Ethernet minimum of 60 bytes.\<close>

definition pad60 :: "bytes \<Rightarrow> bytes" where
  "pad60 frame = frame @ replicate (60 - length frame) 0"

definition macs_ok :: "ip_header \<Rightarrow> bool" where
  "macs_ok h \<longleftrightarrow> length (eth_dst h) = 6 \<and> length (eth_src h) = 6"

lemma length_ip_fields [simp]: "length (ip_fields h ck) = 18 + length ck"
  by (simp add: ip_fields_def)

lemma length_ip_bytes [simp]: "length (ip_bytes h) = 20"
  by (simp add: ip_bytes_def)

lemma length_eth_bytes [simp]: "macs_ok h \<Longrightarrow> length (eth_bytes h) = 14"
  by (simp add: eth_bytes_def macs_ok_def)

lemma length_udp_bytes [simp]: "length (udp_bytes s d l) = 8"
  by (simp add: udp_bytes_def)

lemma ip_header_verifies: "ip_checksum (ip_bytes h) = 0"
proof -
  let ?pre = "[0x45, 0] @ put_be16 (ip_len h) @ put_be16 (ip_id h) @ put_be16 (ip_frag h) @ [64, ip_proto h]"
  let ?post = "put_be32 (ip_src h) @ put_be32 (ip_dst h)"
  have f: "ip_fields h ck = ?pre @ ck @ ?post" for ck by (simp add: ip_fields_def)
  show ?thesis unfolding ip_bytes_def f by (rule ip_checksum_verifies) simp_all
qed

text \<open>Where a receiver finds the fields.\<close>

lemma ip_bytes_fields:
  "be16 2 (ip_bytes h) = ip_len h" "ip_bytes h ! 9 = ip_proto h" "ip_bytes h ! 0 = 0x45"
  "be32 12 (ip_bytes h) = ip_src h" "be32 16 (ip_bytes h) = ip_dst h"
proof -
  show "be16 2 (ip_bytes h) = ip_len h" "ip_bytes h ! 0 = 0x45"
    using be_skip(1) [of "[0x45, 0]" 2] by (simp_all add: ip_bytes_def ip_fields_def)
  show "ip_bytes h ! 9 = ip_proto h" by (simp add: ip_bytes_def ip_fields_def nth_append)
  let ?ck = "put16 (ip_checksum (ip_fields h [0, 0]))"
  have e: "ip_bytes h = ([0x45, 0] @ put_be16 (ip_len h) @ put_be16 (ip_id h) @ put_be16 (ip_frag h) @ [64, ip_proto h] @ ?ck) @
      put_be32 (ip_src h) @ put_be32 (ip_dst h)" by (simp add: ip_bytes_def ip_fields_def)
  have "be32 4 (put_be32 (ip_src h) @ put_be32 (ip_dst h)) = ip_dst h"
    using be_skip(2) [of "put_be32 (ip_src h)" 4 "put_be32 (ip_dst h)"] be_at_start(2) [of "ip_dst h" "[]"] by simp
  then show "be32 12 (ip_bytes h) = ip_src h" "be32 16 (ip_bytes h) = ip_dst h"
    unfolding e by (subst be_skip(2); simp)+
qed

lemma frame_fields:
  assumes "macs_ok h"
  shows "be16 12 (eth_bytes h @ bs) = 0x0800"
    and "be16 16 (eth_bytes h @ ip_bytes h @ bs) = ip_len h"
    and "(eth_bytes h @ ip_bytes h @ bs) ! 23 = ip_proto h"
    and "(eth_bytes h @ ip_bytes h @ bs) ! 14 = 0x45"
    and "be32 26 (eth_bytes h @ ip_bytes h @ bs) = ip_src h"
    and "be32 30 (eth_bytes h @ ip_bytes h @ bs) = ip_dst h"
proof -
  have l: "length (eth_bytes h) = 14" using assms by simp
  have "be16 12 ((eth_dst h @ eth_src h) @ put_be16 0x0800 @ bs) = 0x0800"
    using assms be_skip(1) [of "eth_dst h @ eth_src h" 12] by (simp add: macs_ok_def)
  then show "be16 12 (eth_bytes h @ bs) = 0x0800" by (simp add: eth_bytes_def)
  show "be16 16 (eth_bytes h @ ip_bytes h @ bs) = ip_len h"
    using be_skip(1) [of "eth_bytes h" 16] be_prefix(1) [of 2 "ip_bytes h" bs] ip_bytes_fields [of h] l by simp
  show "(eth_bytes h @ ip_bytes h @ bs) ! 23 = ip_proto h" "(eth_bytes h @ ip_bytes h @ bs) ! 14 = 0x45"
    using ip_bytes_fields [of h] l by (simp_all add: nth_append)
  show "be32 26 (eth_bytes h @ ip_bytes h @ bs) = ip_src h"
    using be_skip(2) [of "eth_bytes h" 26] be_prefix(2) [of 12 "ip_bytes h" bs] ip_bytes_fields [of h] l by simp
  show "be32 30 (eth_bytes h @ ip_bytes h @ bs) = ip_dst h"
    using be_skip(2) [of "eth_bytes h" 30] be_prefix(2) [of 16 "ip_bytes h" bs] ip_bytes_fields [of h] l by simp
qed

end
