(* ===== verification/Dhcp.thy ===== *)
theory Dhcp
  imports Net
begin

text \<open>
  The DHCP client, \<^verbatim>\<open>net/dhcp.c\<close>: construction of the DISCOVER and REQUEST messages, the broadcast frames
  that carry them, reception with its checks, the option parser and the whole exchange. A message is the 552 bytes
  of \<^verbatim>\<open>dhcp_packet_t\<close>, so a reply shorter than the structure leaves the older bytes behind it. A copy past the
  structure and a read past the options are faults of their own.
\<close>

section \<open>Messages\<close>

record dhcp_lease =
  client_ip :: u32
  server_ip :: u32
  gateway :: u32
  subnet_mask :: u32
  dns_server :: u32
  lease_time :: u32

definition zero_lease :: dhcp_lease where
  "zero_lease = \<lparr>client_ip = 0, server_ip = 0, gateway = 0, subnet_mask = 0, dns_server = 0, lease_time = 0\<rparr>"

abbreviation DHCP_DISCOVER :: u8 where "DHCP_DISCOVER \<equiv> 1"
abbreviation DHCP_OFFER :: u8 where "DHCP_OFFER \<equiv> 2"
abbreviation DHCP_REQUEST :: u8 where "DHCP_REQUEST \<equiv> 3"
abbreviation DHCP_ACK :: u8 where "DHCP_ACK \<equiv> 5"

definition DHCP_MAGIC_COOKIE :: u32 where
  "DHCP_MAGIC_COOKIE = 0x63825363"

text \<open>The 240 bytes before the options, and the options a message carries.\<close>

definition dhcp_fixed :: "bytes \<Rightarrow> u32 \<Rightarrow> bytes" where
  "dhcp_fixed mac xid = [1, 1, 6, 0] @ put_be32 xid @ put16 0 @ put_be16 0x8000 @ put32 0 @ put32 0 @ put32 0 @ put32 0 @
     (mac @ replicate 10 0) @ replicate 64 0 @ replicate 128 0 @ put_be32 DHCP_MAGIC_COOKIE"

definition dhcp_options :: "u8 \<Rightarrow> u32 \<Rightarrow> u32 \<Rightarrow> bytes" where
  "dhcp_options msg_type rip sid =
     [53, 1, msg_type] @
     (if msg_type = DHCP_REQUEST then [50, 4] @ put_be32 rip @ [54, 4] @ put_be32 sid else []) @
     [55, 3, 1, 3, 6] @ [12, 7, 0x61, 0x6C, 0x6A, 0x65, 0x66, 0x72, 0x61] @ [255]"

definition build_dhcp_packet :: "bytes \<Rightarrow> u8 \<Rightarrow> u32 \<Rightarrow> u32 \<Rightarrow> u32 \<Rightarrow> bytes \<times> nat" where
  "build_dhcp_packet mac msg_type xid rip sid =
     (let opts = dhcp_options msg_type rip sid
      in (dhcp_fixed mac xid @ opts @ replicate (312 - length opts) 0, 240 + length opts))"

definition dhcp_header :: "bytes \<Rightarrow> nat \<Rightarrow> ip_header" where
  "dhcp_header mac pkt_len = \<lparr>eth_dst = replicate 6 0xFF, eth_src = mac, ip_len = 20 + (8 + word_of_nat pkt_len), ip_id = 1,
     ip_frag = 0, ip_proto = 17, ip_src = 0, ip_dst = 0xFFFFFFFF\<rparr>"

definition send_dhcp :: "netdev \<Rightarrow> bytes \<Rightarrow> bytes \<Rightarrow> nat \<Rightarrow> nic \<Rightarrow> nic" where
  "send_dhcp dev mac pkt pkt_len s =
     (if \<not> has_tx dev then s
      else let h = dhcp_header mac pkt_len
           in net_tx (pad60 (eth_bytes h @ ip_bytes h @ udp_bytes 68 67 (8 + word_of_nat pkt_len) @ take pkt_len pkt)) s)"

section \<open>Options\<close>

text \<open>One option at \<open>i\<close>, after its code and length; a read past the 312 bytes is \<open>None\<close>.\<close>

definition opt32 :: "bytes \<Rightarrow> nat \<Rightarrow> u32 option" where
  "opt32 opt i = (if i + 4 \<le> length opt then Some (be32 i opt) else None)"

definition dhcp_option :: "bytes \<Rightarrow> nat \<Rightarrow> u8 \<Rightarrow> u8 \<Rightarrow> u8 \<times> dhcp_lease \<Rightarrow> (u8 \<times> dhcp_lease) option" where
  "dhcp_option opt i code len = (\<lambda>(msg_type, lease).
     if code = 53 then do { v \<leftarrow> byte_at opt i; Some (v, lease) }
     else if code = 1 \<and> 4 \<le> len then do { v \<leftarrow> opt32 opt i; Some (msg_type, lease\<lparr>subnet_mask := v\<rparr>) }
     else if code = 3 \<and> 4 \<le> len then do { v \<leftarrow> opt32 opt i; Some (msg_type, lease\<lparr>gateway := v\<rparr>) }
     else if code = 6 \<and> 4 \<le> len then do { v \<leftarrow> opt32 opt i; Some (msg_type, lease\<lparr>dns_server := v\<rparr>) }
     else if code = 51 \<and> 4 \<le> len then do { v \<leftarrow> opt32 opt i; Some (msg_type, lease\<lparr>lease_time := v\<rparr>) }
     else if code = 54 \<and> 4 \<le> len then do { v \<leftarrow> opt32 opt i; Some (msg_type, lease\<lparr>server_ip := v\<rparr>) }
     else Some (msg_type, lease))"

function parse_loop :: "bytes \<Rightarrow> nat \<Rightarrow> u8 \<times> dhcp_lease \<Rightarrow> (u8 \<times> dhcp_lease) option" where
  "parse_loop opt i r =
     (if i < 312 then
        do { code \<leftarrow> byte_at opt i;
             if code = 255 then Some r
             else if code = 0 then parse_loop opt (i + 1) r
             else do { len \<leftarrow> byte_at opt (i + 1);
                       r \<leftarrow> dhcp_option opt (i + 2) code len r;
                       parse_loop opt (i + 2 + unat len) r } }
      else Some r)"
  by pat_completeness auto
termination
  by (relation "measure (\<lambda>(opt, i, r). 312 - i)") auto

declare parse_loop.simps [simp del]

definition parse_dhcp_options :: "bytes \<Rightarrow> dhcp_lease \<Rightarrow> (u8 \<times> dhcp_lease) option" where
  "parse_dhcp_options pkt lease = parse_loop (slice 240 312 pkt) 0 (0, lease\<lparr>client_ip := be32 16 pkt\<rparr>)"

section \<open>Reception\<close>

datatype dhcp_recv = Received bytes | Timed_out | Overrun

text \<open>
  One frame: \<open>None\<close> when the loop goes on. The payload is copied into the structure before its identifier and
  cookie are checked, whatever its length.
\<close>

definition dhcp_frame :: "bytes \<Rightarrow> u32 \<Rightarrow> bytes \<Rightarrow> (bytes + dhcp_recv)" where
  "dhcp_frame frame xid pkt =
     (if length frame < 42 then Inl pkt
      else if be16 12 frame \<noteq> 0x0800 then Inl pkt
      else if frame ! 23 \<noteq> 17 then Inl pkt
      else if be16 36 frame \<noteq> 68 then Inl pkt
      else if length frame - 42 < 240 then Inl pkt
      else if length (drop 42 frame) > length pkt then Inr Overrun
      else let pkt = patch 0 (drop 42 frame) pkt
           in if be32 4 pkt \<noteq> xid then Inl pkt
              else if be32 236 pkt \<noteq> DHCP_MAGIC_COOKIE then Inl pkt
              else Inr (Received pkt))"

partial_function (option) recv_loop :: "netdev \<Rightarrow> u32 \<Rightarrow> u64 \<Rightarrow> u64 \<Rightarrow> bytes \<Rightarrow> nic \<Rightarrow> (dhcp_recv \<times> nic) option" where
  "recv_loop dev xid timeout start pkt s =
     (let (now, s) = hal_timer_ms dev s
      in if now - start < timeout then
           let (frame, s) = net_rx dev s
           in if frame = [] then recv_loop dev xid timeout start pkt s
              else (case dhcp_frame frame xid pkt of
                      Inl pkt \<Rightarrow> recv_loop dev xid timeout start pkt s
                    | Inr r \<Rightarrow> Some (r, s))
         else Some (Timed_out, s))"

definition recv_dhcp :: "netdev \<Rightarrow> u32 \<Rightarrow> u64 \<Rightarrow> bytes \<Rightarrow> nic \<Rightarrow> (dhcp_recv \<times> nic) option" where
  "recv_dhcp dev xid timeout pkt s =
     (if \<not> has_rx dev then Some (Timed_out, s)
      else let (start, s) = hal_timer_ms dev s in recv_loop dev xid timeout start pkt s)"

section \<open>The exchange\<close>

text \<open>
  How a run ends: with a status, the lease kept in \<^verbatim>\<open>g_lease\<close> and, on success, the addresses returned; or in a
  copy past the structure or a read past the options.
\<close>

datatype dhcp_result = Status hal_status dhcp_lease "(u32 \<times> u32 \<times> u32) option" | Fault

text \<open>Wait for a reply and parse it; the continuation gets the message type, the lease and the structure.\<close>

definition dhcp_reply ::
  "netdev \<Rightarrow> u32 \<Rightarrow> bytes \<Rightarrow> dhcp_lease \<Rightarrow> dhcp_lease \<Rightarrow> nic \<Rightarrow>
   (u8 \<Rightarrow> dhcp_lease \<Rightarrow> bytes \<Rightarrow> nic \<Rightarrow> (dhcp_result \<times> nic) option) \<Rightarrow> (dhcp_result \<times> nic) option" where
  "dhcp_reply dev xid pkt lease g_lease s cont =
     do { (r, s) \<leftarrow> recv_dhcp dev xid 5000 pkt s;
          case r of
            Timed_out \<Rightarrow> Some (Status HAL_TIMEOUT g_lease None, s)
          | Overrun \<Rightarrow> Some (Fault, s)
          | Received pkt \<Rightarrow>
              (case parse_dhcp_options pkt lease of
                 None \<Rightarrow> Some (Fault, s)
               | Some (msg_type, lease) \<Rightarrow> cont msg_type lease pkt s) }"

text \<open>The two steps after a reply: the second sends nothing, the first sends the REQUEST and waits again.\<close>

definition dhcp_on_ack :: "dhcp_lease \<Rightarrow> u8 \<Rightarrow> dhcp_lease \<Rightarrow> bytes \<Rightarrow> nic \<Rightarrow> (dhcp_result \<times> nic) option" where
  "dhcp_on_ack g_lease msg_type lease pkt s =
     (if msg_type \<noteq> DHCP_ACK then Some (Status HAL_ERROR g_lease None, s)
      else Some (Status HAL_OK lease (Some (client_ip lease, gateway lease, dns_server lease)), s))"

definition dhcp_on_offer ::
  "netdev \<Rightarrow> u32 \<Rightarrow> dhcp_lease \<Rightarrow> u8 \<Rightarrow> dhcp_lease \<Rightarrow> bytes \<Rightarrow> nic \<Rightarrow> (dhcp_result \<times> nic) option" where
  "dhcp_on_offer dev xid g_lease msg_type lease pkt s =
     (if msg_type \<noteq> DHCP_OFFER then Some (Status HAL_ERROR g_lease None, s)
      else
        let (pkt, pkt_len) = build_dhcp_packet (dev_mac dev) DHCP_REQUEST xid (client_ip lease) (server_ip lease);
            s = send_dhcp dev (dev_mac dev) pkt pkt_len s
        in dhcp_reply dev xid pkt lease g_lease s (dhcp_on_ack g_lease))"

definition dhcp_discover :: "netdev \<Rightarrow> dhcp_lease \<Rightarrow> nic \<Rightarrow> (dhcp_result \<times> nic) option" where
  "dhcp_discover dev g_lease s =
     (if \<not> has_get_mac dev then Some (Status HAL_NO_DEVICE g_lease None, s)
      else
        let (ns, s) = hal_timer_ns dev s;
            xid = ucast ns;
            (pkt, pkt_len) = build_dhcp_packet (dev_mac dev) DHCP_DISCOVER xid 0 0;
            s = send_dhcp dev (dev_mac dev) pkt pkt_len s
        in dhcp_reply dev xid pkt zero_lease g_lease s (dhcp_on_offer dev xid g_lease))"

definition dhcp_get_lease :: "dhcp_lease \<Rightarrow> dhcp_lease" where
  "dhcp_get_lease g_lease = g_lease"

section \<open>The option parser\<close>

text \<open>An option as a code and its data, and what the client takes from it.\<close>

type_synonym dhcp_opt = "u8 \<times> bytes"

definition opt_ok :: "dhcp_opt \<Rightarrow> bool" where
  "opt_ok = (\<lambda>(c, d). c \<noteq> 0 \<and> c \<noteq> 255 \<and> length d < 256 \<and> (c = 53 \<longrightarrow> d \<noteq> []))"

definition opt_bytes :: "dhcp_opt \<Rightarrow> bytes" where
  "opt_bytes = (\<lambda>(c, d). c # word_of_nat (length d) # d)"

fun take_opt :: "dhcp_opt \<Rightarrow> u8 \<times> dhcp_lease \<Rightarrow> u8 \<times> dhcp_lease" where
  "take_opt (c, d) (m, l) =
     (if c = 53 then (d ! 0, l)
      else if length d < 4 then (m, l)
      else if c = 1 then (m, l\<lparr>subnet_mask := be32 0 d\<rparr>)
      else if c = 3 then (m, l\<lparr>gateway := be32 0 d\<rparr>)
      else if c = 6 then (m, l\<lparr>dns_server := be32 0 d\<rparr>)
      else if c = 51 then (m, l\<lparr>lease_time := be32 0 d\<rparr>)
      else if c = 54 then (m, l\<lparr>server_ip := be32 0 d\<rparr>)
      else (m, l))"

lemma opt32_at: "4 \<le> length d \<Longrightarrow> opt32 (pre @ d @ post) (length pre) = Some (be32 0 d)"
  using be_skip(2) [of pre "length pre" "d @ post"] be_prefix(2) [of 0 d post] by (simp add: opt32_def)

lemma len_word: "length d < 256 \<Longrightarrow> (4 :: u8) \<le> word_of_nat (length d) \<longleftrightarrow> 4 \<le> length d"
  by (simp add: word_le_nat_alt u8_of_nat_unat)

lemma option_at:
  assumes "opt_ok (c, d)"
  shows "dhcp_option (pre @ d @ post) (length pre) c (word_of_nat (length d)) r = Some (take_opt (c, d) r)"
proof -
  have l: "length d < 256" "c = 53 \<longrightarrow> d \<noteq> []" using assms by (simp_all add: opt_ok_def)
  have b: "byte_at (pre @ d @ post) (length pre) = Some (d ! 0)" if "d \<noteq> []"
    using that by (simp add: byte_at_def nth_append)
  obtain m le where r: "r = (m, le)" by force
  show ?thesis
    using l b by (cases "4 \<le> length d") (simp_all add: dhcp_option_def r len_word opt32_at)
qed

lemma parse_opts:
  assumes "list_all opt_ok os" "length pre + length (concat (map opt_bytes os)) < 312"
  shows "parse_loop (pre @ concat (map opt_bytes os) @ 255 # rest) (length pre) r = Some (fold take_opt os r)"
  using assms
proof (induction os arbitrary: pre r)
  case Nil
  then show ?case by (simp add: parse_loop.simps byte_at_def nth_append)
next
  case (Cons o' os)
  obtain c d where o: "o' = (c, d)" by force
  have ok: "opt_ok (c, d)" using Cons.prems o by simp
  then have c: "c \<noteq> 0" "c \<noteq> 255" "length d < 256" by (simp_all add: opt_ok_def)
  let ?rest = "concat (map opt_bytes os) @ 255 # rest" and ?len = "word_of_nat (length d) :: u8"
  have all: "pre @ concat (map opt_bytes (o' # os)) @ 255 # rest = pre @ [c, ?len] @ d @ ?rest"
    by (simp add: o opt_bytes_def)
  have b: "byte_at (pre @ [c, ?len] @ d @ ?rest) (length pre) = Some c"
      "byte_at (pre @ [c, ?len] @ d @ ?rest) (length pre + 1) = Some ?len"
    by (simp_all add: byte_at_def nth_append)
  have a: "dhcp_option (pre @ [c, ?len] @ d @ ?rest) (length pre + 2) c ?len r = Some (take_opt (c, d) r)"
    using option_at [OF ok, of "pre @ [c, ?len]" ?rest r] by simp
  have n: "length pre + 2 + unat ?len = length (pre @ [c, ?len] @ d)" using c by (simp add: u8_of_nat_unat)
  have i: "length pre < 312" using Cons.prems by simp
  have "parse_loop ((pre @ [c, ?len] @ d) @ ?rest) (length (pre @ [c, ?len] @ d)) (take_opt (c, d) r) =
      Some (fold take_opt os (take_opt (c, d) r))"
    using Cons.prems by (intro Cons.IH) (simp_all add: o opt_bytes_def)
  then show ?case
    unfolding all by (subst parse_loop.simps) (simp only: i b a n c if_True if_False bind.bind_lunit o fold_simps append_assoc)
qed

lemma parse_message:
  assumes "length fixed = 240" "list_all opt_ok os" "length (concat (map opt_bytes os) @ [255] @ rest) = 312"
  shows "parse_dhcp_options (fixed @ concat (map opt_bytes os) @ [255] @ rest) lease =
    Some (fold take_opt os (0, lease\<lparr>client_ip := be32 16 fixed\<rparr>))"
proof -
  let ?o = "concat (map opt_bytes os) @ [255] @ rest"
  have "slice 240 312 (fixed @ ?o) = ?o" using assms(1,3) by (simp add: slice_def)
  moreover have "be32 16 (fixed @ ?o) = be32 16 fixed" using assms(1) by (intro be_prefix) simp
  ultimately show ?thesis
    using parse_opts [OF assms(2), of "[]" rest] assms(3) by (simp add: parse_dhcp_options_def)
qed

text \<open>
  The option parser inverts the option encoding: on a message whose options are a list of options with their
  lengths, an end mark and whatever follows it, it reads nothing past the 312 bytes and returns the last message
  type and the last value of every field of the lease, with the address the server gives.
\<close>

theorem dhcp_options_parsed:
  assumes "length fixed = 240" "list_all opt_ok os" "length (concat (map opt_bytes os) @ [255] @ rest) = 312"
  shows "parse_dhcp_options (fixed @ concat (map opt_bytes os) @ [255] @ rest) lease =
    Some (fold take_opt os (0, lease\<lparr>client_ip := be32 16 fixed\<rparr>))"
  using assms by (rule parse_message)

text \<open>An acknowledgement with mask, lease time and server.\<close>

theorem dhcp_options_parsed_witness:
  "parse_dhcp_options (replicate 240 0 @ concat (map opt_bytes [(53, [5]), (1, [255, 255, 255, 0]), (51, [0, 0, 14, 16])]) @
     [255] @ replicate 296 0) zero_lease = Some (5, zero_lease\<lparr>subnet_mask := 0xFFFFFF00, lease_time := 3600\<rparr>)"
proof -
  have b: "be32 16 (replicate 240 0) = 0" "be32 0 [255, 255, 255, 0] = 0xFFFFFF00" "be32 0 [0, 0, 14, 16] = 3600"
    by (simp_all add: be32_def ntohl_def htonl_def le32_def slice_def)
  have "list_all opt_ok [(53, [5]), (1, [255, 255, 255, 0]), (51, [0, 0, 14, 16])]" by (simp add: opt_ok_def)
  from dhcp_options_parsed [OF _ this, of "replicate 240 0" "replicate 296 0" zero_lease] show ?thesis
    by (simp add: b opt_bytes_def zero_lease_def)
qed

section \<open>Reception\<close>

lemma frame_received:
  "dhcp_frame frame xid pkt = Inr (Received p) \<Longrightarrow> be32 4 p = xid \<and> be32 236 p = DHCP_MAGIC_COOKIE"
  by (auto simp: dhcp_frame_def Let_def split: if_splits)

text \<open>What a reply that is handed on went through: it came in a frame of the run and carries identifier and cookie.\<close>

definition genuine :: "netdev \<Rightarrow> u32 \<Rightarrow> bytes \<Rightarrow> bool" where
  "genuine dev xid p \<longleftrightarrow> be32 4 p = xid \<and> be32 236 p = DHCP_MAGIC_COOKIE \<and>
     (\<exists>k pkt. dhcp_frame (rx_frame dev k) xid pkt = Inr (Received p))"

lemma recv_loop_sound:
  assumes "recv_loop dev xid timeout start pkt s = Some r"
  shows "sent (snd r) = sent s \<and> (\<forall>p. fst r = Received p \<longrightarrow> genuine dev xid p)"
  using assms
proof (rule recv_loop.raw_induct [where P = "\<lambda>dev xid timeout start pkt s r.
      sent (snd r) = sent s \<and> (\<forall>p. fst r = Received p \<longrightarrow> genuine dev xid p)", rotated])
  fix f dev xid timeout start pkt s r
  assume IH: "\<And>dev xid timeout start pkt s r. f dev xid timeout start pkt s = Some r \<Longrightarrow>
        sent (snd r) = sent s \<and> (\<forall>p. fst r = Received p \<longrightarrow> genuine dev xid p)"
    and body: "(let (now, s) = hal_timer_ms dev s
      in if now - start < timeout then
           let (frame, s) = net_rx dev s
           in if frame = [] then f dev xid timeout start pkt s
              else (case dhcp_frame frame xid pkt of
                      Inl pkt \<Rightarrow> f dev xid timeout start pkt s
                    | Inr r \<Rightarrow> Some (r, s))
         else Some (Timed_out, s)) = Some r"
  let ?s = "s\<lparr>ticks := ticks s + 1, polls := polls s + 1\<rparr>"
  let ?fr = "rx_frame dev (polls s)"
  consider "r = (Timed_out, s\<lparr>ticks := ticks s + 1\<rparr>)" | pkt' where "f dev xid timeout start pkt' ?s = Some r"
    | q where "dhcp_frame ?fr xid pkt = Inr q" "r = (q, ?s)"
    using body
    by (cases "clock_ms dev (ticks s) - start < timeout"; cases "?fr = []"; cases "dhcp_frame ?fr xid pkt")
       (simp_all add: timer_ms_eq net_rx_def)
  then show "sent (snd r) = sent s \<and> (\<forall>p. fst r = Received p \<longrightarrow> genuine dev xid p)"
  proof cases
    case 2
    then show ?thesis using IH [OF 2] by simp
  next
    case 3
    then show ?thesis using frame_received by (auto simp: genuine_def)
  qed simp
qed

lemma recv_sound:
  "recv_dhcp dev xid timeout pkt s = Some (r, s') \<Longrightarrow> sent s' = sent s \<and> (\<forall>p. r = Received p \<longrightarrow> genuine dev xid p)"
  by (auto simp: recv_dhcp_def timer_ms_eq split: if_splits dest: recv_loop_sound)

section \<open>The exchange\<close>

lemma reply_cases:
  assumes "dhcp_reply dev xid pkt lease g s cont = Some (res, s')"
  obtains "res = Status HAL_TIMEOUT g None" "sent s' = sent s"
  | "res = Fault" "sent s' = sent s"
  | p m l t where "genuine dev xid p" "parse_dhcp_options p lease = Some (m, l)" "sent t = sent s"
      "cont m l p t = Some (res, s')"
proof -
  obtain r t where r: "recv_dhcp dev xid 5000 pkt s = Some (r, t)"
    using assms by (auto simp: dhcp_reply_def bind_eq_Some_conv)
  note snt = recv_sound [OF r]
  show ?thesis
    using assms r snt that
    by (cases r) (auto simp: dhcp_reply_def split: option.splits)
qed

definition dhcp_wire :: "netdev \<Rightarrow> bytes \<times> nat \<Rightarrow> bytes" where
  "dhcp_wire dev = (\<lambda>(pkt, n). let h = dhcp_header (dev_mac dev) n
     in pad60 (eth_bytes h @ ip_bytes h @ udp_bytes 68 67 (8 + word_of_nat n) @ take n pkt))"

lemma sent_send: "has_tx dev \<Longrightarrow> sent (send_dhcp dev (dev_mac dev) pkt n s) = sent s @ [dhcp_wire dev (pkt, n)]"
  by (simp add: send_dhcp_def dhcp_wire_def net_tx_def Let_def)

lemma exchange_outcome:
  assumes "dhcp_discover dev g s = Some (Status st lease res, s')" "has_tx dev"
  defines "xid \<equiv> ucast (clock_ns dev (ticks s)) :: u32"
  shows "if st = HAL_OK then
      (\<exists>p1 l1 p2. genuine dev xid p1 \<and> parse_dhcp_options p1 zero_lease = Some (DHCP_OFFER, l1) \<and>
         genuine dev xid p2 \<and> parse_dhcp_options p2 l1 = Some (DHCP_ACK, lease) \<and>
         res = Some (client_ip lease, gateway lease, dns_server lease) \<and>
         sent s' = sent s @ [dhcp_wire dev (build_dhcp_packet (dev_mac dev) DHCP_DISCOVER xid 0 0),
           dhcp_wire dev (build_dhcp_packet (dev_mac dev) DHCP_REQUEST xid (client_ip l1) (server_ip l1))])
    else lease = g \<and> res = None"
proof (cases "has_get_mac dev")
  case True
  obtain k1 n1 where b1: "build_dhcp_packet (dev_mac dev) DHCP_DISCOVER xid 0 0 = (k1, n1)" by force
  let ?s1 = "send_dhcp dev (dev_mac dev) k1 n1 (s\<lparr>ticks := ticks s + 1\<rparr>)"
  have "dhcp_reply dev xid k1 zero_lease g ?s1 (dhcp_on_offer dev xid g) = Some (Status st lease res, s')"
    using assms(1) True b1 by (simp add: dhcp_discover_def hal_timer_ns_def Let_def flip: xid_def)
  then show ?thesis
  proof (cases rule: reply_cases)
    case (3 p1 m1 l1 t1)
    show ?thesis
    proof (cases "m1 = DHCP_OFFER")
      case True
      obtain k2 n2 where b2: "build_dhcp_packet (dev_mac dev) DHCP_REQUEST xid (client_ip l1) (server_ip l1) = (k2, n2)" by force
      have "dhcp_reply dev xid k2 l1 g (send_dhcp dev (dev_mac dev) k2 n2 t1) (dhcp_on_ack g) = Some (Status st lease res, s')"
        using 3(4) True b2 by (simp add: dhcp_on_offer_def)
      then show ?thesis
      proof (cases rule: reply_cases)
        case (3 p2 m2 l2 t2)
        then show ?thesis
          using \<open>genuine dev xid p1\<close> \<open>parse_dhcp_options p1 zero_lease = Some (m1, l1)\<close> \<open>sent t1 = sent ?s1\<close> True b1 b2
            sent_send [OF assms(2)] by (cases "m2 = DHCP_ACK") (auto simp: dhcp_on_ack_def, metis)
      qed simp_all
    next
      case False
      then show ?thesis using 3 by (auto simp: dhcp_on_offer_def)
    qed
  qed simp_all
next
  case False
  then show ?thesis using assms(1) by (auto simp: dhcp_discover_def)
qed

text \<open>
  C14. A DHCP exchange that succeeds sent exactly two frames, the DISCOVER and a REQUEST for the address and server
  of the offer; both replies came in frames of the run with the transaction's identifier and the cookie, the first
  an OFFER and the second an ACK; the lease kept is the acknowledged one and the addresses returned are its own. On
  every other status the kept lease is the old one and nothing is returned.
\<close>

theorem dhcp_exchange:
  assumes "dhcp_discover dev g s = Some (Status st lease res, s')" "has_tx dev"
  defines "xid \<equiv> ucast (clock_ns dev (ticks s)) :: u32"
  shows "if st = HAL_OK then
      (\<exists>p1 l1 p2. genuine dev xid p1 \<and> parse_dhcp_options p1 zero_lease = Some (DHCP_OFFER, l1) \<and>
         genuine dev xid p2 \<and> parse_dhcp_options p2 l1 = Some (DHCP_ACK, lease) \<and>
         res = Some (client_ip lease, gateway lease, dns_server lease) \<and>
         sent s' = sent s @ [dhcp_wire dev (build_dhcp_packet (dev_mac dev) DHCP_DISCOVER xid 0 0),
           dhcp_wire dev (build_dhcp_packet (dev_mac dev) DHCP_REQUEST xid (client_ip l1) (server_ip l1))])
    else lease = g \<and> res = None"
  using assms exchange_outcome by blast

text \<open>A server that offers and acknowledges 10.0.0.5 behind the router 10.0.0.1.\<close>

definition server_fixed :: bytes where
  "server_fixed = replicate 4 0 @ [0, 0, 0, 7] @ replicate 8 0 @ [10, 0, 0, 5] @ replicate 216 0 @ [0x63, 0x82, 0x53, 0x63]"

definition server_frame :: "u8 \<Rightarrow> bytes" where
  "server_frame mt = replicate 12 0 @ [8, 0] @ replicate 9 0 @ [17] @ replicate 12 0 @ [0, 68] @ replicate 4 0 @
     server_fixed @ [53, 1, mt, 54, 4, 10, 0, 0, 1, 3, 4, 10, 0, 0, 1, 255]"

definition sample_net :: netdev where
  "sample_net = \<lparr>has_tx = True, has_rx = True, has_get_mac = True, dev_mac = [2, 0, 0, 0, 0, 1], clock_ns = (\<lambda>_. 7),
     rx_frame = (\<lambda>k. if k = 0 then server_frame 2 else server_frame 5)\<rparr>"

definition idle_nic :: nic where
  "idle_nic = \<lparr>ticks = 0, polls = 0, sent = []\<rparr>"

lemma length_build:
  assumes "length mac = 6"
  shows "length (fst (build_dhcp_packet mac mt xid rip sid)) = 552"
  using assms by (simp add: build_dhcp_packet_def dhcp_fixed_def dhcp_options_def Let_def put16_def put32_def)

lemma server_payload:
  assumes "length pkt = 552"
  shows "patch 0 (drop 42 (server_frame mt)) pkt =
    server_fixed @
    concat (map opt_bytes [(53, [mt]), (54, [10, 0, 0, 1]), (3, [10, 0, 0, 1])]) @ [255] @ drop 256 pkt"
  using assms by (simp add: server_frame_def server_fixed_def patch_def opt_bytes_def)

lemma server_fields:
  "be32 16 server_fixed = 0x0A000005"
  "be32 4 server_fixed = 7"
  "be32 236 server_fixed = 0x63825363"
  "be32 0 [10, 0, 0, 1] = 0x0A000001"
  "be16 12 (server_frame mt) = 0x0800" "server_frame mt ! 23 = 17" "be16 36 (server_frame mt) = 68" "length (server_frame mt) = 298" "length server_fixed = 240"
  by (simp_all add: be32_def be16_def ntohl_def ntohs_def htonl_def htons_def le32_def le16_def slice_def server_frame_def server_fixed_def nth_append)

lemma server_parse:
  assumes "length pkt = 552"
  shows "parse_dhcp_options (patch 0 (drop 42 (server_frame mt)) pkt) l =
    Some (mt, l\<lparr>client_ip := 0x0A000005, server_ip := 0x0A000001, gateway := 0x0A000001\<rparr>)"
proof -
  have "list_all opt_ok [(53, [mt]), (54, [10, 0, 0, 1]), (3, [10, 0, 0, 1])]" by (simp add: opt_ok_def)
  from parse_message [OF _ this, of server_fixed "drop 256 pkt" l]
  show ?thesis unfolding server_payload [OF assms] using assms by (simp add: server_fields opt_bytes_def)
qed

lemma server_accepted:
  assumes "length pkt = 552"
  shows "dhcp_frame (server_frame mt) 7 pkt = Inr (Received (patch 0 (drop 42 (server_frame mt)) pkt))"
proof -
  have "be32 4 (patch 0 (drop 42 (server_frame mt)) pkt) = 7" "be32 236 (patch 0 (drop 42 (server_frame mt)) pkt) = DHCP_MAGIC_COOKIE"
    unfolding server_payload [OF assms] DHCP_MAGIC_COOKIE_def
    using be_prefix(2) [of 4 server_fixed] be_prefix(2) [of 236 server_fixed] by (simp_all add: server_fields)
  then show ?thesis using assms by (simp add: dhcp_frame_def server_fields Let_def)
qed

lemma sample_recv:
  assumes "length pkt = 552" "polls s \<le> 1"
  shows "recv_dhcp sample_net 7 5000 pkt s =
    Some (Received (patch 0 (drop 42 (server_frame (if polls s = 0 then 2 else 5))) pkt),
          s\<lparr>ticks := ticks s + 2, polls := polls s + 1\<rparr>)"
proof -
  have c: "clock_ms sample_net k = 0" for k by (simp add: clock_ms_def sample_net_def)
  have f: "rx_frame sample_net (polls s) = server_frame (if polls s = 0 then 2 else 5)" by (simp add: sample_net_def)
  have n: "server_frame mt \<noteq> []" for mt by (simp add: server_frame_def)
  show ?thesis
    using server_accepted [OF assms(1)]
    by (simp add: recv_dhcp_def recv_loop.simps timer_ms_eq c net_rx_def f n) (simp add: sample_net_def)
qed

lemma sample_run:
  "\<exists>s'. dhcp_discover sample_net zero_lease idle_nic =
     Some (Status HAL_OK (zero_lease\<lparr>client_ip := 0x0A000005, server_ip := 0x0A000001, gateway := 0x0A000001\<rparr>)
       (Some (0x0A000005, 0x0A000001, 0)), s')"
proof -
  let ?m = "dev_mac sample_net"
  obtain k1 n1 where b1: "build_dhcp_packet ?m DHCP_DISCOVER 7 0 0 = (k1, n1)" by force
  obtain k2 n2 where b2: "build_dhcp_packet ?m DHCP_REQUEST 7 0x0A000005 0x0A000001 = (k2, n2)" by force
  have l: "length k1 = 552" "length k2 = 552"
    using length_build [of ?m] b1 b2 by (fastforce simp: sample_net_def dest: arg_cong [of _ _ fst])+
  have p: "polls (send_dhcp dev mac pkt n s) = polls s" for dev mac pkt n s
    by (simp add: send_dhcp_def net_tx_def Let_def)
  have f: "has_get_mac sample_net" "clock_ns sample_net k = 7" for k by (simp_all add: sample_net_def)
  show ?thesis
    using l by (simp add: dhcp_discover_def f hal_timer_ns_def b1 dhcp_reply_def sample_recv p idle_nic_def server_parse
      dhcp_on_offer_def b2 dhcp_on_ack_def zero_lease_def)
qed

theorem dhcp_exchange_witness:
  "\<exists>s' p1 l1 p2. dhcp_discover sample_net zero_lease idle_nic =
      Some (Status HAL_OK (zero_lease\<lparr>client_ip := 0x0A000005, server_ip := 0x0A000001, gateway := 0x0A000001\<rparr>)
        (Some (0x0A000005, 0x0A000001, 0)), s') \<and>
    genuine sample_net 7 p1 \<and> genuine sample_net 7 p2 \<and> parse_dhcp_options p1 zero_lease = Some (DHCP_OFFER, l1) \<and>
    sent s' = [dhcp_wire sample_net (build_dhcp_packet [2, 0, 0, 0, 0, 1] DHCP_DISCOVER 7 0 0),
      dhcp_wire sample_net (build_dhcp_packet [2, 0, 0, 0, 0, 1] DHCP_REQUEST 7 (client_ip l1) (server_ip l1))]"
proof -
  obtain s' where r: "dhcp_discover sample_net zero_lease idle_nic =
      Some (Status HAL_OK (zero_lease\<lparr>client_ip := 0x0A000005, server_ip := 0x0A000001, gateway := 0x0A000001\<rparr>)
        (Some (0x0A000005, 0x0A000001, 0)), s')" using sample_run by blast
  have f: "has_tx sample_net" "ucast (clock_ns sample_net k) = (7 :: u32)" "dev_mac sample_net = [2, 0, 0, 0, 0, 1]" "sent idle_nic = []" for k
    by (simp_all add: sample_net_def idle_nic_def)
  show ?thesis using dhcp_exchange [OF r f(1)] r unfolding f by auto
qed

section \<open>Termination\<close>

text \<open>
  A clock that does not go back between two of its readings and moves by at most ten seconds from one to the next. The
  longest stretch of the exchange without a reading is the wait of two seconds before the last attempt.
\<close>

definition steady_clock :: "netdev \<Rightarrow> nat \<Rightarrow> nat \<Rightarrow> bool" where
  "steady_clock dev a n \<longleftrightarrow> (\<forall>k. a \<le> k \<and> k < n \<longrightarrow>
     unat (clock_ms dev k) \<le> unat (clock_ms dev (k + 1)) \<and> unat (clock_ms dev (k + 1)) \<le> unat (clock_ms dev k) + 10000)"

text \<open>A point of a run within the readings considered, with the clock not past a bound.\<close>

definition on_time :: "netdev \<Rightarrow> nat \<Rightarrow> nat \<Rightarrow> nat \<Rightarrow> nic \<Rightarrow> bool" where
  "on_time dev a n bound s \<longleftrightarrow> a \<le> ticks s \<and> ticks s \<le> n \<and> unat (clock_ms dev (ticks s)) \<le> bound"

text \<open>
  The frames that are copied: UDP to port 68 with at least the fixed part of a message. One of them does damage when it is
  longer than the structure, or when its options, with whatever the structure held behind them, run past the end.
\<close>

definition to_client :: "bytes \<Rightarrow> bool" where
  "to_client f \<longleftrightarrow> be16 12 f = 0x0800 \<and> f ! 23 = 17 \<and> be16 36 f = 68 \<and> 282 \<le> length f"

definition misfit :: "bytes \<Rightarrow> bool" where
  "misfit f \<longleftrightarrow> to_client f \<and> (594 < length f \<or> (\<exists>rest l. length f + length rest = 594 \<and> parse_dhcp_options (drop 42 f @ rest) l = None))"

definition misfit_in :: "netdev \<Rightarrow> nic \<Rightarrow> nic \<Rightarrow> bool" where
  "misfit_in dev s s' \<longleftrightarrow> (\<exists>k. polls s \<le> k \<and> k < polls s' \<and> misfit (rx_frame dev k))"

lemma misfit_in_mono: "misfit_in dev s s' \<Longrightarrow> polls t \<le> polls s \<Longrightarrow> polls s' \<le> polls t' \<Longrightarrow> misfit_in dev t t'"
  unfolding misfit_in_def by (meson le_trans less_le_trans)

lemma frame_cases:
  assumes "length pkt = 552"
  shows "dhcp_frame f xid pkt = Inl q \<Longrightarrow> length q = 552"
    "dhcp_frame f xid pkt = Inr Overrun \<Longrightarrow> misfit f"
    "dhcp_frame f xid pkt = Inr (Received q) \<Longrightarrow> parse_dhcp_options q l = None \<Longrightarrow> misfit f"
    "dhcp_frame f xid pkt \<noteq> Inr Timed_out"
proof -
  show "dhcp_frame f xid pkt = Inl q \<Longrightarrow> length q = 552" "dhcp_frame f xid pkt = Inr Overrun \<Longrightarrow> misfit f"
      "dhcp_frame f xid pkt \<noteq> Inr Timed_out"
    using assms by (auto simp: dhcp_frame_def Let_def misfit_def to_client_def split: if_splits)
  assume r: "dhcp_frame f xid pkt = Inr (Received q)" "parse_dhcp_options q l = None"
  then have "to_client f" "q = drop 42 f @ drop (length f - 42) pkt" "length f \<le> 594"
    using assms by (auto simp: dhcp_frame_def Let_def to_client_def patch_def split: if_splits)
  then show "misfit f" using r(2) assms unfolding misfit_def
    by (auto simp: to_client_def intro!: exI [of _ "drop (length f - 42) pkt"] exI [of _ l])
qed

lemma steady_next:
  assumes "steady_clock dev a n" "on_time dev a n b s" "b < unat (clock_ms dev n)"
  shows "ticks s < n" "on_time dev a n (b + 10000) (s\<lparr>ticks := ticks s + 1\<rparr>)"
    "unat (clock_ms dev (ticks s)) \<le> unat (clock_ms dev (ticks s + 1))"
    "unat (clock_ms dev (ticks s + 1)) \<le> unat (clock_ms dev (ticks s)) + 10000"
proof -
  show t: "ticks s < n" using assms(2,3) by (cases "ticks s = n") (auto simp: on_time_def)
  then show "unat (clock_ms dev (ticks s)) \<le> unat (clock_ms dev (ticks s + 1))"
      and u: "unat (clock_ms dev (ticks s + 1)) \<le> unat (clock_ms dev (ticks s)) + 10000"
    using assms(1,2) unfolding steady_clock_def on_time_def by blast+
  then show "on_time dev a n (b + 10000) (s\<lparr>ticks := ticks s + 1\<rparr>)" using assms(2) t by (simp add: on_time_def)
qed

text \<open>How a wait ends: in time, and without a timeout only by a frame that arrived during it.\<close>

definition wait_ends :: "netdev \<Rightarrow> nat \<Rightarrow> nat \<Rightarrow> nat \<Rightarrow> nic \<Rightarrow> dhcp_recv \<times> nic \<Rightarrow> bool" where
  "wait_ends dev a n b s r \<longleftrightarrow> on_time dev a n b (snd r) \<and> polls s \<le> polls (snd r) \<and> (fst r = Overrun \<longrightarrow> misfit_in dev s (snd r)) \<and>
     (\<forall>p l. fst r = Received p \<and> parse_dhcp_options p l = None \<longrightarrow> misfit_in dev s (snd r))"

lemma wait_ends_mono: "wait_ends dev a n b s r \<Longrightarrow> polls t \<le> polls s \<Longrightarrow> b \<le> b' \<Longrightarrow> wait_ends dev a n b' t r"
  unfolding wait_ends_def by (auto simp: on_time_def intro: misfit_in_mono)

lemma recv_loop_returns:
  assumes clock: "steady_clock dev a n" "unat start + 15000 < unat (clock_ms dev n)"
    and "length pkt = 552" "on_time dev a n (unat start + 15000) s" "unat start \<le> unat (clock_ms dev (ticks s))" "n - ticks s \<le> j"
  shows "\<exists>r. recv_loop dev xid 5000 start pkt s = Some r \<and> wait_ends dev a n (unat start + 25000) s r"
  using assms(3-)
proof (induction j arbitrary: pkt s)
  case 0
  then show ?case using steady_next(1) [OF clock(1) 0(2) clock(2)] by simp
next
  case (Suc j)
  note nx = steady_next [OF clock(1) Suc.prems(2) clock(2)]
  let ?c = "clock_ms dev (ticks s)" and ?f = "rx_frame dev (polls s)"
  let ?s = "s\<lparr>ticks := ticks s + 1, polls := polls s + 1\<rparr>"
  have early: "?c - start < 5000 \<longleftrightarrow> unat ?c < unat start + 5000"
    using Suc.prems(3) by (simp add: word_less_nat_alt unat_sub_if_size word_le_nat_alt) linarith
  have t: "on_time dev a n (unat start + 25000) ?s" using nx(2) by (simp add: on_time_def)
  have again: "\<exists>r. recv_loop dev xid 5000 start q ?s = Some r \<and> wait_ends dev a n (unat start + 25000) s r"
    if "length q = 552" "?c - start < 5000" for q
  proof -
    have "on_time dev a n (unat start + 15000) ?s" "unat start \<le> unat (clock_ms dev (ticks ?s))" "n - ticks ?s \<le> j"
      using nx that(2) early Suc.prems by (simp_all add: on_time_def)
    from Suc.IH [OF that(1) this] show ?thesis using wait_ends_mono [of dev a n _ ?s _ s, OF _ _ order_refl] by fastforce
  qed
  have hit: "misfit ?f \<Longrightarrow> misfit_in dev s ?s" by (auto simp: misfit_in_def)
  show ?case
  proof (cases "?c - start < 5000")
    case False
    then show ?thesis using nx(2)
      by (simp add: recv_loop.simps [of dev xid 5000 start pkt s] timer_ms_eq wait_ends_def on_time_def)
  next
    case True
    show ?thesis
    proof (cases "?f = [] \<or> (\<exists>q. dhcp_frame ?f xid pkt = Inl q)")
      case more: True
      then show ?thesis using again [OF _ True] Suc.prems(1) frame_cases(1) [OF Suc.prems(1)] True
        by (auto simp: recv_loop.simps [of dev xid 5000 start pkt s] timer_ms_eq net_rx_def)
    next
      case False
      then obtain r where r: "dhcp_frame ?f xid pkt = Inr r" "?f \<noteq> []" by (cases "dhcp_frame ?f xid pkt") auto
      have "wait_ends dev a n (unat start + 25000) s (r, ?s)"
        using t hit frame_cases(2,3) [OF Suc.prems(1)] r(1) by (auto simp: wait_ends_def)
      then show ?thesis using r True
        by (simp add: recv_loop.simps [of dev xid 5000 start pkt s] timer_ms_eq net_rx_def)
    qed
  qed
qed

lemma recv_returns:
  assumes clock: "steady_clock dev a n" "b + 15000 < unat (clock_ms dev n)" and s: "on_time dev a n b s" "length pkt = 552"
  shows "\<exists>r. recv_dhcp dev xid 5000 pkt s = Some r \<and> wait_ends dev a n (b + 25000) s r"
proof (cases "has_rx dev")
  case True
  let ?start = "clock_ms dev (ticks s)" and ?s = "s\<lparr>ticks := ticks s + 1\<rparr>"
  have b: "unat ?start \<le> b" using s(1) by (simp add: on_time_def)
  have "b < unat (clock_ms dev n)" using clock(2) by simp
  note nx = steady_next [OF clock(1) s(1) this]
  have "on_time dev a n (unat ?start + 15000) ?s" "unat ?start \<le> unat (clock_ms dev (ticks ?s))"
    using nx s(1) by (simp_all add: on_time_def)
  then obtain r where "recv_loop dev xid 5000 ?start pkt ?s = Some r" "wait_ends dev a n (unat ?start + 25000) ?s r"
    using recv_loop_returns [OF clock(1) _ s(2) _ _ order_refl, of ?start ?s xid] b clock(2) by auto
  then show ?thesis using True b
    by (auto simp: recv_dhcp_def timer_ms_eq intro: wait_ends_mono)
next
  case False
  then show ?thesis using s(1) by (simp add: recv_dhcp_def wait_ends_def on_time_def)
qed

text \<open>How a part of the exchange ends: in time, and in a fault only after a frame that does damage.\<close>

definition run_ends :: "netdev \<Rightarrow> nat \<Rightarrow> nat \<Rightarrow> nat \<Rightarrow> nic \<Rightarrow> dhcp_result \<times> nic \<Rightarrow> bool" where
  "run_ends dev a n b s r \<longleftrightarrow> on_time dev a n b (snd r) \<and> polls s \<le> polls (snd r) \<and> (fst r = Fault \<longrightarrow> misfit_in dev s (snd r))"

lemma run_ends_mono: "run_ends dev a n b s r \<Longrightarrow> polls t \<le> polls s \<Longrightarrow> b \<le> b' \<Longrightarrow> run_ends dev a n b' t r"
  unfolding run_ends_def by (auto simp: on_time_def intro: misfit_in_mono)

lemma reply_returns:
  assumes "steady_clock dev a n" "b + 15000 < unat (clock_ms dev n)" "on_time dev a n b s" "length pkt = 552" "b + 25000 \<le> b'"
    and cont: "\<And>m l p t. on_time dev a n (b + 25000) t \<Longrightarrow> \<exists>r. cont m l p t = Some r \<and> run_ends dev a n b' t r"
  shows "\<exists>r. dhcp_reply dev xid pkt lease g s cont = Some r \<and> run_ends dev a n b' s r"
proof -
  obtain r t where r: "recv_dhcp dev xid 5000 pkt s = Some (r, t)" "wait_ends dev a n (b + 25000) s (r, t)"
    using recv_returns [OF assms(1-4), of xid] by auto
  have t: "on_time dev a n (b + 25000) t" "on_time dev a n b' t" "polls s \<le> polls t"
    using r(2) assms(5) by (simp_all add: wait_ends_def on_time_def)
  show ?thesis
  proof (cases r)
    case (Received p)
    show ?thesis
    proof (cases "parse_dhcp_options p lease")
      case None
      then show ?thesis using r t Received by (auto simp: dhcp_reply_def wait_ends_def run_ends_def)
    next
      case (Some ml)
      obtain q where "cont (fst ml) (snd ml) p t = Some q" "run_ends dev a n b' t q" using cont [OF t(1)] by blast
      then show ?thesis using r Received Some run_ends_mono [OF _ t(3) order_refl]
        by (cases ml) (simp add: dhcp_reply_def)
    qed
  qed (use r t in \<open>simp_all add: dhcp_reply_def wait_ends_def run_ends_def\<close>)
qed

lemma send_on_time [simp]:
  "on_time dev a n b (send_dhcp dev' mac pkt len s) = on_time dev a n b s" "polls (send_dhcp dev' mac pkt len s) = polls s"
  by (simp_all add: on_time_def send_dhcp_def net_tx_def Let_def)

lemma dhcp_discover_returns:
  assumes clock: "steady_clock dev a n" "b + 50000 < unat (clock_ms dev n)" and s: "on_time dev a n b s" "length (dev_mac dev) = 6"
  shows "\<exists>r. dhcp_discover dev g s = Some r \<and> run_ends dev a n (b + 60000) s r"
proof (cases "has_get_mac dev")
  case True
  have len: "length (fst (build_dhcp_packet (dev_mac dev) ty xid ip srv)) = 552" for ty xid ip srv
    by (rule length_build [OF s(2)])
  have "b < unat (clock_ms dev n)" using clock(2) by simp
  note nx = steady_next(2) [OF clock(1) s(1) this]
  have ack: "\<exists>r. dhcp_on_ack g m l p t = Some r \<and> run_ends dev a n (b + 60000) t r" if "on_time dev a n (b + 60000) t" for m l p t
    using that by (auto simp: dhcp_on_ack_def run_ends_def)
  have offer: "\<exists>r. dhcp_on_offer dev xid g m l p t = Some r \<and> run_ends dev a n (b + 60000) t r"
    if t: "on_time dev a n (b + 35000) t" for xid m l p t
  proof (cases "m = DHCP_OFFER")
    case True
    let ?b = "build_dhcp_packet (dev_mac dev) DHCP_REQUEST xid (client_ip l) (server_ip l)"
    let ?s = "send_dhcp dev (dev_mac dev) (fst ?b) (snd ?b) t"
    have "\<exists>r. dhcp_reply dev xid (fst ?b) l g ?s (dhcp_on_ack g) = Some r \<and> run_ends dev a n (b + 60000) ?s r"
      using t clock(2) by (intro reply_returns [OF clock(1), of "b + 35000"] ack) (simp_all add: len ac_simps)
    then show ?thesis using True by (auto simp: dhcp_on_offer_def case_prod_beta Let_def run_ends_def misfit_in_def)
  next
    case False
    then show ?thesis using t by (simp add: dhcp_on_offer_def run_ends_def on_time_def)
  qed
  let ?xid = "ucast (clock_ns dev (ticks s)) :: u32"
  let ?b = "build_dhcp_packet (dev_mac dev) DHCP_DISCOVER ?xid 0 0"
  let ?s = "send_dhcp dev (dev_mac dev) (fst ?b) (snd ?b) (s\<lparr>ticks := ticks s + 1\<rparr>)"
  have "\<exists>r. dhcp_reply dev ?xid (fst ?b) zero_lease g ?s (dhcp_on_offer dev ?xid g) = Some r \<and> run_ends dev a n (b + 60000) ?s r"
    using nx clock(2) by (intro reply_returns [OF clock(1), of "b + 10000"] offer) (simp_all add: len ac_simps)
  then show ?thesis using True
    by (auto simp: dhcp_discover_def hal_timer_ns_def case_prod_beta Let_def run_ends_def misfit_in_def)
next
  case False
  then show ?thesis using s(1) by (simp add: dhcp_discover_def run_ends_def on_time_def)
qed

section \<open>Oversized replies\<close>

text \<open>
  C40. A reply is copied before it is checked: a UDP frame to port 68 with more than 552 bytes of payload, whatever
  else it holds, overruns the message structure on the stack and the exchange is lost.
\<close>

theorem oversized_reply_overruns:
  assumes "has_get_mac dev" "has_rx dev" "length (dev_mac dev) = 6"
    and "clock_ms dev (ticks s + 2) - clock_ms dev (ticks s + 1) < 5000"
    and "rx_frame dev (polls s) = frame" "be16 12 frame = 0x0800" "frame ! 23 = 17" "be16 36 frame = 68" "594 < length frame"
  shows "\<exists>s'. dhcp_discover dev g s = Some (Fault, s')"
proof -
  let ?xid = "ucast (clock_ns dev (ticks s)) :: u32"
  obtain k n where b: "build_dhcp_packet (dev_mac dev) DHCP_DISCOVER ?xid 0 0 = (k, n)" by force
  have l: "length k = 552" using length_build [OF assms(3), of DHCP_DISCOVER ?xid 0 0] b by simp
  let ?s = "send_dhcp dev (dev_mac dev) k n (s\<lparr>ticks := ticks s + 1\<rparr>)"
  have t: "ticks ?s = ticks s + 1" "polls ?s = polls s" by (simp_all add: send_dhcp_def net_tx_def Let_def)
  have "dhcp_frame frame ?xid k = Inr Overrun" "frame \<noteq> []" using assms(6-9) l by (auto simp: dhcp_frame_def)
  then have "\<exists>s'. recv_dhcp dev ?xid 5000 k ?s = Some (Overrun, s')"
    using assms(2,4,5) t by (simp add: recv_dhcp_def recv_loop.simps timer_ms_eq net_rx_def)
  then show ?thesis
    using assms(1) b by (auto simp: dhcp_discover_def hal_timer_ns_def dhcp_reply_def)
qed

theorem oversized_reply_overruns_witness:
  "\<exists>s'. dhcp_discover (sample_net\<lparr>rx_frame := (\<lambda>_. server_frame 2 @ replicate 300 0)\<rparr>) zero_lease idle_nic = Some (Fault, s')"
proof (rule oversized_reply_overruns [of _ _ "server_frame 2 @ replicate 300 0"])
  show "be16 12 (server_frame 2 @ replicate 300 0) = 0x0800" "be16 36 (server_frame 2 @ replicate 300 0) = 68"
      "(server_frame 2 @ replicate 300 0) ! 23 = 17" "594 < length (server_frame 2 @ replicate 300 0 :: bytes)"
    by (simp_all add: be_prefix server_fields nth_append)
qed (simp_all add: sample_net_def clock_ms_def)

end
