(* ===== verification/Tcp.thy ===== *)
theory Tcp
  imports Net
begin

text \<open>
  The TCP client, \<^verbatim>\<open>net/tcp.c\<close>: the pseudo-header checksum, frames sent and received, address resolution,
  and the calls to connect, send, receive and close. Every wait is a loop over the clock; \<open>None\<close> is a wait that
  never ends.
\<close>

section \<open>State\<close>

datatype tcp_phase =
    TCP_CLOSED
  | TCP_SYN_SENT
  | TCP_ESTABLISHED
  | TCP_FIN_WAIT_1
  | TCP_FIN_WAIT_2
  | TCP_TIME_WAIT
  | TCP_CLOSE_WAIT

text \<open>\<^verbatim>\<open>tcp_conn_t\<close>; its receive buffer is never used by the code.\<close>

record tcp_conn =
  state :: tcp_phase
  local_ip :: u32
  local_port :: u16
  remote_ip :: u32
  remote_port :: u16
  seq_num :: u32
  ack_num :: u32
  remote_mss :: u16
  local_mac :: bytes
  remote_mac :: bytes
  rx_len :: u32

text \<open>The module's variables together with what the device has done.\<close>

record tcp_mod =
  g_local_ip :: u32
  g_gateway :: u32
  g_netmask :: u32
  g_local_mac :: bytes
  g_ip_id :: u16
  tnic :: nic

abbreviation (input) TCP_FIN :: u8 where "TCP_FIN \<equiv> 0x01"
abbreviation (input) TCP_SYN :: u8 where "TCP_SYN \<equiv> 0x02"
abbreviation (input) TCP_RST :: u8 where "TCP_RST \<equiv> 0x04"
abbreviation (input) TCP_PSH :: u8 where "TCP_PSH \<equiv> 0x08"
abbreviation (input) TCP_ACK :: u8 where "TCP_ACK \<equiv> 0x10"

definition TCP_TX_MSS :: nat where
  "TCP_TX_MSS = 1460"

definition timer_ns :: "netdev \<Rightarrow> tcp_mod \<Rightarrow> u64 \<times> tcp_mod" where
  "timer_ns dev st = (let (v, s) = hal_timer_ns dev (tnic st) in (v, st\<lparr>tnic := s\<rparr>))"

definition timer_ms :: "netdev \<Rightarrow> tcp_mod \<Rightarrow> u64 \<times> tcp_mod" where
  "timer_ms dev st = (let (v, s) = hal_timer_ms dev (tnic st) in (v, st\<lparr>tnic := s\<rparr>))"

definition receive :: "netdev \<Rightarrow> tcp_mod \<Rightarrow> bytes \<times> tcp_mod" where
  "receive dev st = (let (f, s) = net_rx dev (tnic st) in (f, st\<lparr>tnic := s\<rparr>))"

section \<open>Frames\<close>

definition tcp_checksum :: "u32 \<Rightarrow> u32 \<Rightarrow> bytes \<Rightarrow> u16" where
  "tcp_checksum src_ip dst_ip tcp_hdr =
     (let acc = (drop_bit 16 src_ip AND 0xFFFF) + (src_ip AND 0xFFFF) + (drop_bit 16 dst_ip AND 0xFFFF) + (dst_ip AND 0xFFFF) +
                ucast (htons 6) + ucast (htons (word_of_nat (length tcp_hdr)))
      in ucast (NOT (fold16 (sum_words acc tcp_hdr))))"

text \<open>The TCP header before the checksum field, and the segment with a given checksum field.\<close>

definition tcp_front :: "tcp_conn \<Rightarrow> u8 \<Rightarrow> bytes" where
  "tcp_front conn flags = put_be16 (local_port conn) @ put_be16 (remote_port conn) @ put_be32 (seq_num conn) @
     put_be32 (ack_num conn) @ [0x50, flags] @ put_be16 0xFFFF"

definition tcp_segment :: "tcp_conn \<Rightarrow> u8 \<Rightarrow> bytes \<Rightarrow> bytes \<Rightarrow> bytes" where
  "tcp_segment conn flags ck data = tcp_front conn flags @ ck @ put16 0 @ data"

definition tcp_header :: "tcp_conn \<Rightarrow> u16 \<Rightarrow> bytes \<Rightarrow> ip_header" where
  "tcp_header conn ident data = \<lparr>eth_dst = remote_mac conn, eth_src = local_mac conn,
     ip_len = 20 + (20 + word_of_nat (length data)), ip_id = ident, ip_frag = 0x4000, ip_proto = 6,
     ip_src = local_ip conn, ip_dst = remote_ip conn\<rparr>"

definition tcp_wire :: "tcp_conn \<Rightarrow> u16 \<Rightarrow> u8 \<Rightarrow> bytes \<Rightarrow> bytes" where
  "tcp_wire conn ident flags data =
     (let h = tcp_header conn ident data;
          ck = tcp_checksum (htonl (local_ip conn)) (htonl (remote_ip conn)) (tcp_segment conn flags [0, 0] data)
      in pad60 (eth_bytes h @ ip_bytes h @ tcp_segment conn flags (put16 ck) data))"

definition send_tcp_frame :: "netdev \<Rightarrow> tcp_conn \<Rightarrow> u8 \<Rightarrow> bytes \<Rightarrow> tcp_mod \<Rightarrow> tcp_mod" where
  "send_tcp_frame dev conn flags data st =
     (if \<not> has_tx dev then st
      else st\<lparr>g_ip_id := g_ip_id st + 1, tnic := net_tx (tcp_wire conn (g_ip_id st) flags data) (tnic st)\<rparr>)"

text \<open>What reception extracts from a frame of the connection.\<close>

record segment =
  r_flags :: u8
  r_seq :: u32
  r_ack :: u32
  r_len :: nat
  r_data :: bytes

text \<open>
  The checks and the extraction; the maximum is \<open>None\<close> when the caller passed no buffer. The result is \<open>None\<close> when
  the frame is skipped.
\<close>

definition tcp_parse :: "tcp_conn \<Rightarrow> nat option \<Rightarrow> bytes \<Rightarrow> segment option" where
  "tcp_parse conn max_payload f =
     (if length f < 54 then None
      else if be16 12 f \<noteq> 0x0800 then None
      else if f ! 23 \<noteq> 6 then None
      else if be32 26 f \<noteq> remote_ip conn then None
      else if be32 30 f \<noteq> local_ip conn then None
      else if be16 34 f \<noteq> remote_port conn then None
      else if be16 36 f \<noteq> local_port conn then None
      else
        let ip_hdr_len = unat (f ! 14 AND 0x0F) * 4;
            tcp_hdr_len = unat (drop_bit 4 (f ! 46)) * 4;
            hdr_total = 14 + ip_hdr_len + tcp_hdr_len;
            payload_len = length f - hdr_total;
            ip_payload = unat (be16 16 f) - ip_hdr_len - tcp_hdr_len;
            payload_len = min payload_len ip_payload;
            copy_len = (case max_payload of None \<Rightarrow> 0 | Some m \<Rightarrow> min payload_len m)
        in Some \<lparr>r_flags = f ! 47, r_seq = be32 38 f, r_ack = be32 42 f,
                 r_len = (if max_payload \<noteq> None \<and> 0 < payload_len then copy_len else payload_len),
                 r_data = slice hdr_total copy_len f\<rparr>)"

partial_function (option) recv_wait ::
  "netdev \<Rightarrow> tcp_conn \<Rightarrow> nat option \<Rightarrow> u64 \<Rightarrow> tcp_mod \<Rightarrow> (segment option \<times> tcp_mod) option" where
  "recv_wait dev conn max_payload deadline st =
     (let (now, st) = timer_ms dev st
      in if now < deadline then
           let (f, st) = receive dev st
           in (case (if f = [] then None else tcp_parse conn max_payload f) of
                 None \<Rightarrow> recv_wait dev conn max_payload deadline st
               | Some sg \<Rightarrow> Some (Some sg, st))
         else Some (None, st))"

definition recv_tcp_frame ::
  "netdev \<Rightarrow> tcp_conn \<Rightarrow> nat option \<Rightarrow> u32 \<Rightarrow> tcp_mod \<Rightarrow> (segment option \<times> tcp_mod) option" where
  "recv_tcp_frame dev conn max_payload timeout st =
     (if \<not> has_rx dev then Some (None, st)
      else let (now, st) = timer_ms dev st in recv_wait dev conn max_payload (now + ucast timeout) st)"

section \<open>Address resolution\<close>

definition arp_request :: "u32 \<Rightarrow> tcp_mod \<Rightarrow> bytes" where
  "arp_request target st = replicate 6 0xFF @ g_local_mac st @ put_be16 0x0806 @ put_be16 1 @ put_be16 0x0800 @ [6, 4] @
     put_be16 1 @ g_local_mac st @ put_be32 (g_local_ip st) @ replicate 6 0 @ put_be32 target"

text \<open>The address a frame gives for the target, if it is a reply for it.\<close>

definition arp_reply :: "u32 \<Rightarrow> bytes \<Rightarrow> bytes option" where
  "arp_reply target f =
     (if length f < 42 then None
      else if be16 12 f \<noteq> 0x0806 then None
      else if be16 20 f \<noteq> 2 then None
      else if be32 28 f \<noteq> target then None
      else Some (slice 22 6 f))"

partial_function (option) arp_wait :: "netdev \<Rightarrow> u32 \<Rightarrow> u64 \<Rightarrow> tcp_mod \<Rightarrow> (bytes option \<times> tcp_mod) option" where
  "arp_wait dev target deadline st =
     (let (now, st) = timer_ms dev st
      in if now < deadline then
           let (f, st) = receive dev st
           in (case (if f = [] then None else arp_reply target f) of
                 None \<Rightarrow> arp_wait dev target deadline st
               | Some mac \<Rightarrow> Some (Some mac, st))
         else Some (None, st))"

fun arp_attempts :: "netdev \<Rightarrow> u32 \<Rightarrow> nat \<Rightarrow> tcp_mod \<Rightarrow> (bytes option \<times> tcp_mod) option" where
  "arp_attempts dev target 0 st = Some (None, st)"
| "arp_attempts dev target (Suc n) st =
     (let st = st\<lparr>tnic := net_tx (arp_request target st) (tnic st)\<rparr>;
          (now, st) = timer_ms dev st
      in do { (r, st) \<leftarrow> arp_wait dev target (now + 2000) st;
              case r of Some mac \<Rightarrow> Some (Some mac, st) | None \<Rightarrow> arp_attempts dev target n st })"

definition arp_resolve :: "netdev \<Rightarrow> u32 \<Rightarrow> tcp_mod \<Rightarrow> ((hal_status \<times> bytes option) \<times> tcp_mod) option" where
  "arp_resolve dev target st =
     (if \<not> has_tx dev \<or> \<not> has_rx dev then Some ((HAL_NO_DEVICE, None), st)
      else do { (r, st) \<leftarrow> arp_attempts dev target 3 st;
                Some ((if r = None then HAL_TIMEOUT else HAL_OK, r), st) })"

section \<open>Connections\<close>

definition tcp_init :: "netdev \<Rightarrow> u32 \<Rightarrow> u32 \<Rightarrow> u32 \<Rightarrow> tcp_mod \<Rightarrow> tcp_mod" where
  "tcp_init dev ip gw nmask st =
     (let (ns, st) = timer_ns dev (st\<lparr>g_local_ip := ip, g_gateway := gw, g_netmask := nmask\<rparr>);
          st = st\<lparr>g_ip_id := ucast ns\<rparr>
      in if has_get_mac dev then st\<lparr>g_local_mac := dev_mac dev\<rparr> else st)"

definition next_hop :: "u32 \<Rightarrow> tcp_mod \<Rightarrow> u32" where
  "next_hop ip st = (if ip AND g_netmask st = g_local_ip st AND g_netmask st then ip else g_gateway st)"

text \<open>The wait for the answer to the SYN, with its retransmissions.\<close>

fun await_synack :: "netdev \<Rightarrow> nat \<Rightarrow> tcp_conn \<Rightarrow> tcp_mod \<Rightarrow> (hal_status \<times> tcp_conn \<times> tcp_mod) option" where
  "await_synack dev 0 conn st = Some (HAL_TIMEOUT, conn\<lparr>state := TCP_CLOSED\<rparr>, st)"
| "await_synack dev (Suc n) conn st =
     do { (r, st) \<leftarrow> recv_tcp_frame dev conn None 5000 st;
          case r of
            None \<Rightarrow>
              let st = send_tcp_frame dev (conn\<lparr>seq_num := seq_num conn - 1\<rparr>) TCP_SYN [] st
              in await_synack dev n (conn\<lparr>seq_num := seq_num conn - 1 + 1\<rparr>) st
          | Some sg \<Rightarrow>
              if r_flags sg AND TCP_RST \<noteq> 0 then Some (HAL_ERROR, conn\<lparr>state := TCP_CLOSED\<rparr>, st)
              else if r_flags sg AND (TCP_SYN OR TCP_ACK) = TCP_SYN OR TCP_ACK then
                let conn = conn\<lparr>ack_num := r_seq sg + 1\<rparr>;
                    st = send_tcp_frame dev conn TCP_ACK [] st
                in Some (HAL_OK, conn\<lparr>state := TCP_ESTABLISHED\<rparr>, st)
              else await_synack dev n conn st }"

definition tcp_connect :: "netdev \<Rightarrow> u32 \<Rightarrow> u16 \<Rightarrow> tcp_mod \<Rightarrow> (hal_status \<times> tcp_conn \<times> tcp_mod) option" where
  "tcp_connect dev ip port st =
     (let (t1, st) = timer_ns dev st;
          (t2, st) = timer_ns dev st;
          conn = \<lparr>state = TCP_CLOSED, local_ip = g_local_ip st, local_port = 49152 + ucast (t1 AND 0x3FFF), remote_ip = ip,
                  remote_port = port, seq_num = ucast t2, ack_num = 0, remote_mss = word_of_nat TCP_TX_MSS,
                  local_mac = g_local_mac st, remote_mac = replicate 6 0, rx_len = 0\<rparr>
      in do { ((rc, mac), st) \<leftarrow> arp_resolve dev (next_hop ip st) st;
              case mac of
                None \<Rightarrow> Some (rc, conn, st)
              | Some m \<Rightarrow>
                  let conn = conn\<lparr>remote_mac := m, state := TCP_SYN_SENT\<rparr>;
                      st = send_tcp_frame dev conn TCP_SYN [] st;
                      conn = conn\<lparr>seq_num := seq_num conn + 1\<rparr>
                  in await_synack dev 3 conn st })"

function send_chunks :: "netdev \<Rightarrow> tcp_conn \<Rightarrow> bytes \<Rightarrow> tcp_mod \<Rightarrow> tcp_conn \<times> tcp_mod" where
  "send_chunks dev conn data st =
     (if data = [] then (conn, st)
      else let chunk = take TCP_TX_MSS data;
               st = send_tcp_frame dev conn (TCP_PSH OR TCP_ACK) chunk st
           in send_chunks dev (conn\<lparr>seq_num := seq_num conn + word_of_nat (length chunk)\<rparr>) (drop TCP_TX_MSS data) st)"
  by pat_completeness auto
termination
  by (relation "measure (\<lambda>(dev, conn, data, st). length data)") (auto simp: TCP_TX_MSS_def)

declare send_chunks.simps [simp del]

text \<open>The length is a \<^verbatim>\<open>uint32_t\<close>, the result its conversion to \<^verbatim>\<open>int32_t\<close>.\<close>

definition tcp_send :: "netdev \<Rightarrow> tcp_conn \<Rightarrow> bytes \<Rightarrow> tcp_mod \<Rightarrow> int \<times> tcp_conn \<times> tcp_mod" where
  "tcp_send dev conn data st =
     (if state conn \<noteq> TCP_ESTABLISHED then (-1, conn, st)
      else (sint (word_of_nat (length data) :: u32), send_chunks dev conn data st))"

text \<open>
  The copy of a segment behind the \<open>out\<close> bytes stored so far, with the 32-bit sum of the code; \<open>None\<close> is a copy past the
  \<open>max_len\<close> bytes of the caller's buffer.
\<close>

definition recv_copy :: "u32 \<Rightarrow> bytes \<Rightarrow> segment \<Rightarrow> bytes option" where
  "recv_copy max_len out sg =
     (let total = word_of_nat (length out);
          copy = word_of_nat (r_len sg);
          copy = (if max_len < total + copy then max_len - total else copy)
      in if length out + unat copy \<le> unat max_len then Some (out @ take (unat copy) (r_data sg)) else None)"

text \<open>
  How a call ends: with the value returned and the bytes stored, or with a copy past the caller's buffer. The loop is over
  the clock; \<open>out\<close> is what has been stored so far and its length is \<^verbatim>\<open>total\<close>.
\<close>

datatype tcp_got = Got int bytes | Past_buffer

partial_function (option) recv_data ::
  "netdev \<Rightarrow> u32 \<Rightarrow> u64 \<Rightarrow> tcp_conn \<Rightarrow> bytes \<Rightarrow> bool \<Rightarrow> tcp_mod \<Rightarrow> (tcp_got \<times> tcp_conn \<times> tcp_mod) option" where
  "recv_data dev max_len deadline conn out got_data st =
     (let (now, st) = timer_ms dev st;
          total = word_of_nat (length out) :: u32
      in if now < deadline \<and> total < max_len then
           let (now, st) = timer_ms dev st;
               remain = ucast (deadline - now) :: u32;
               poll_timeout = (if remain < 200 then remain else 200)
           in Option.bind (recv_tcp_frame dev conn (Some 1460) poll_timeout st) (\<lambda>(r, st).
                case r of
                  None \<Rightarrow>
                    if got_data then Some (Got (sint total) out, conn, st)
                    else recv_data dev max_len deadline conn out got_data st
                | Some sg \<Rightarrow>
                    if r_flags sg AND TCP_RST \<noteq> 0 then
                      Some (Got (if 0 < total then sint total else -1) out, conn\<lparr>state := TCP_CLOSED\<rparr>, st)
                    else if r_flags sg AND TCP_FIN \<noteq> 0 then
                      let conn = conn\<lparr>ack_num := r_seq sg + word_of_nat (r_len sg) + 1\<rparr>;
                          st = send_tcp_frame dev conn TCP_ACK [] st;
                          conn = conn\<lparr>state := TCP_CLOSE_WAIT\<rparr>
                      in (case (if 0 < r_len sg then recv_copy max_len out sg else Some out) of
                            None \<Rightarrow> Some (Past_buffer, conn, st)
                          | Some out \<Rightarrow> Some (Got (sint (word_of_nat (length out) :: u32)) out, conn, st))
                    else if 0 < r_len sg then
                      let conn = conn\<lparr>ack_num := r_seq sg + word_of_nat (r_len sg)\<rparr>
                      in (case recv_copy max_len out sg of
                            None \<Rightarrow> Some (Past_buffer, conn, st)
                          | Some out \<Rightarrow>
                              recv_data dev max_len deadline conn out True (send_tcp_frame dev conn TCP_ACK [] st))
                    else recv_data dev max_len deadline conn out got_data st)
         else Some (Got (sint total) out, conn, st))"

definition tcp_recv ::
  "netdev \<Rightarrow> tcp_conn \<Rightarrow> u32 \<Rightarrow> u32 \<Rightarrow> tcp_mod \<Rightarrow> (tcp_got \<times> tcp_conn \<times> tcp_mod) option" where
  "tcp_recv dev conn max_len timeout st =
     (if state conn \<noteq> TCP_ESTABLISHED \<and> state conn \<noteq> TCP_CLOSE_WAIT then Some (Got (-1) [], conn, st)
      else let (now, st) = timer_ms dev st in recv_data dev max_len (now + ucast timeout) conn [] False st)"

text \<open>The wait for the peer's FIN, at most five frames or timeouts.\<close>

fun await_fin :: "netdev \<Rightarrow> nat \<Rightarrow> tcp_conn \<Rightarrow> tcp_mod \<Rightarrow> (tcp_conn \<times> tcp_mod) option" where
  "await_fin dev 0 conn st = Some (conn, st)"
| "await_fin dev (Suc n) conn st =
     do { (r, st) \<leftarrow> recv_tcp_frame dev conn None 1000 st;
          case r of
            None \<Rightarrow> await_fin dev n conn st
          | Some sg \<Rightarrow>
              if r_flags sg AND TCP_RST \<noteq> 0 then Some (conn, st)
              else if r_flags sg AND TCP_FIN \<noteq> 0 then
                let conn = conn\<lparr>ack_num := r_seq sg + 1\<rparr> in Some (conn, send_tcp_frame dev conn TCP_ACK [] st)
              else if r_flags sg AND TCP_ACK \<noteq> 0 then await_fin dev n (conn\<lparr>state := TCP_FIN_WAIT_2\<rparr>) st
              else await_fin dev n conn st }"

definition tcp_close :: "netdev \<Rightarrow> tcp_conn \<Rightarrow> tcp_mod \<Rightarrow> (tcp_conn \<times> tcp_mod) option" where
  "tcp_close dev conn st =
     do { (conn, st) \<leftarrow>
            (if state conn = TCP_ESTABLISHED then
               let st = send_tcp_frame dev conn (TCP_FIN OR TCP_ACK) [] st
               in await_fin dev 5 (conn\<lparr>seq_num := seq_num conn + 1, state := TCP_FIN_WAIT_1\<rparr>) st
             else if state conn = TCP_CLOSE_WAIT then
               let st = send_tcp_frame dev conn (TCP_FIN OR TCP_ACK) [] st;
                   conn = conn\<lparr>seq_num := seq_num conn + 1\<rparr>
               in do { (r, st) \<leftarrow> recv_tcp_frame dev conn None 2000 st; Some (conn, st) }
             else Some (conn, st));
          Some (conn\<lparr>state := TCP_CLOSED\<rparr>, st) }"

section \<open>Checksums\<close>

text \<open>The pseudo-header of RFC 793 in wire order.\<close>

definition pseudo :: "u32 \<Rightarrow> u32 \<Rightarrow> nat \<Rightarrow> bytes" where
  "pseudo src dst n = put_be32 src @ put_be32 dst @ put_be16 6 @ put_be16 (word_of_nat n)"

lemma word_sum_put16_app: "word_sum (put16 w @ bs) = unat w + word_sum bs"
  by (simp add: word_sum_append word_sum_put16)

lemma word_sum_put32: "word_sum (put32 w @ bs) = unat w mod 65536 + unat w div 65536 + word_sum bs"
proof -
  have p: "put32 w = le_bytes 2 (unat w) @ le_bytes 2 (unat w div 65536)"
    using le_bytes_split [of 2 2 "unat w"] by (simp add: put32_def)
  have two: "word_sum (le_bytes 2 v @ bs) = v mod 65536 + word_sum bs" for v bs
  proof -
    have "le_bytes 2 v = [word_of_nat v, word_of_nat (v div 256)]" by (simp add: numeral_2_eq_2)
    moreover have "unat (word_of_nat v :: u8) + 256 * unat (word_of_nat (v div 256) :: u8) = v mod 65536"
      using le_val_le_bytes [of 2 v] calculation by simp
    ultimately show ?thesis by simp
  qed
  have "unat w div 65536 < 65536" using unat_u32_lt [of w] by (simp add: less_mult_imp_div_less)
  then show ?thesis by (simp add: p two)
qed

lemma tcp_checksum_pseudo:
  "tcp_checksum (htonl src) (htonl dst) seg = ip_checksum (pseudo src dst (length seg) @ seg)"
proof -
  let ?a = "htonl src" and ?b = "htonl dst" and ?l = "htons (word_of_nat (length seg))"
  let ?acc = "(drop_bit 16 ?a AND 0xFFFF) + (?a AND 0xFFFF) + (drop_bit 16 ?b AND 0xFFFF) + (?b AND 0xFFFF) +
      ucast (htons 6) + ucast ?l :: u32"
  have h: "unat (drop_bit 16 w) mod 65536 = unat w div 65536" for w :: u32
    using unat_u32_lt [of w] by (simp add: unat_high16 less_mult_imp_div_less)
  have u: "unat (ucast (v :: u16) :: u32) = unat v" for v
    using unat_u16_lt [of v] by (simp add: unsigned_ucast_eq take_bit_eq_mod)
  have acc: "unat ?acc mod 2 ^ 32 = (unat ?a div 65536 + unat ?a mod 65536 + unat ?b div 65536 + unat ?b mod 65536 +
      unat (htons 6) + unat ?l) mod 2 ^ 32"
    by (simp add: unat_word_ariths h u unat_low16 mod_add_left_eq mod_add_right_eq)
  have "word_sum (pseudo src dst (length seg) @ seg) =
      unat ?a div 65536 + unat ?a mod 65536 + unat ?b div 65536 + unat ?b mod 65536 + unat (htons 6) + unat ?l + word_sum seg"
    by (simp add: pseudo_def put_be32_def put_be16_def word_sum_put16_app word_sum_put32)
  then have "unat (sum_words 0 (pseudo src dst (length seg) @ seg)) = unat (sum_words ?acc seg)"
    unfolding unat_sum_words unat_0 add_0 using mod_add_cong [OF acc refl [of "word_sum seg mod 2 ^ 32"]] by (simp only:)
  then have "sum_words 0 (pseudo src dst (length seg) @ seg) = sum_words ?acc seg" by (simp only: word_unat_eq_iff)
  then show ?thesis by (simp add: tcp_checksum_def ip_checksum_def Let_def)
qed

lemma length_tcp_front [simp]: "length (tcp_front conn flags) = 16"
  by (simp add: tcp_front_def)

lemma length_tcp_segment [simp]: "length (tcp_segment conn flags ck data) = 18 + length ck + length data"
  by (simp add: tcp_segment_def)

definition wire_checksum :: "tcp_conn \<Rightarrow> u8 \<Rightarrow> bytes \<Rightarrow> u16" where
  "wire_checksum conn flags data =
     tcp_checksum (htonl (local_ip conn)) (htonl (remote_ip conn)) (tcp_segment conn flags [0, 0] data)"

lemma segment_verifies:
  assumes "length data \<le> 1460"
  shows "ip_checksum (pseudo (local_ip conn) (remote_ip conn) (20 + length data) @
    tcp_segment conn flags (put16 (wire_checksum conn flags data)) data) = 0"
proof -
  let ?p = "pseudo (local_ip conn) (remote_ip conn) (20 + length data) @ tcp_front conn flags"
  have l: "length (pseudo a b n) = 12" for a b n by (simp add: pseudo_def)
  have w: "wire_checksum conn flags data = ip_checksum (?p @ [0, 0] @ put16 0 @ data)"
    by (simp add: wire_checksum_def tcp_checksum_pseudo tcp_segment_def add.commute)
  have "ip_checksum (?p @ put16 (ip_checksum (?p @ [0, 0] @ put16 0 @ data)) @ put16 0 @ data) = 0"
    by (rule ip_checksum_verifies) (use assms l in simp_all)
  then show ?thesis by (simp add: w tcp_segment_def)
qed

section \<open>What is sent is what is received\<close>

lemma segment_fields:
  "be16 0 (tcp_segment conn flags ck data @ bs) = local_port conn"
  "be16 2 (tcp_segment conn flags ck data @ bs) = remote_port conn"
  "be32 4 (tcp_segment conn flags ck data @ bs) = seq_num conn"
  "be32 8 (tcp_segment conn flags ck data @ bs) = ack_num conn"
  "(tcp_segment conn flags ck data @ bs) ! 12 = 0x50"
  "(tcp_segment conn flags ck data @ bs) ! 13 = flags"
proof -
  let ?lp = "put_be16 (local_port conn)" and ?rp = "put_be16 (remote_port conn)"
    and ?sq = "put_be32 (seq_num conn)" and ?ak = "put_be32 (ack_num conn)"
  let ?t = "[0x50, flags] @ put_be16 0xFFFF @ ck @ put16 0 @ data @ bs"
  have e: "tcp_segment conn flags ck data @ bs = ?lp @ ?rp @ ?sq @ ?ak @ ?t"
    by (simp add: tcp_segment_def tcp_front_def)
  show "be16 0 (tcp_segment conn flags ck data @ bs) = local_port conn" by (simp add: e)
  show "be16 2 (tcp_segment conn flags ck data @ bs) = remote_port conn"
    unfolding e using be_skip(1) [of ?lp 2 "?rp @ ?sq @ ?ak @ ?t"] by simp
  show "be32 4 (tcp_segment conn flags ck data @ bs) = seq_num conn"
    unfolding e using be_skip(2) [of "?lp @ ?rp" 4 "?sq @ ?ak @ ?t"] by simp
  show "be32 8 (tcp_segment conn flags ck data @ bs) = ack_num conn"
    unfolding e using be_skip(2) [of "?lp @ ?rp @ ?sq" 8 "?ak @ ?t"] by simp
  show "(tcp_segment conn flags ck data @ bs) ! 12 = 0x50" "(tcp_segment conn flags ck data @ bs) ! 13 = flags"
    unfolding e by (simp_all add: nth_append)
qed

text \<open>The other end of a connection.\<close>

definition peer_of :: "tcp_conn \<Rightarrow> tcp_conn \<Rightarrow> bool" where
  "peer_of conn p \<longleftrightarrow> remote_ip p = local_ip conn \<and> local_ip p = remote_ip conn \<and>
     remote_port p = local_port conn \<and> local_port p = remote_port conn"

definition conn_macs :: "tcp_conn \<Rightarrow> bool" where
  "conn_macs conn \<longleftrightarrow> length (local_mac conn) = 6 \<and> length (remote_mac conn) = 6"

lemma wire_split:
  assumes "conn_macs conn" "h = tcp_header conn ident data"
  shows "\<exists>pad. tcp_wire conn ident flags data =
      eth_bytes h @ ip_bytes h @ tcp_segment conn flags (put16 (wire_checksum conn flags data)) data @ pad \<and> macs_ok h \<and>
    length (eth_bytes h @ ip_bytes h) = 34"
proof -
  have "macs_ok h" using assms by (simp add: macs_ok_def tcp_header_def conn_macs_def)
  then show ?thesis by (simp add: tcp_wire_def pad60_def Let_def wire_checksum_def assms(2))
qed

lemma header_len:
  assumes "length data \<le> 1460"
  shows "unat (ip_len (tcp_header conn ident data)) = 40 + length data"
proof -
  have e: "ip_len (tcp_header conn ident data) = word_of_nat (40 + length data)" by (simp add: tcp_header_def)
  have "40 + length data < 65536" using assms by simp
  then show ?thesis unfolding e by (simp only: unat_of_nat) simp
qed

lemma frame_roundtrip:
  assumes "conn_macs conn" "peer_of conn p" "length data \<le> 1460"
  shows "tcp_parse p (Some 1460) (tcp_wire conn ident flags data) =
      Some \<lparr>r_flags = flags, r_seq = seq_num conn, r_ack = ack_num conn, r_len = length data, r_data = data\<rparr> \<and>
    ip_checksum (slice 14 20 (tcp_wire conn ident flags data)) = 0 \<and>
    ip_checksum (pseudo (local_ip conn) (remote_ip conn) (20 + length data) @
      slice 34 (20 + length data) (tcp_wire conn ident flags data)) = 0"
proof -
  define h where "h = tcp_header conn ident data"
  define sg where "sg = tcp_segment conn flags (put16 (wire_checksum conn flags data)) data"
  obtain pad where w: "tcp_wire conn ident flags data = eth_bytes h @ ip_bytes h @ sg @ pad" "macs_ok h"
      "length (eth_bytes h @ ip_bytes h) = 34"
    using wire_split [OF assms(1) h_def, of flags] unfolding sg_def by blast
  let ?f = "eth_bytes h @ ip_bytes h @ sg @ pad"
  have ls: "length sg = 20 + length data" by (simp add: sg_def)
  have l: "length ?f = 54 + length data + length pad" using w(3) ls by simp
  have s: "be16 34 ?f = local_port conn" "be16 36 ?f = remote_port conn" "be32 38 ?f = seq_num conn"
      "be32 42 ?f = ack_num conn" "?f ! 46 = 0x50" "?f ! 47 = flags"
    using be_skip(1) [of "eth_bytes h @ ip_bytes h" 34 "sg @ pad"] be_skip(1) [of "eth_bytes h @ ip_bytes h" 36 "sg @ pad"]
      be_skip(2) [of "eth_bytes h @ ip_bytes h" 38 "sg @ pad"] be_skip(2) [of "eth_bytes h @ ip_bytes h" 42 "sg @ pad"]
      nth_append [of "eth_bytes h @ ip_bytes h" "sg @ pad" 46] nth_append [of "eth_bytes h @ ip_bytes h" "sg @ pad" 47]
      w(3) segment_fields [of conn flags "put16 (wire_checksum conn flags data)" data pad]
    by (simp_all add: sg_def)
  have hf: "ip_src h = local_ip conn" "ip_dst h = remote_ip conn" "ip_proto h = 6"
    by (simp_all add: h_def tcp_header_def)
  note f = frame_fields [OF w(2)]
  have d: "slice 54 (length data) ?f = data"
    using w(3) by (simp add: slice_def sg_def tcp_segment_def)
  have "tcp_parse p (Some 1460) ?f =
      Some \<lparr>r_flags = flags, r_seq = seq_num conn, r_ack = ack_num conn, r_len = length data, r_data = data\<rparr>"
    using assms(2,3) header_len [OF assms(3), of conn ident] l s f d hf
    by (simp add: tcp_parse_def peer_of_def Let_def flip: h_def)
  moreover have "slice 14 20 ?f = ip_bytes h" "slice 34 (20 + length data) ?f = sg"
    using w(2,3) ls by (simp_all add: slice_def)
  ultimately show ?thesis
    using ip_header_verifies [of h] segment_verifies [OF assms(3), of conn flags] w(1) by (simp add: sg_def)
qed

text \<open>
  C30. A frame the client sends on a connection is one that the other end accepts, with the same flags, sequence
  and acknowledgement numbers and exactly the same data, without the padding of short frames; the checksum of its
  IP header and the checksum of its segment with the pseudo-header both verify.
\<close>

theorem tcp_frame_roundtrip:
  assumes "conn_macs conn" "peer_of conn p" "length data \<le> 1460"
  shows "tcp_parse p (Some 1460) (tcp_wire conn ident flags data) =
      Some \<lparr>r_flags = flags, r_seq = seq_num conn, r_ack = ack_num conn, r_len = length data, r_data = data\<rparr> \<and>
    ip_checksum (slice 14 20 (tcp_wire conn ident flags data)) = 0 \<and>
    ip_checksum (pseudo (local_ip conn) (remote_ip conn) (20 + length data) @
      slice 34 (20 + length data) (tcp_wire conn ident flags data)) = 0"
  using assms by (rule frame_roundtrip)

definition sample_conn :: tcp_conn where
  "sample_conn = \<lparr>state = TCP_ESTABLISHED, local_ip = 0x0A000005, local_port = 49200, remote_ip = 0x0A000001, remote_port = 80,
     seq_num = 100, ack_num = 200, remote_mss = 1460, local_mac = replicate 6 1, remote_mac = replicate 6 2, rx_len = 0\<rparr>"

definition sample_peer :: tcp_conn where
  "sample_peer = sample_conn\<lparr>local_ip := 0x0A000001, local_port := 80, remote_ip := 0x0A000005, remote_port := 49200\<rparr>"

theorem tcp_frame_roundtrip_witness:
  "tcp_parse sample_peer (Some 1460) (tcp_wire sample_conn 7 0x18 [0x47, 0x45, 0x54]) =
     Some \<lparr>r_flags = 0x18, r_seq = 100, r_ack = 200, r_len = 3, r_data = [0x47, 0x45, 0x54]\<rparr>"
  using tcp_frame_roundtrip [of sample_conn sample_peer "[0x47, 0x45, 0x54]" 7 "0x18"]
  by (simp add: sample_conn_def sample_peer_def conn_macs_def peer_of_def)

section \<open>Sending\<close>

text \<open>The segments of a stream from a sequence number on.\<close>

fun in_order :: "u32 \<Rightarrow> segment list \<Rightarrow> bool" where
  "in_order n [] \<longleftrightarrow> True"
| "in_order n (sg # sgs) \<longleftrightarrow> r_seq sg = n \<and> r_data sg \<noteq> [] \<and> length (r_data sg) \<le> TCP_TX_MSS \<and>
     in_order (n + word_of_nat (length (r_data sg))) sgs"

lemma send_frame_sent:
  "has_tx dev \<Longrightarrow> sent (tnic (send_tcp_frame dev conn flags data st)) = sent (tnic st) @ [tcp_wire conn (g_ip_id st) flags data]"
  by (simp add: send_tcp_frame_def net_tx_def)

lemma chunks_delivered:
  assumes "has_tx dev" "conn_macs conn" "peer_of conn p"
  shows "\<exists>frames sgs. sent (tnic (snd (send_chunks dev conn data st))) = sent (tnic st) @ frames \<and>
    map (tcp_parse p (Some 1460)) frames = map Some sgs \<and> in_order (seq_num conn) sgs \<and> concat (map r_data sgs) = data \<and>
    list_all (\<lambda>sg. r_ack sg = ack_num conn \<and> r_flags sg = 0x18) sgs \<and>
    fst (send_chunks dev conn data st) = conn\<lparr>seq_num := seq_num conn + word_of_nat (length data)\<rparr>"
  using assms
proof (induction dev conn data st rule: send_chunks.induct)
  case (1 dev conn data st)
  show ?case
  proof (cases "data = []")
    case True
    then show ?thesis by (simp add: send_chunks.simps)
  next
    case False
    let ?c = "take TCP_TX_MSS data" and ?rest = "drop TCP_TX_MSS data"
    let ?st = "send_tcp_frame dev conn 0x18 ?c st"
    let ?conn = "conn\<lparr>seq_num := seq_num conn + word_of_nat (length ?c)\<rparr>"
    have c: "length ?c \<le> 1460" "?c \<noteq> []" using False by (auto simp: TCP_TX_MSS_def)
    have p: "conn_macs ?conn" "peer_of ?conn p" using "1.prems" by (simp_all add: conn_macs_def peer_of_def)
    obtain frames sgs where f: "sent (tnic (snd (send_chunks dev ?conn ?rest ?st))) = sent (tnic ?st) @ frames"
        "map (tcp_parse p (Some 1460)) frames = map Some sgs" "in_order (seq_num ?conn) sgs" "concat (map r_data sgs) = ?rest"
        "list_all (\<lambda>sg. r_ack sg = ack_num ?conn \<and> r_flags sg = 0x18) sgs"
        "fst (send_chunks dev ?conn ?rest ?st) = ?conn\<lparr>seq_num := seq_num ?conn + word_of_nat (length ?rest)\<rparr>"
      using "1.IH" [OF False refl, of ?st] "1.prems"(1) p by auto
    let ?w = "tcp_wire conn (g_ip_id st) 0x18 ?c"
    let ?sg = "\<lparr>r_flags = 0x18, r_seq = seq_num conn, r_ack = ack_num conn, r_len = length ?c, r_data = ?c\<rparr>"
    have "tcp_parse p (Some 1460) ?w = Some ?sg" using frame_roundtrip [OF "1.prems"(2,3) c(1)] by simp
    moreover have "send_chunks dev conn data st = send_chunks dev ?conn ?rest ?st"
      using False by (subst send_chunks.simps) simp
    moreover have "seq_num conn + word_of_nat (length ?c) + word_of_nat (length ?rest) = seq_num conn + word_of_nat (length data)"
    proof -
      have "length ?c + length ?rest = length data" by simp
      then show ?thesis by (metis add.assoc of_nat_add)
    qed
    ultimately show ?thesis
      using f c send_frame_sent [OF "1.prems"(1), of conn "0x18" ?c st]
      by (intro exI [of _ "?w # frames"] exI [of _ "?sg # sgs"]) (simp add: TCP_TX_MSS_def)
  qed
qed

lemma sint_of_length:
  "n < 2 ^ 31 \<Longrightarrow> sint (word_of_nat n :: u32) = int n"
  "2 ^ 31 \<le> n \<Longrightarrow> n < 2 ^ 32 \<Longrightarrow> sint (word_of_nat n :: u32) = int n - 2 ^ 32"
proof -
  show "sint (word_of_nat n :: u32) = int n" if "n < 2 ^ 31"
    using that by (simp add: signed_of_nat signed_take_bit_int_eq_self_iff)
  assume n: "2 ^ 31 \<le> n" "n < 2 ^ 32"
  have "(int n + 2147483648) mod 4294967296 = (int n - 2147483648) mod 4294967296"
    using minus_mod_self2 [of "int n + 2147483648" 4294967296] by simp
  also have "\<dots> = int n - 2147483648" using n by simp
  finally show "sint (word_of_nat n :: u32) = int n - 2 ^ 32"
    by (simp add: signed_of_nat signed_take_bit_eq_take_bit_shift take_bit_eq_mod)
qed

text \<open>
  C11. Sending less than 4 GiB on an established connection terminates and returns the number of bytes, as a signed 32-bit
  value that is negative from 2 GiB on. The frames it puts on the wire, read by the other end, are segments of at most
  1460 bytes that carry the data in order, each starting at the sequence number after the one before it, modulo 2^32;
  the connection's own number ends behind the last byte.
\<close>

theorem tcp_send_delivers:
  assumes "state conn = TCP_ESTABLISHED" "has_tx dev" "conn_macs conn" "peer_of conn p" "length data < 2 ^ 32"
  shows "\<exists>ret conn' st' frames sgs. tcp_send dev conn data st = (ret, conn', st') \<and>
    ret = (if length data < 2 ^ 31 then int (length data) else int (length data) - 2 ^ 32) \<and>
    sent (tnic st') = sent (tnic st) @ frames \<and> map (tcp_parse p (Some 1460)) frames = map Some sgs \<and>
    in_order (seq_num conn) sgs \<and> concat (map r_data sgs) = data \<and>
    conn' = conn\<lparr>seq_num := seq_num conn + word_of_nat (length data)\<rparr>"
  using chunks_delivered [OF assms(2-4), of data st] assms(1,5) sint_of_length [of "length data"]
  by (cases "send_chunks dev conn data st") (auto simp: tcp_send_def)

definition sample_mod :: tcp_mod where
  "sample_mod = \<lparr>g_local_ip = 0x0A000005, g_gateway = 0x0A000001, g_netmask = 0xFFFFFF00, g_local_mac = replicate 6 1,
     g_ip_id = 1, tnic = \<lparr>ticks = 0, polls = 0, sent = []\<rparr>\<rparr>"

definition sample_dev :: netdev where
  "sample_dev = \<lparr>has_tx = True, has_rx = True, has_get_mac = True, dev_mac = replicate 6 1, clock_ns = (\<lambda>_. 0), rx_frame = (\<lambda>_. [])\<rparr>"

text \<open>Two segments, with the sequence number wrapping around.\<close>

theorem tcp_send_delivers_witness:
  "\<exists>conn' st' frames sgs.
     tcp_send sample_dev (sample_conn\<lparr>seq_num := 0xFFFFFFFF\<rparr>) (replicate 2000 0x41) sample_mod = (2000, conn', st') \<and>
     map (tcp_parse sample_peer (Some 1460)) frames = map Some sgs \<and> sent (tnic st') = frames \<and>
     in_order 0xFFFFFFFF sgs \<and> concat (map r_data sgs) = replicate 2000 0x41 \<and> seq_num conn' = 1999"
proof -
  have "state (sample_conn\<lparr>seq_num := 0xFFFFFFFF\<rparr>) = TCP_ESTABLISHED" "has_tx sample_dev"
      "conn_macs (sample_conn\<lparr>seq_num := 0xFFFFFFFF\<rparr>)" "peer_of (sample_conn\<lparr>seq_num := 0xFFFFFFFF\<rparr>) sample_peer"
    by (simp_all add: sample_conn_def sample_dev_def conn_macs_def peer_of_def sample_peer_def)
  from tcp_send_delivers [OF this, of "replicate 2000 0x41" sample_mod] show ?thesis
    by (auto simp: sample_mod_def)
qed

section \<open>Frames of a connection\<close>

lemma timer_eq: "timer_ms dev st = (clock_ms dev (ticks (tnic st)), st\<lparr>tnic := (tnic st)\<lparr>ticks := ticks (tnic st) + 1\<rparr>\<rparr>)"
  by (simp add: timer_ms_def timer_ms_eq)

lemma receive_eq: "receive dev st = (rx_frame dev (polls (tnic st)), st\<lparr>tnic := (tnic st)\<lparr>polls := polls (tnic st) + 1\<rparr>\<rparr>)"
  by (simp add: receive_def net_rx_def)

text \<open>
  What the headers of a frame say, independently of the receiver: that it is a TCP segment between the two ends of a
  connection, and the bytes behind its headers within the IP length, at most 1460.
\<close>

definition on_connection :: "tcp_conn \<Rightarrow> bytes \<Rightarrow> bool" where
  "on_connection conn f \<longleftrightarrow> 54 \<le> length f \<and> be16 12 f = 0x0800 \<and> f ! 23 = 6 \<and>
     be32 26 f = remote_ip conn \<and> be32 30 f = local_ip conn \<and> be16 34 f = remote_port conn \<and> be16 36 f = local_port conn"

definition headers_len :: "bytes \<Rightarrow> nat" where
  "headers_len f = unat (f ! 14 AND 0x0F) * 4 + unat (drop_bit 4 (f ! 46)) * 4"

definition payload :: "bytes \<Rightarrow> bytes" where
  "payload f = take 1460 (take (unat (be16 16 f) - headers_len f) (drop (14 + headers_len f) f))"

text \<open>An ARP reply that gives the hardware address of an IP address.\<close>

definition arp_answers :: "u32 \<Rightarrow> bytes \<Rightarrow> bool" where
  "arp_answers target f \<longleftrightarrow> 42 \<le> length f \<and> be16 12 f = 0x0806 \<and> be16 20 f = 2 \<and> be32 28 f = target"

lemma parse_accepts:
  "tcp_parse conn mx f = None \<longleftrightarrow> \<not> on_connection conn f"
  "tcp_parse conn mx f = Some sg \<Longrightarrow> on_connection conn f \<and> r_flags sg = f ! 47 \<and> r_seq sg = be32 38 f"
  by (auto simp: tcp_parse_def on_connection_def Let_def split: if_splits)

lemma take_min_length: "take (min (min (length d) b) m) d = take m (take b d)"
  by (simp add: min_def)

lemma parse_payload:
  assumes "tcp_parse conn (Some 1460) f = Some sg"
  shows "r_data sg = payload f" "r_len sg = length (payload f)"
proof -
  let ?d = "drop (14 + headers_len f) f" and ?b = "unat (be16 16 f) - headers_len f"
  have h: "14 + unat (f ! 14 AND 0x0F) * 4 + unat (drop_bit 4 (f ! 46)) * 4 = 14 + headers_len f"
      "unat (be16 16 f) - unat (f ! 14 AND 0x0F) * 4 - unat (drop_bit 4 (f ! 46)) * 4 = ?b"
    by (simp_all add: headers_len_def)
  have l: "length f - (14 + headers_len f) = length ?d" by simp
  have "on_connection conn f" using parse_accepts(2) [OF assms] by simp
  then have "tcp_parse conn (Some 1460) f = Some \<lparr>r_flags = f ! 47, r_seq = be32 38 f, r_ack = be32 42 f,
      r_len = (if 0 < min (length ?d) ?b then min (min (length ?d) ?b) 1460 else min (length ?d) ?b),
      r_data = slice (14 + headers_len f) (min (min (length ?d) ?b) 1460) f\<rparr>"
    unfolding tcp_parse_def Let_def h l by (simp add: on_connection_def)
  then have "r_data sg = take (min (min (length ?d) ?b) 1460) ?d" "r_len sg = min (min (length ?d) ?b) 1460"
    using assms by (auto simp: slice_def)
  then show "r_data sg = payload f" "r_len sg = length (payload f)"
    unfolding take_min_length payload_def by (simp_all add: ac_simps)
qed

lemma arp_reply_spec: "arp_reply target f = (if arp_answers target f then Some (slice 22 6 f) else None)"
  by (auto simp: arp_reply_def arp_answers_def)

text \<open>The frames of a connection among those received between two points of a run, in the order of reception.\<close>

definition frames_in :: "netdev \<Rightarrow> tcp_conn \<Rightarrow> nat \<Rightarrow> nat \<Rightarrow> bytes list" where
  "frames_in dev conn a b = filter (on_connection conn) (map (rx_frame dev) [a..<b])"

lemma frames_in_none [simp]: "frames_in dev conn a a = []"
  by (simp add: frames_in_def)

lemma frames_in_append: "a \<le> b \<Longrightarrow> b \<le> c \<Longrightarrow> frames_in dev conn a c = frames_in dev conn a b @ frames_in dev conn b c"
  using upt_add_eq_append [of a b "c - b"] by (simp add: frames_in_def)

lemma frames_in_next: "frames_in dev conn a (a + 1) = (if on_connection conn (rx_frame dev a) then [rx_frame dev a] else [])"
  by (simp add: frames_in_def)

lemma frames_in_index:
  "frames_in dev conn a b = [f] \<Longrightarrow> \<exists>k. a \<le> k \<and> k < b \<and> f = rx_frame dev k \<and> on_connection conn f"
proof -
  assume "frames_in dev conn a b = [f]"
  then have "f \<in> set (frames_in dev conn a b)" by simp
  then show ?thesis by (auto simp: frames_in_def)
qed

lemma on_connection_update [simp]:
  "on_connection (c\<lparr>state := x\<rparr>) = on_connection c" "on_connection (c\<lparr>ack_num := y\<rparr>) = on_connection c"
  "on_connection (c\<lparr>seq_num := y\<rparr>) = on_connection c" "on_connection (c\<lparr>remote_mac := z\<rparr>) = on_connection c"
  by (intro ext, simp add: on_connection_def)+

lemma frames_in_update [simp]:
  "frames_in dev (c\<lparr>state := x\<rparr>) = frames_in dev c" "frames_in dev (c\<lparr>ack_num := y\<rparr>) = frames_in dev c"
  "frames_in dev (c\<lparr>seq_num := y\<rparr>) = frames_in dev c" "frames_in dev (c\<lparr>remote_mac := z\<rparr>) = frames_in dev c"
  by (intro ext, simp add: frames_in_def)+

section \<open>Waiting for frames\<close>

text \<open>Waiting keeps the addresses of the client, sends nothing, and only moves the counters of the device forward.\<close>

definition only_waits :: "tcp_mod \<Rightarrow> tcp_mod \<Rightarrow> bool" where
  "only_waits st st' \<longleftrightarrow> g_local_ip st' = g_local_ip st \<and> g_local_mac st' = g_local_mac st \<and> g_gateway st' = g_gateway st \<and>
     g_netmask st' = g_netmask st \<and> g_ip_id st' = g_ip_id st \<and> sent (tnic st') = sent (tnic st) \<and>
     ticks (tnic st) \<le> ticks (tnic st') \<and> polls (tnic st) \<le> polls (tnic st')"

lemma only_waits_trans: "only_waits a b \<Longrightarrow> only_waits b c \<Longrightarrow> only_waits a c"
  by (simp add: only_waits_def)

lemma only_waits_step [simp]:
  "only_waits st (st\<lparr>tnic := (tnic st)\<lparr>ticks := ticks (tnic st) + n\<rparr>\<rparr>)"
  "only_waits st (st\<lparr>tnic := (tnic st)\<lparr>ticks := Suc (ticks (tnic st))\<rparr>\<rparr>)"
  "only_waits st (st\<lparr>tnic := (tnic st)\<lparr>ticks := Suc (ticks (tnic st)), polls := Suc (polls (tnic st))\<rparr>\<rparr>)"
  by (simp_all add: only_waits_def)

text \<open>A wait for a segment ends with the first frame of the connection, or with none received.\<close>

definition waited :: "netdev \<Rightarrow> tcp_conn \<Rightarrow> nat option \<Rightarrow> tcp_mod \<Rightarrow> segment option \<times> tcp_mod \<Rightarrow> bool" where
  "waited dev conn mx st r \<longleftrightarrow> only_waits st (snd r) \<and>
     (fst r = None \<longrightarrow> frames_in dev conn (polls (tnic st)) (polls (tnic (snd r))) = []) \<and>
     (\<forall>sg. fst r = Some sg \<longrightarrow>
        (\<exists>f. frames_in dev conn (polls (tnic st)) (polls (tnic (snd r))) = [f] \<and> tcp_parse conn mx f = Some sg))"

lemma waited_skip:
  assumes "tcp_parse conn mx (rx_frame dev (polls (tnic st))) = None"
    and "waited dev conn mx (st\<lparr>tnic := (tnic st)\<lparr>ticks := Suc (ticks (tnic st)), polls := Suc (polls (tnic st))\<rparr>\<rparr>) r"
  shows "waited dev conn mx st r"
proof -
  let ?st = "st\<lparr>tnic := (tnic st)\<lparr>ticks := Suc (ticks (tnic st)), polls := Suc (polls (tnic st))\<rparr>\<rparr>"
  have w: "only_waits ?st (snd r)" using assms(2) by (simp add: waited_def)
  then have "polls (tnic st) + 1 \<le> polls (tnic (snd r))" by (simp add: only_waits_def)
  then have "frames_in dev conn (polls (tnic st)) (polls (tnic (snd r))) = frames_in dev conn (polls (tnic st) + 1) (polls (tnic (snd r)))"
    using frames_in_append [of "polls (tnic st)" "polls (tnic st) + 1" "polls (tnic (snd r))" dev conn] assms(1)
    by (simp only: frames_in_next parse_accepts(1) le_add1 if_False append_Nil simp_thms)
  then show ?thesis using assms(2) only_waits_trans [OF only_waits_step(3) w] by (simp add: waited_def)
qed

lemma recv_wait_sound:
  assumes "recv_wait dev conn mx deadline st = Some r"
  shows "waited dev conn mx st r \<and> ticks (tnic st) < ticks (tnic (snd r))"
  using assms
proof (rule recv_wait.raw_induct [where P = "\<lambda>dev conn mx deadline st r.
      waited dev conn mx st r \<and> ticks (tnic st) < ticks (tnic (snd r))", rotated])
  fix f dev conn mx deadline st r
  assume IH: "\<And>dev conn mx deadline st r. f dev conn mx deadline st = Some r \<Longrightarrow>
        waited dev conn mx st r \<and> ticks (tnic st) < ticks (tnic (snd r))"
    and body: "(let (now, st) = timer_ms dev st
      in if now < deadline then
           let (f', st) = receive dev st
           in (case (if f' = [] then None else tcp_parse conn mx f') of
                 None \<Rightarrow> f dev conn mx deadline st
               | Some sg \<Rightarrow> Some (Some sg, st))
         else Some (None, st)) = Some r"
  let ?st = "st\<lparr>tnic := (tnic st)\<lparr>ticks := Suc (ticks (tnic st)), polls := Suc (polls (tnic st))\<rparr>\<rparr>"
  let ?fr = "rx_frame dev (polls (tnic st))"
  have e: "?fr = [] \<Longrightarrow> tcp_parse conn mx ?fr = None" by (simp add: tcp_parse_def)
  consider (late) "r = (None, st\<lparr>tnic := (tnic st)\<lparr>ticks := Suc (ticks (tnic st))\<rparr>\<rparr>)"
    | (again) "f dev conn mx deadline ?st = Some r" "tcp_parse conn mx ?fr = None"
    | (got) sg where "tcp_parse conn mx ?fr = Some sg" "r = (Some sg, ?st)"
    using body e
    by (cases "clock_ms dev (ticks (tnic st)) < deadline"; cases "?fr = []"; cases "tcp_parse conn mx ?fr")
       (simp_all add: timer_eq receive_eq)
  then show "waited dev conn mx st r \<and> ticks (tnic st) < ticks (tnic (snd r))"
  proof cases
    case again
    then show ?thesis using IH [OF again(1)] waited_skip [OF again(2)] by simp
  next
    case got
    then show ?thesis
      using parse_accepts(2) [OF got(1)] frames_in_next [of dev conn "polls (tnic st)"] by (simp add: waited_def)
  qed (simp add: waited_def)
qed

lemma recv_frame_sound:
  assumes "recv_tcp_frame dev conn mx timeout st = Some (r, st')"
  shows "waited dev conn mx st (r, st')"
proof (cases "has_rx dev")
  case True
  let ?st = "st\<lparr>tnic := (tnic st)\<lparr>ticks := Suc (ticks (tnic st))\<rparr>\<rparr>"
  have "waited dev conn mx ?st (r, st')"
    using assms True recv_wait_sound by (fastforce simp: recv_tcp_frame_def timer_eq)
  then show ?thesis using only_waits_trans [OF only_waits_step(2), of st st'] by (simp add: waited_def)
next
  case False
  then show ?thesis using assms by (auto simp: recv_tcp_frame_def waited_def only_waits_def)
qed


section \<open>Address resolution\<close>

text \<open>The hardware address is that of a reply for the target which arrived between two points of a run.\<close>

definition resolved :: "netdev \<Rightarrow> u32 \<Rightarrow> nat \<Rightarrow> nat \<Rightarrow> bytes \<Rightarrow> bool" where
  "resolved dev target a b m \<longleftrightarrow> (\<exists>j. a \<le> j \<and> j < b \<and> arp_answers target (rx_frame dev j) \<and> m = slice 22 6 (rx_frame dev j))"

lemma resolved_mono: "resolved dev target a b m \<Longrightarrow> a' \<le> a \<Longrightarrow> b \<le> b' \<Longrightarrow> resolved dev target a' b' m"
proof -
  assume r: "resolved dev target a b m" and le: "a' \<le> a" "b \<le> b'"
  obtain j where "a \<le> j" "j < b" "arp_answers target (rx_frame dev j)" "m = slice 22 6 (rx_frame dev j)"
    using r unfolding resolved_def by blast
  then show ?thesis using le unfolding resolved_def by (intro exI [of _ j]) auto
qed

lemma arp_wait_sound:
  assumes "arp_wait dev target deadline st = Some r"
  shows "only_waits st (snd r) \<and>
    (\<forall>m. fst r = Some m \<longrightarrow> resolved dev target (polls (tnic st)) (polls (tnic (snd r))) m)"
  using assms
proof (rule arp_wait.raw_induct [where P = "\<lambda>dev target deadline st r. only_waits st (snd r) \<and>
      (\<forall>m. fst r = Some m \<longrightarrow> resolved dev target (polls (tnic st)) (polls (tnic (snd r))) m)", rotated])
  fix f dev target deadline st r
  assume IH: "\<And>dev target deadline st r. f dev target deadline st = Some r \<Longrightarrow> only_waits st (snd r) \<and>
        (\<forall>m. fst r = Some m \<longrightarrow> resolved dev target (polls (tnic st)) (polls (tnic (snd r))) m)"
    and body: "(let (now, st) = timer_ms dev st
      in if now < deadline then
           let (f', st) = receive dev st
           in (case (if f' = [] then None else arp_reply target f') of
                 None \<Rightarrow> f dev target deadline st
               | Some mac \<Rightarrow> Some (Some mac, st))
         else Some (None, st)) = Some r"
  let ?st = "st\<lparr>tnic := (tnic st)\<lparr>ticks := Suc (ticks (tnic st)), polls := Suc (polls (tnic st))\<rparr>\<rparr>"
  let ?fr = "rx_frame dev (polls (tnic st))"
  consider (late) "r = (None, st\<lparr>tnic := (tnic st)\<lparr>ticks := Suc (ticks (tnic st))\<rparr>\<rparr>)"
    | (again) "f dev target deadline ?st = Some r"
    | (got) m where "arp_reply target ?fr = Some m" "r = (Some m, ?st)"
    using body
    by (cases "clock_ms dev (ticks (tnic st)) < deadline"; cases "?fr = []"; cases "arp_reply target ?fr")
       (simp_all add: timer_eq receive_eq)
  then show "only_waits st (snd r) \<and>
      (\<forall>m. fst r = Some m \<longrightarrow> resolved dev target (polls (tnic st)) (polls (tnic (snd r))) m)"
  proof cases
    case again
    show ?thesis using IH [OF again] only_waits_trans [OF only_waits_step(3), of st "snd r"]
      by (auto intro: resolved_mono)
  next
    case got
    then show ?thesis by (auto simp: arp_reply_spec resolved_def split: if_splits)
  qed simp
qed

lemma only_waits_request: "only_waits a b \<Longrightarrow> arp_request target b = arp_request target a"
  by (simp add: only_waits_def arp_request_def)

text \<open>What address resolution did: up to \<open>n\<close> requests, and the reply it took the address from.\<close>

definition asked :: "netdev \<Rightarrow> u32 \<Rightarrow> nat \<Rightarrow> bytes option \<Rightarrow> tcp_mod \<Rightarrow> tcp_mod \<Rightarrow> bool" where
  "asked dev target n m st st' \<longleftrightarrow>
     (\<exists>i \<le> n. only_waits (st\<lparr>tnic := (tnic st)\<lparr>sent := sent (tnic st) @ replicate i (arp_request target st)\<rparr>\<rparr>) st' \<and>
        (\<forall>a. m = Some a \<longrightarrow> 0 < i \<and> resolved dev target (polls (tnic st)) (polls (tnic st')) a))"

lemma asked_again:
  assumes "only_waits (st\<lparr>tnic := net_tx (arp_request target st) (tnic st)\<rparr>) s1" "asked dev target n m s1 st'"
  shows "asked dev target (Suc n) m st st'"
proof -
  have r: "arp_request target s1 = arp_request target st" using assms(1) by (simp add: only_waits_def arp_request_def)
  obtain i where i: "i \<le> n" "only_waits (s1\<lparr>tnic := (tnic s1)\<lparr>sent := sent (tnic s1) @ replicate i (arp_request target s1)\<rparr>\<rparr>) st'"
      "\<forall>a. m = Some a \<longrightarrow> 0 < i \<and> resolved dev target (polls (tnic s1)) (polls (tnic st')) a"
    using assms(2) unfolding asked_def by blast
  have "polls (tnic st) \<le> polls (tnic s1)" using assms(1) by (simp add: only_waits_def net_tx_def)
  moreover have "only_waits (st\<lparr>tnic := (tnic st)\<lparr>sent := sent (tnic st) @ replicate (Suc i) (arp_request target st)\<rparr>\<rparr>) st'"
    using assms(1) i(2) r by (simp add: only_waits_def net_tx_def)
  ultimately show ?thesis using i(1,3) unfolding asked_def by (intro exI [of _ "Suc i"]) (auto intro: resolved_mono)
qed

lemma arp_attempts_sound: "arp_attempts dev target n st = Some (m, st') \<Longrightarrow> asked dev target n m st st'"
proof (induction n arbitrary: st)
  case 0
  then show ?case by (simp add: asked_def only_waits_def)
next
  case (Suc n)
  let ?st = "st\<lparr>tnic := net_tx (arp_request target st) (tnic st)\<rparr>"
  obtain r s1 where r: "arp_wait dev target (fst (timer_ms dev ?st) + 2000) (snd (timer_ms dev ?st)) = Some (r, s1)"
    using Suc.prems by (auto simp: Let_def case_prod_beta bind_eq_Some_conv)
  have "only_waits ?st (snd (timer_ms dev ?st))" "only_waits (snd (timer_ms dev ?st)) s1"
    using arp_wait_sound [OF r] by (simp_all add: timer_eq only_waits_def)
  then have w: "only_waits ?st s1" by (rule only_waits_trans)
  show ?case
  proof (cases r)
    case None
    then have "asked dev target n m s1 st'" using Suc.prems Suc.IH [of s1] r by (simp add: Let_def case_prod_beta)
    then show ?thesis by (rule asked_again [OF w])
  next
    case (Some a)
    then have "m = Some a" "st' = s1" using Suc.prems r by (simp_all add: Let_def case_prod_beta)
    moreover have "resolved dev target (polls (tnic st)) (polls (tnic s1)) a"
      using arp_wait_sound [OF r] Some by (simp add: timer_eq net_tx_def)
    ultimately show ?thesis using w unfolding asked_def by (intro exI [of _ 1]) (simp add: net_tx_def)
  qed
qed

lemma arp_resolve_sound:
  assumes "arp_resolve dev target st = Some ((rc, m), st')"
  shows "m = None \<longleftrightarrow> rc \<noteq> HAL_OK" "asked dev target 3 m st st'"
proof -
  show "m = None \<longleftrightarrow> rc \<noteq> HAL_OK" using assms by (auto simp: arp_resolve_def bind_eq_Some_conv split: if_splits)
  show "asked dev target 3 m st st'"
  proof (cases "has_tx dev \<and> has_rx dev")
    case True
    then show ?thesis using assms arp_attempts_sound [of dev target 3 st m st'] by (auto simp: arp_resolve_def bind_eq_Some_conv)
  next
    case False
    then show ?thesis using assms by (auto simp: arp_resolve_def asked_def only_waits_def)
  qed
qed


section \<open>Connecting\<close>

lemma send_frame_polls [simp]:
  "polls (tnic (send_tcp_frame dev conn flags data st)) = polls (tnic st)"
  "ticks (tnic (send_tcp_frame dev conn flags data st)) = ticks (tnic st)"
  by (simp_all add: send_tcp_frame_def net_tx_def)

text \<open>The connection after a SYN-ACK that arrived between two points of a run.\<close>

definition acknowledges :: "netdev \<Rightarrow> tcp_conn \<Rightarrow> nat \<Rightarrow> nat \<Rightarrow> tcp_conn \<Rightarrow> bool" where
  "acknowledges dev conn a b conn' \<longleftrightarrow>
     (\<exists>k f. a \<le> k \<and> k < b \<and> f = rx_frame dev k \<and> on_connection conn f \<and> f ! 47 AND 0x12 = 0x12 \<and> f ! 47 AND 4 = 0 \<and>
        conn' = conn\<lparr>ack_num := be32 38 f + 1, state := TCP_ESTABLISHED\<rparr>)"

lemma acknowledges_mono: "acknowledges dev conn a b conn' \<Longrightarrow> a' \<le> a \<Longrightarrow> acknowledges dev conn a' b conn'"
proof -
  assume "acknowledges dev conn a b conn'" and le: "a' \<le> a"
  then obtain k f where "a \<le> k" "k < b" "f = rx_frame dev k" "on_connection conn f" "f ! 47 AND 0x12 = 0x12" "f ! 47 AND 4 = 0"
      "conn' = conn\<lparr>ack_num := be32 38 f + 1, state := TCP_ESTABLISHED\<rparr>"
    unfolding acknowledges_def by blast
  then show ?thesis using le unfolding acknowledges_def by (intro exI [of _ k] exI [of _ f]) simp
qed

lemma await_synack_outcome:
  "await_synack dev n conn st = Some (rc, conn', st') \<Longrightarrow>
   polls (tnic st) \<le> polls (tnic st') \<and>
   (if rc = HAL_OK then acknowledges dev conn (polls (tnic st)) (polls (tnic st')) conn' else conn' = conn\<lparr>state := TCP_CLOSED\<rparr>)"
proof (induction n arbitrary: st)
  case (Suc n)
  obtain r st1 where r: "recv_tcp_frame dev conn None 5000 st = Some (r, st1)"
    using Suc.prems by (auto simp: bind_eq_Some_conv)
  note w = recv_frame_sound [OF r]
  have le: "polls (tnic st) \<le> polls (tnic st1)" using w by (simp add: waited_def only_waits_def)
  have later: ?case if "polls (tnic s) = polls (tnic st1)" "await_synack dev n conn s = Some (rc, conn', st')" for s
    using Suc.IH [OF that(2)] that(1) le acknowledges_mono [of dev conn "polls (tnic st1)" _ conn' "polls (tnic st)"] by auto
  show ?case
  proof (cases r)
    case None
    let ?st = "send_tcp_frame dev (conn\<lparr>seq_num := seq_num conn - 1\<rparr>) TCP_SYN [] st1"
    have "await_synack dev n conn ?st = Some (rc, conn', st')" using Suc.prems None r by (simp add: Let_def)
    then show ?thesis by (intro later [of ?st]) simp_all
  next
    case (Some sg)
    obtain f where f: "frames_in dev conn (polls (tnic st)) (polls (tnic st1)) = [f]" "tcp_parse conn None f = Some sg"
      using w Some by (auto simp: waited_def)
    obtain k where k: "polls (tnic st) \<le> k" "k < polls (tnic st1)" "f = rx_frame dev k" "on_connection conn f"
      using frames_in_index [OF f(1)] by blast
    note sg = parse_accepts(2) [OF f(2)]
    consider (rst) "r_flags sg AND 4 \<noteq> 0" | (ok) "r_flags sg AND 4 = 0" "r_flags sg AND 0x12 = 0x12"
      | (other) "r_flags sg AND 4 = 0" "r_flags sg AND 0x12 \<noteq> 0x12" by blast
    then show ?thesis
    proof cases
      case rst
      then show ?thesis using Suc.prems r Some le by auto
    next
      case ok
      then have c: "rc = HAL_OK" "conn' = conn\<lparr>ack_num := be32 38 f + 1, state := TCP_ESTABLISHED\<rparr>"
          "polls (tnic st') = polls (tnic st1)"
        using Suc.prems r Some sg by (auto simp: Let_def)
      have "acknowledges dev conn (polls (tnic st)) (polls (tnic st1)) conn'"
        unfolding acknowledges_def using k ok sg c(2) by auto
      then show ?thesis using c le by simp
    next
      case other
      then show ?thesis using Suc.prems r Some by (intro later [of st1]) simp_all
    qed
  qed
qed simp

text \<open>The stages of a call: the fresh connection, the address resolution, and the handshake with the address found.\<close>

definition fresh_conn :: "netdev \<Rightarrow> u32 \<Rightarrow> u16 \<Rightarrow> tcp_mod \<Rightarrow> tcp_conn" where
  "fresh_conn dev ip port st = \<lparr>state = TCP_CLOSED, local_ip = g_local_ip st,
     local_port = 49152 + ucast (clock_ns dev (ticks (tnic st)) AND 0x3FFF), remote_ip = ip, remote_port = port,
     seq_num = ucast (clock_ns dev (ticks (tnic st) + 1)), ack_num = 0, remote_mss = word_of_nat TCP_TX_MSS,
     local_mac = g_local_mac st, remote_mac = replicate 6 0, rx_len = 0\<rparr>"

lemma fresh_conn_fields [simp]:
  "remote_ip (fresh_conn dev ip port st) = ip" "remote_port (fresh_conn dev ip port st) = port"
  "local_ip (fresh_conn dev ip port st) = g_local_ip st" "state (fresh_conn dev ip port st) = TCP_CLOSED"
  "seq_num (fresh_conn dev ip port st) = ucast (clock_ns dev (ticks (tnic st) + 1))"
  by (simp_all add: fresh_conn_def)

lemma tcp_connect_stages:
  assumes "tcp_connect dev ip port st = Some (rc, conn, st')"
  defines "c0 \<equiv> fresh_conn dev ip port st"
    and "hop \<equiv> (if ip AND g_netmask st = g_local_ip st AND g_netmask st then ip else g_gateway st)"
  obtains (unresolved) "rc \<noteq> HAL_OK" "conn = c0"
  | (handshake) j m s where "polls (tnic st) \<le> j" "j < polls (tnic s)" "arp_answers hop (rx_frame dev j)"
      "m = slice 22 6 (rx_frame dev j)"
      "await_synack dev 3 (c0\<lparr>remote_mac := m, state := TCP_SYN_SENT, seq_num := seq_num c0 + 1\<rparr>) s = Some (rc, conn, st')"
proof -
  define s2 where "s2 = st\<lparr>tnic := (tnic st)\<lparr>ticks := ticks (tnic st) + 2\<rparr>\<rparr>"
  have hop: "next_hop ip s2 = hop" "polls (tnic s2) = polls (tnic st)" by (simp_all add: s2_def next_hop_def hop_def)
  have "Option.bind (arp_resolve dev (next_hop ip s2) s2) (\<lambda>((rc, mac), st).
      case mac of None \<Rightarrow> Some (rc, c0, st)
      | Some m \<Rightarrow> await_synack dev 3 (c0\<lparr>remote_mac := m, state := TCP_SYN_SENT, seq_num := seq_num c0 + 1\<rparr>)
          (send_tcp_frame dev (c0\<lparr>remote_mac := m, state := TCP_SYN_SENT\<rparr>) TCP_SYN [] st)) = Some (rc, conn, st')"
    using assms(1) by (simp add: tcp_connect_def timer_ns_def hal_timer_ns_def Let_def c0_def fresh_conn_def s2_def cong: option.case_cong)
  then obtain rc1 m s3 where a: "arp_resolve dev hop s2 = Some ((rc1, m), s3)" and
      b: "(case m of None \<Rightarrow> Some (rc1, c0, s3)
      | Some m \<Rightarrow> await_synack dev 3 (c0\<lparr>remote_mac := m, state := TCP_SYN_SENT, seq_num := seq_num c0 + 1\<rparr>)
          (send_tcp_frame dev (c0\<lparr>remote_mac := m, state := TCP_SYN_SENT\<rparr>) TCP_SYN [] s3)) = Some (rc, conn, st')"
    by (auto simp: bind_eq_Some_conv hop)
  note snd = arp_resolve_sound [OF a]
  show thesis
  proof (cases m)
    case None
    then show thesis using b snd(1) by (auto intro: unresolved)
  next
    case (Some mac)
    obtain j where "polls (tnic st) \<le> j" "j < polls (tnic s3)" "arp_answers hop (rx_frame dev j)" "mac = slice 22 6 (rx_frame dev j)"
      using snd(2) Some hop(2) by (auto simp: asked_def resolved_def)
    then show thesis using b Some by (intro handshake) simp_all
  qed
qed

text \<open>
  C29. An attempt to connect that returns has either established the connection or left it closed, and says so. When it is
  established, two frames arrived during the call, one after the other: an ARP reply for the next hop (the peer itself
  when it is on the local network, the gateway otherwise), whose sender's hardware address the connection uses, and a
  TCP segment between exactly the two addresses and ports of the connection with SYN and ACK set and RST clear. The
  connection's own sequence number is the initial one plus one, and its acknowledgement number is one more than the
  sequence number of that segment. (The acknowledgement number of that segment is not compared.)
\<close>

theorem tcp_connect_outcome:
  assumes "tcp_connect dev ip port st = Some (rc, conn, st')"
  shows "remote_ip conn = ip \<and> remote_port conn = port \<and> local_ip conn = g_local_ip st \<and>
    state conn = (if rc = HAL_OK then TCP_ESTABLISHED else TCP_CLOSED) \<and>
    (rc = HAL_OK \<longrightarrow>
      (\<exists>j k reply syn. polls (tnic st) \<le> j \<and> j < k \<and> k < polls (tnic st') \<and> reply = rx_frame dev j \<and> syn = rx_frame dev k \<and>
         arp_answers (if ip AND g_netmask st = g_local_ip st AND g_netmask st then ip else g_gateway st) reply \<and>
         remote_mac conn = slice 22 6 reply \<and>
         on_connection conn syn \<and> syn ! 47 AND 0x12 = 0x12 \<and> syn ! 47 AND 4 = 0 \<and>
         seq_num conn = ucast (clock_ns dev (ticks (tnic st) + 1)) + 1 \<and> ack_num conn = be32 38 syn + 1))"
  using assms
proof (cases rule: tcp_connect_stages)
  case unresolved
  then show ?thesis by simp
next
  case (handshake j m s)
  let ?c = "fresh_conn dev ip port st"
  show ?thesis
  proof (cases "rc = HAL_OK")
    case True
    then obtain k syn where k: "polls (tnic s) \<le> k" "k < polls (tnic st')" "syn = rx_frame dev k" "on_connection ?c syn"
        "syn ! 47 AND 0x12 = 0x12" "syn ! 47 AND 4 = 0"
        "conn = ?c\<lparr>remote_mac := m, seq_num := seq_num ?c + 1, ack_num := be32 38 syn + 1, state := TCP_ESTABLISHED\<rparr>"
      using await_synack_outcome [OF handshake(5)] by (auto simp: acknowledges_def)
    then show ?thesis
      using True handshake(1-4)
      by (intro conjI impI exI [of _ j] exI [of _ k] exI [of _ "rx_frame dev j"] exI [of _ syn]) auto
  next
    case False
    then show ?thesis using await_synack_outcome [OF handshake(5)] by auto
  qed
qed

text \<open>A server at 10.0.0.1 that answers the ARP request and the SYN.\<close>

definition arp_answer :: bytes where
  "arp_answer = replicate 12 0 @ [8, 6] @ replicate 6 0 @ [0, 2] @ [2, 2, 2, 2, 2, 2] @ [10, 0, 0, 1] @ replicate 10 0"

definition syn_ack :: bytes where
  "syn_ack = replicate 12 0 @ [8, 0, 0x45] @ replicate 8 0 @ [6, 0, 0] @ [10, 0, 0, 1] @ [10, 0, 0, 5] @ [0, 80] @ [0xC0, 0] @
     [0, 0, 1, 0] @ [0, 0, 0, 1] @ [0x50, 0x12] @ replicate 6 0"

definition answering_dev :: netdev where
  "answering_dev = sample_dev\<lparr>rx_frame := (\<lambda>k. if k = 0 then arp_answer else syn_ack)\<rparr>"

lemma arp_answered: "arp_reply 0x0A000001 arp_answer = Some [2, 2, 2, 2, 2, 2]" "arp_answer \<noteq> []"
  by (simp_all add: arp_reply_def arp_answer_def be16_def be32_def ntohs_def ntohl_def htons_def htonl_def le16_def le32_def slice_def)

lemma syn_answered:
  assumes "remote_ip c = 0x0A000001" "local_ip c = 0x0A000005" "remote_port c = 80" "local_port c = 49152"
  shows "tcp_parse c None syn_ack = Some \<lparr>r_flags = 0x12, r_seq = 256, r_ack = 1, r_len = 0, r_data = []\<rparr>"
  using assms
  by (simp add: tcp_parse_def syn_ack_def be16_def be32_def ntohs_def ntohl_def htons_def htonl_def le16_def le32_def
    slice_def nth_append)

lemma answering_connect:
  "\<exists>conn st'. tcp_connect answering_dev 0x0A000001 80 sample_mod = Some (HAL_OK, conn, st') \<and> ack_num conn = 257"
proof -
  have c: "clock_ms answering_dev k = 0" "clock_ns answering_dev k = 0" for k
    by (simp_all add: clock_ms_def answering_dev_def sample_dev_def)
  have d: "has_tx answering_dev" "has_rx answering_dev" by (simp_all add: answering_dev_def sample_dev_def)
  have f: "rx_frame answering_dev k = (if k = 0 then arp_answer else syn_ack)" for k by (simp add: answering_dev_def)
  have n: "syn_ack \<noteq> []" by (simp add: syn_ack_def)
  show ?thesis
    by (simp add: tcp_connect_def timer_ns_def hal_timer_ns_def c sample_mod_def next_hop_def arp_resolve_def d numeral_3_eq_3
      timer_eq net_tx_def arp_wait.simps receive_eq f arp_answered send_tcp_frame_def recv_tcp_frame_def recv_wait.simps n
      syn_answered)
qed

theorem tcp_connect_outcome_witness:
  "\<exists>conn st' j k. tcp_connect answering_dev 0x0A000001 80 sample_mod = Some (HAL_OK, conn, st') \<and>
     state conn = TCP_ESTABLISHED \<and> seq_num conn = 1 \<and> ack_num conn = 257 \<and> j < k \<and>
     arp_answers 0x0A000001 (rx_frame answering_dev j) \<and> on_connection conn (rx_frame answering_dev k)"
proof -
  obtain conn st' where r: "tcp_connect answering_dev 0x0A000001 80 sample_mod = Some (HAL_OK, conn, st')" "ack_num conn = 257"
    using answering_connect by blast
  have c: "clock_ns answering_dev k = 0" for k by (simp add: answering_dev_def sample_dev_def)
  show ?thesis using tcp_connect_outcome [OF r(1)] r unfolding c by (auto simp: sample_mod_def)
qed


section \<open>Receiving\<close>

text \<open>
  What a call makes of the frames of the connection it received: the bytes of those that are not resets, one after the
  other and cut at the end of the buffer; the number to acknowledge; and whether the last one carried a flag.
\<close>

definition handed_over :: "u32 \<Rightarrow> bytes \<Rightarrow> bytes list \<Rightarrow> bytes" where
  "handed_over max_len out fs = take (unat max_len) (out @ concat (map payload (filter (\<lambda>f. f ! 47 AND TCP_RST = 0) fs)))"

definition next_ack :: "u32 \<Rightarrow> bytes \<Rightarrow> u32" where
  "next_ack a f =
     (if f ! 47 AND TCP_RST \<noteq> 0 then a
      else if f ! 47 AND TCP_FIN \<noteq> 0 then be32 38 f + word_of_nat (length (payload f)) + 1
      else if payload f \<noteq> [] then be32 38 f + word_of_nat (length (payload f)) else a)"

definition last_has :: "u8 \<Rightarrow> bytes list \<Rightarrow> bool" where
  "last_has flag fs \<longleftrightarrow> fs \<noteq> [] \<and> last fs ! 47 AND flag \<noteq> 0"

definition received :: "netdev \<Rightarrow> u32 \<Rightarrow> u64 \<Rightarrow> tcp_conn \<Rightarrow> bytes \<Rightarrow> tcp_mod \<Rightarrow> (tcp_got \<times> tcp_conn \<times> tcp_mod) \<Rightarrow> bool" where
  "received dev max_len deadline conn out st = (\<lambda>(g, conn', st').
     ticks (tnic st) \<le> ticks (tnic st') \<and> polls (tnic st) \<le> polls (tnic st') \<and>
     (\<exists>fs out'. fs = frames_in dev conn (polls (tnic st)) (polls (tnic st')) \<and> out' = handed_over max_len out fs \<and>
        (\<forall>f \<in> set (butlast fs). f ! 47 AND TCP_RST = 0 \<and> f ! 47 AND TCP_FIN = 0) \<and>
        g = Got (if last_has TCP_RST fs \<and> out' = [] then -1 else int (length out')) out' \<and>
        conn' = conn\<lparr>ack_num := foldl next_ack (ack_num conn) fs,
          state := (if last_has TCP_RST fs then TCP_CLOSED else if last_has TCP_FIN fs then TCP_CLOSE_WAIT else state conn)\<rparr> \<and>
        (out' = [] \<longrightarrow> max_len = 0 \<or> last_has TCP_RST fs \<or> last_has TCP_FIN fs \<or>
           (\<exists>i. ticks (tnic st) \<le> i \<and> i < ticks (tnic st') \<and> deadline \<le> clock_ms dev i))))"

lemma receivedD:
  assumes "received dev max_len deadline conn out st (g, conn', st')"
    and "fs = frames_in dev conn (polls (tnic st)) (polls (tnic st'))" "out' = handed_over max_len out fs"
  shows "\<forall>f \<in> set (butlast fs). f ! 47 AND TCP_RST = 0 \<and> f ! 47 AND TCP_FIN = 0"
    "g = Got (if last_has TCP_RST fs \<and> out' = [] then -1 else int (length out')) out'"
    "conn' = conn\<lparr>ack_num := foldl next_ack (ack_num conn) fs,
       state := (if last_has TCP_RST fs then TCP_CLOSED else if last_has TCP_FIN fs then TCP_CLOSE_WAIT else state conn)\<rparr>"
    "out' = [] \<longrightarrow> max_len = 0 \<or> last_has TCP_RST fs \<or> last_has TCP_FIN fs \<or>
       (\<exists>i. ticks (tnic st) \<le> i \<and> i < ticks (tnic st') \<and> deadline \<le> clock_ms dev i)"
  using assms(1) unfolding received_def prod.case assms(3) assms(2) by - (elim conjE exE, hypsubst, (assumption | rule refl))+

lemma last_has_append:
  "\<forall>f \<in> set fs. f ! 47 AND flag = 0 \<Longrightarrow> last_has flag (fs @ gs) = last_has flag gs"
  by (cases gs; cases fs rule: rev_cases) (auto simp: last_has_def)

lemma handed_over_append: "handed_over max_len out (fs @ gs) = handed_over max_len (handed_over max_len out fs) gs"
  by (simp add: handed_over_def take_take_append del: take_append)

lemma conn_same: "conn\<lparr>ack_num := ack_num conn, state := state conn\<rparr> = conn"
  by (cases conn) simp

text \<open>The frames of a part of the call that go on with the rest.\<close>

lemma received_step:
  assumes le: "ticks (tnic st) \<le> ticks (tnic s)" "polls (tnic st) \<le> polls (tnic s)"
    and fs: "frames_in dev conn (polls (tnic st)) (polls (tnic s)) = fs" "\<forall>f \<in> set fs. f ! 47 AND TCP_RST = 0 \<and> f ! 47 AND TCP_FIN = 0"
    and rest: "received dev max_len deadline (conn\<lparr>ack_num := foldl next_ack (ack_num conn) fs\<rparr>) (handed_over max_len out fs) s r"
  shows "received dev max_len deadline conn out st r"
proof -
  obtain g conn' st' where r: "r = (g, conn', st')" by (cases r)
  define gs where "gs = frames_in dev conn (polls (tnic s)) (polls (tnic st'))"
  have m: "ticks (tnic s) \<le> ticks (tnic st')" "polls (tnic s) \<le> polls (tnic st')" using rest by (simp_all add: received_def r)
  have "frames_in dev conn (polls (tnic st)) (polls (tnic st')) = fs @ gs"
    using frames_in_append [OF le(2) m(2)] fs(1) by (simp add: gs_def)
  moreover have "last_has TCP_RST (fs @ gs) = last_has TCP_RST gs" "last_has TCP_FIN (fs @ gs) = last_has TCP_FIN gs"
    using fs(2) by (simp_all add: last_has_append)
  moreover have "\<forall>f \<in> set (butlast (fs @ gs)). f ! 47 AND TCP_RST = 0 \<and> f ! 47 AND TCP_FIN = 0"
    using rest fs(2) by (auto simp: received_def r gs_def butlast_append dest: in_set_butlastD)
  moreover have "\<exists>i. ticks (tnic st) \<le> i \<and> i < ticks (tnic st') \<and> deadline \<le> clock_ms dev i"
    if "\<exists>i. ticks (tnic s) \<le> i \<and> i < ticks (tnic st') \<and> deadline \<le> clock_ms dev i"
    using that le(1) by (meson le_trans)
  ultimately show ?thesis
    using rest le m unfolding received_def r prod.case
    by (simp add: gs_def [symmetric] handed_over_append) blast
qed

lemma received_now:
  assumes "ticks (tnic st) \<le> ticks (tnic s)" "polls (tnic st) \<le> polls (tnic s)" "length out \<le> unat max_len"
    and "frames_in dev conn (polls (tnic st)) (polls (tnic s)) = []"
    and "out = [] \<Longrightarrow> max_len = 0 \<or> (\<exists>i. ticks (tnic st) \<le> i \<and> i < ticks (tnic s) \<and> deadline \<le> clock_ms dev i)"
  shows "received dev max_len deadline conn out st (Got (int (length out)) out, conn, s)"
  using assms by (simp add: received_def last_has_def handed_over_def conn_same)

text \<open>A segment that closes the connection ends the call.\<close>

lemma received_last:
  assumes "ticks (tnic st) \<le> ticks (tnic s)" "polls (tnic st) \<le> polls (tnic s)"
    and "frames_in dev conn (polls (tnic st)) (polls (tnic s)) = [f]" "f ! 47 AND TCP_RST \<noteq> 0 \<or> f ! 47 AND TCP_FIN \<noteq> 0"
    and "out' = handed_over max_len out [f]" "n = (if f ! 47 AND TCP_RST \<noteq> 0 \<and> out' = [] then -1 else int (length out'))"
    and "conn' = conn\<lparr>ack_num := next_ack (ack_num conn) f, state := (if f ! 47 AND TCP_RST \<noteq> 0 then TCP_CLOSED else TCP_CLOSE_WAIT)\<rparr>"
  shows "received dev max_len deadline conn out st (Got n out', conn', s)"
  using assms by (auto simp: received_def last_has_def)

lemma payload_le: "length (payload f) \<le> 1460"
  by (simp add: payload_def)

text \<open>Below two gigabytes the 32-bit sums are exact, and a copy is cut at the end of the buffer.\<close>

lemma recv_copy_spec:
  assumes "length out < unat max_len" "unat max_len < 2 ^ 31" "r_len sg = length (r_data sg)" "r_len sg \<le> 1460"
  shows "recv_copy max_len out sg = Some (take (unat max_len) (out @ r_data sg))"
proof -
  let ?t = "word_of_nat (length out) :: u32" and ?c = "word_of_nat (r_len sg) :: u32"
  have u: "unat ?t = length out" "unat ?c = r_len sg" using assms by (simp_all add: unat_of_nat)
  have a: "unat (?t + ?c) = length out + r_len sg" using assms u by (simp add: unat_word_ariths)
  have "unat (max_len - ?t) = unat max_len - length out" using assms(1) u by (simp add: unat_sub_if_size word_le_nat_alt)
  then show ?thesis using a u assms(1,3) by (simp add: recv_copy_def Let_def word_less_nat_alt)
qed

text \<open>One round of the loop.\<close>

lemma recv_data_round:
  assumes "clock_ms dev (ticks (tnic st)) < deadline" "word_of_nat (length out) < max_len"
    and "recv_tcp_frame dev conn (Some 1460) pt (st\<lparr>tnic := (tnic st)\<lparr>ticks := ticks (tnic st) + 2\<rparr>\<rparr>) = Some (r, st1)"
    and "pt = (let remain = ucast (deadline - clock_ms dev (ticks (tnic st) + 1)) :: u32 in if remain < 200 then remain else 200)"
  shows "recv_data dev max_len deadline conn out got st =
    (case r of
       None \<Rightarrow> if got then Some (Got (sint (word_of_nat (length out) :: u32)) out, conn, st1)
               else recv_data dev max_len deadline conn out got st1
     | Some sg \<Rightarrow>
         if r_flags sg AND TCP_RST \<noteq> 0 then
           Some (Got (if 0 < (word_of_nat (length out) :: u32) then sint (word_of_nat (length out) :: u32) else -1) out,
                 conn\<lparr>state := TCP_CLOSED\<rparr>, st1)
         else if r_flags sg AND TCP_FIN \<noteq> 0 then
           let c = conn\<lparr>ack_num := r_seq sg + word_of_nat (r_len sg) + 1\<rparr>; s = send_tcp_frame dev c TCP_ACK [] st1;
               c = c\<lparr>state := TCP_CLOSE_WAIT\<rparr>
           in (case (if 0 < r_len sg then recv_copy max_len out sg else Some out) of
                 None \<Rightarrow> Some (Past_buffer, c, s)
               | Some o2 \<Rightarrow> Some (Got (sint (word_of_nat (length o2) :: u32)) o2, c, s))
         else if 0 < r_len sg then
           let c = conn\<lparr>ack_num := r_seq sg + word_of_nat (r_len sg)\<rparr>
           in (case recv_copy max_len out sg of
                 None \<Rightarrow> Some (Past_buffer, c, st1)
               | Some o2 \<Rightarrow> recv_data dev max_len deadline c o2 True (send_tcp_frame dev c TCP_ACK [] st1))
         else recv_data dev max_len deadline conn out got st1)"
  using assms
  by (subst recv_data.simps) (simp add: timer_eq Let_def cong: option.case_cong if_cong)

lemma clock_small: "unat (clock_ms dev k) \<le> 18446744073709"
proof -
  have "unat (clock_ns dev k) \<le> 18446744073709551615" using unat_u64_lt [of "clock_ns dev k"] by simp
  then have "unat (clock_ns dev k) div 1000000 \<le> 18446744073709551615 div 1000000" by (rule div_le_mono)
  then show ?thesis by (simp add: clock_ms_def unat_div)
qed

text \<open>
  The clock covers a deadline: it has passed for good from the \<open>n\<close>-th reading on, and a reading before, or one of the
  two that follow, is still followed by one a fifth of a second later.
\<close>

definition clock_covers :: "netdev \<Rightarrow> nat \<Rightarrow> u64 \<Rightarrow> bool" where
  "clock_covers dev n deadline \<longleftrightarrow> (\<forall>k\<ge>n. deadline \<le> clock_ms dev k) \<and>
     (\<forall>k<n + 3. \<exists>j. unat (clock_ms dev k) + 200 \<le> unat (clock_ms dev (k + j)))"

lemma recv_wait_returns:
  "deadline \<le> clock_ms dev (ticks (tnic st) + n) \<Longrightarrow> \<exists>r. recv_wait dev conn mx deadline st = Some r"
proof (induction n arbitrary: st)
  case 0
  then have "\<not> clock_ms dev (ticks (tnic st)) < deadline" by simp
  then show ?case by (simp add: recv_wait.simps [of dev conn mx deadline st] timer_eq)
next
  case (Suc n)
  let ?st = "st\<lparr>tnic := (tnic st)\<lparr>ticks := ticks (tnic st) + 1, polls := polls (tnic st) + 1\<rparr>\<rparr>"
  have "deadline \<le> clock_ms dev (ticks (tnic ?st) + n)" using Suc.prems by simp
  from Suc.IH [OF this] show ?case
    by (simp add: recv_wait.simps [of dev conn mx deadline st] timer_eq receive_eq split: option.splits)
qed

lemma recv_frame_returns:
  assumes "unat (clock_ms dev (ticks (tnic st))) + 200 \<le> unat (clock_ms dev (ticks (tnic st) + j))" "pt \<le> 200"
  shows "\<exists>r st'. recv_tcp_frame dev conn mx pt st = Some (r, st')"
proof -
  let ?now = "clock_ms dev (ticks (tnic st))"
  have "unat (ucast pt :: u64) \<le> 200"
    using assms(2) by (simp add: unsigned_ucast_eq take_bit_eq_mod word_le_nat_alt)
  then have "unat (?now + ucast pt) \<le> unat ?now + 200"
    using clock_small [of dev "ticks (tnic st)"] by (simp add: unat_word_ariths)
  then have d: "?now + ucast pt \<le> clock_ms dev (ticks (tnic st) + j)" using assms(1) by (simp add: word_le_nat_alt)
  obtain i where "j = Suc i" using assms(1) by (cases j) simp_all
  then show ?thesis
    using recv_wait_returns [of "?now + ucast pt" dev "st\<lparr>tnic := (tnic st)\<lparr>ticks := ticks (tnic st) + 1\<rparr>\<rparr>" i conn mx] d
    by (auto simp: recv_tcp_frame_def timer_eq)
qed

lemma poll_timeout_le: "(let remain = x :: u32 in if remain < 200 then remain else 200) \<le> 200"
  by (auto simp: Let_def intro: less_imp_le)

lemma recv_data_returns:
  assumes clock: "clock_covers dev n deadline" and small: "unat max_len < 2 ^ 31"
    and "length out \<le> unat max_len" "n - ticks (tnic st) \<le> j" "got \<Longrightarrow> out \<noteq> []"
  shows "\<exists>r. recv_data dev max_len deadline conn out got st = Some r \<and> received dev max_len deadline conn out st r"
  using assms(3-)
proof (induction j arbitrary: conn out got st rule: less_induct)
  case (less j)
  let ?t = "ticks (tnic st)" and ?l = "word_of_nat (length out) :: u32"
  have ul: "unat ?l = length out" using less.prems(1) small by (simp add: unat_of_nat)
  have lt: "?l < max_len \<longleftrightarrow> length out < unat max_len" using ul by (simp add: word_less_nat_alt)
  have si: "sint ?l = int (length out)" using less.prems(1) small by (intro sint_of_length(1)) simp
  show ?case
  proof (cases "clock_ms dev ?t < deadline \<and> length out < unat max_len")
    case False
    let ?s = "st\<lparr>tnic := (tnic st)\<lparr>ticks := ?t + 1\<rparr>\<rparr>"
    have "received dev max_len deadline conn out st (Got (int (length out)) out, conn, ?s)"
      using less.prems(1) False by (intro received_now) (auto simp: not_less unat_eq_0)
    moreover have "recv_data dev max_len deadline conn out got st = Some (Got (int (length out)) out, conn, ?s)"
      using False by (subst recv_data.simps) (auto simp: timer_eq lt si)
    ultimately show ?thesis by blast
  next
    case True
    then have tn: "?t < n" using clock by (meson clock_covers_def not_le)
    define pt where "pt = (let remain = ucast (deadline - clock_ms dev (?t + 1)) :: u32 in if remain < 200 then remain else 200)"
    let ?st = "st\<lparr>tnic := (tnic st)\<lparr>ticks := ?t + 2\<rparr>\<rparr>"
    have "?t + 2 < n + 3" using tn by simp
    then obtain i where "unat (clock_ms dev (?t + 2)) + 200 \<le> unat (clock_ms dev (?t + 2 + i))"
      using clock unfolding clock_covers_def by blast
    then obtain r st1 where rv: "recv_tcp_frame dev conn (Some 1460) pt ?st = Some (r, st1)"
      using recv_frame_returns [of dev ?st i pt conn "Some 1460"] poll_timeout_le unfolding pt_def by auto
    note w = recv_frame_sound [OF rv]
    have le: "?t \<le> ticks (tnic st1)" "polls (tnic st) \<le> polls (tnic st1)" and later: "?t < ticks (tnic st1)"
      using w by (simp_all add: waited_def only_waits_def)
    have dec: "n - ticks (tnic st1) < j" using later tn less.prems(2) by linarith
    have step: "\<exists>r. recv_data dev max_len deadline c o2 g s = Some r \<and> received dev max_len deadline c o2 s r"
      if "length o2 \<le> unat max_len" "ticks (tnic s) = ticks (tnic st1)" "g \<Longrightarrow> o2 \<noteq> []" for c o2 g s
      using less.IH [OF dec that(1) _ that(3)] that(2) by simp
    note round = recv_data_round [OF conjunct1 [OF True] iffD2 [OF lt conjunct2 [OF True]] rv pt_def, of got]
    show ?thesis
    proof (cases r)
      case None
      then have fs: "frames_in dev conn (polls (tnic st)) (polls (tnic st1)) = []" using w by (simp add: waited_def)
      show ?thesis
      proof (cases got)
        case True
        then show ?thesis
          unfolding round None using received_now [OF le less.prems(1) fs] less.prems(3) by (simp add: si)
      next
        case False
        obtain r' where r': "recv_data dev max_len deadline conn out got st1 = Some r'" "received dev max_len deadline conn out st1 r'"
          using step [OF less.prems(1) refl, of got conn] less.prems(3) by blast
        have "received dev max_len deadline conn out st r'"
          using r'(2) less.prems(1) by (intro received_step [OF le fs]) (simp_all add: handed_over_def)
        then show ?thesis unfolding round None using r'(1) False by simp
      qed
    next
      case (Some sg)
      obtain f where fs: "frames_in dev conn (polls (tnic st)) (polls (tnic st1)) = [f]" and p: "tcp_parse conn (Some 1460) f = Some sg"
        using w Some by (auto simp: waited_def)
      have sg: "r_flags sg = f ! 47" "r_seq sg = be32 38 f" "r_data sg = payload f" "r_len sg = length (payload f)"
        using parse_accepts(2) [OF p] parse_payload [OF p] by simp_all
      define o2 where "o2 = take (unat max_len) (out @ payload f)"
      have cp: "recv_copy max_len out sg = Some o2"
        using recv_copy_spec [OF conjunct2 [OF True] small, of sg] payload_le [of f] sg by (simp add: o2_def)
      have l: "length o2 \<le> unat max_len" by (simp add: o2_def)
      have s2: "sint (word_of_nat (length o2) :: u32) = int (length o2)" using l small by (intro sint_of_length(1)) simp
      have o: "payload f = [] \<Longrightarrow> o2 = out" using less.prems(1) by (simp add: o2_def)
      have st: "f ! 47 AND TCP_RST = 0 \<Longrightarrow> handed_over max_len out [f] = o2" by (simp add: handed_over_def o2_def)
      consider (rst) "f ! 47 AND TCP_RST \<noteq> 0"
        | (fin) "f ! 47 AND TCP_RST = 0" "f ! 47 AND TCP_FIN \<noteq> 0"
        | (data) "f ! 47 AND TCP_RST = 0" "f ! 47 AND TCP_FIN = 0" "payload f \<noteq> []"
        | (other) "f ! 47 AND TCP_RST = 0" "f ! 47 AND TCP_FIN = 0" "payload f = []" by blast
      then show ?thesis
      proof cases
        case rst
        have z: "0 < ?l \<longleftrightarrow> out \<noteq> []" using ul by (simp add: word_less_nat_alt)
        have "received dev max_len deadline conn out st
            (Got (if 0 < ?l then sint ?l else -1) out, conn\<lparr>state := TCP_CLOSED\<rparr>, st1)"
          using rst less.prems(1) by (intro received_last [OF le fs]) (auto simp: handed_over_def next_ack_def z si)
        then show ?thesis using rst by (simp add: round Some sg)
      next
        case fin
        let ?c = "conn\<lparr>ack_num := be32 38 f + word_of_nat (length (payload f)) + 1\<rparr>"
        have "received dev max_len deadline conn out st
            (Got (int (length o2)) o2, ?c\<lparr>state := TCP_CLOSE_WAIT\<rparr>, send_tcp_frame dev ?c TCP_ACK [] st1)"
          using fin le fs by (intro received_last [where f = f]) (auto simp: st next_ack_def)
        then show ?thesis using fin cp o by (cases "payload f = []") (simp_all add: round Some sg s2 Let_def si)
      next
        case data
        let ?c = "conn\<lparr>ack_num := be32 38 f + word_of_nat (length (payload f))\<rparr>"
        let ?s = "send_tcp_frame dev ?c TCP_ACK [] st1"
        have "o2 \<noteq> []" using True data by (auto simp: o2_def)
        then obtain r' where r': "recv_data dev max_len deadline ?c o2 True ?s = Some r'" "received dev max_len deadline ?c o2 ?s r'"
          using step [OF l, of ?s True ?c] by auto
        have "received dev max_len deadline conn out st r'"
          using data le fs r'(2) by (intro received_step [of st ?s dev conn "[f]"]) (simp_all add: st next_ack_def)
        then show ?thesis using r'(1) data cp by (simp add: round Some sg Let_def)
      next
        case other
        obtain r' where r': "recv_data dev max_len deadline conn out got st1 = Some r'" "received dev max_len deadline conn out st1 r'"
          using step [OF less.prems(1) refl, of got conn] less.prems(3) by blast
        have "received dev max_len deadline conn out st r'"
          using other r'(2) by (intro received_step [OF le fs]) (simp_all add: st o next_ack_def)
        then show ?thesis using r'(1) other by (simp add: round Some sg)
      qed
    qed
  qed
qed


text \<open>
  C28. \<open>tcp_recv\<close> returns, and never stores past the caller's buffer (of less than two gigabytes). On a connection that
  is neither established nor closed by the peer it fails and touches nothing. Otherwise let \<open>fs\<close> be all the TCP segments
  between exactly the two ends of the connection among the frames received during the call, in the order of reception.
  Only the last of them may carry RST or FIN, the bytes handed over are the contents of the segments without RST one after
  the other, cut at the end of the buffer, and the value is their number, or -1 when a reset came before any byte. The
  connection ends CLOSED after a reset and CLOSE_WAIT after a FIN, and keeps its state otherwise; its acknowledgement
  number covers the last segment with contents or FIN; nothing else of it changes. No byte is handed over only when the
  buffer has no room, the peer closed, or the deadline passed during the call.
\<close>

theorem tcp_recv_returns:
  assumes clock: "clock_covers dev n (clock_ms dev (ticks (tnic st)) + ucast timeout)" and small: "unat max_len < 2 ^ 31"
  shows "\<exists>len out conn' st'. tcp_recv dev conn max_len timeout st = Some (Got len out, conn', st') \<and>
    (if state conn \<in> {TCP_ESTABLISHED, TCP_CLOSE_WAIT} then
       (\<exists>fs. fs = filter (on_connection conn) (map (rx_frame dev) [polls (tnic st)..<polls (tnic st')]) \<and>
          (\<forall>f \<in> set (butlast fs). f ! 47 AND TCP_RST = 0 \<and> f ! 47 AND TCP_FIN = 0) \<and>
          out = take (unat max_len) (concat (map payload (filter (\<lambda>f. f ! 47 AND TCP_RST = 0) fs))) \<and>
          len = (if last_has TCP_RST fs \<and> out = [] then -1 else int (length out)) \<and>
          conn' = conn\<lparr>ack_num := foldl next_ack (ack_num conn) fs,
            state := (if last_has TCP_RST fs then TCP_CLOSED else if last_has TCP_FIN fs then TCP_CLOSE_WAIT else state conn)\<rparr> \<and>
          (out = [] \<longrightarrow> max_len = 0 \<or> last_has TCP_RST fs \<or> last_has TCP_FIN fs \<or>
             (\<exists>i. ticks (tnic st) < i \<and> i < ticks (tnic st') \<and>
                  clock_ms dev (ticks (tnic st)) + ucast timeout \<le> clock_ms dev i)))
     else len = -1 \<and> out = [] \<and> conn' = conn \<and> st' = st)"
proof (cases "state conn \<in> {TCP_ESTABLISHED, TCP_CLOSE_WAIT}")
  case True
  let ?d = "clock_ms dev (ticks (tnic st)) + ucast timeout" and ?st = "st\<lparr>tnic := (tnic st)\<lparr>ticks := ticks (tnic st) + 1\<rparr>\<rparr>"
  obtain r where r: "recv_data dev max_len ?d conn [] False ?st = Some r" "received dev max_len ?d conn [] ?st r"
    using recv_data_returns [OF clock small _ order_refl, where out = "[]" and got = False and st = ?st and conn = conn] by auto
  obtain g conn' st' where g: "r = (g, conn', st')" by (cases r)
  have t: "tcp_recv dev conn max_len timeout st = Some (g, conn', st')" using True r(1) g by (auto simp: tcp_recv_def timer_eq)
  define fs where "fs = frames_in dev conn (polls (tnic st)) (polls (tnic st'))"
  define out where "out = handed_over max_len [] fs"
  have o: "out = take (unat max_len) (concat (map payload (filter (\<lambda>f. f ! 47 AND TCP_RST = 0) fs)))"
    by (simp add: out_def handed_over_def)
  have p: "polls (tnic ?st) = polls (tnic st)" and le: "ticks (tnic ?st) \<le> i \<longleftrightarrow> ticks (tnic st) < i" for i by auto
  note c = receivedD [OF r(2) [unfolded g], unfolded p, OF fs_def out_def, unfolded le]
  show ?thesis
    unfolding t if_P [OF True]
    by (intro exI conjI, unfold c(2), rule refl, unfold frames_in_def [symmetric], rule fs_def, rule c(1), rule o, rule refl,
        rule c(3), rule c(4))
next
  case False
  then show ?thesis by (simp add: tcp_recv_def)
qed

text \<open>A clock that moves on by 200 ms with every reading, and a peer that repeats a segment of three bytes.\<close>

definition talking_dev :: netdev where
  "talking_dev = sample_dev\<lparr>clock_ns := (\<lambda>k. of_nat (200000000 * min k 1000)),
     rx_frame := (\<lambda>_. tcp_wire sample_peer 7 0x18 [0x47, 0x45, 0x54])\<rparr>"

lemma talking_clock: "unat (clock_ms talking_dev k) = 200 * min k 1000"
proof -
  have "200000000 * min k 1000 \<le> 200000000000" by simp
  then have "(200000000 * min k 1000) mod 18446744073709551616 = 200000000 * min k 1000" by simp
  then show ?thesis by (simp add: clock_ms_def talking_dev_def unat_div unat_of_nat del: of_nat_mult)
qed

lemma still_segment:
  "tcp_parse sample_conn (Some 1460) (tcp_wire sample_peer 7 0x18 [0x47, 0x45, 0x54]) =
     Some \<lparr>r_flags = 0x18, r_seq = 100, r_ack = 200, r_len = 3, r_data = [0x47, 0x45, 0x54]\<rparr>"
  using frame_roundtrip [of sample_peer sample_conn "[0x47, 0x45, 0x54]" 7 "0x18"]
  by (simp add: sample_conn_def sample_peer_def conn_macs_def peer_of_def)

theorem tcp_recv_returns_witness:
  "\<exists>len out conn' st'. tcp_recv talking_dev sample_conn 2 1000 sample_mod = Some (Got len out, conn', st') \<and>
     len = int (length out) \<and> length out \<le> 2 \<and> state conn' = TCP_ESTABLISHED"
proof -
  have "clock_ms talking_dev 0 + ucast (1000 :: u32) = 1000"
    using talking_clock [of 0] by (simp add: unat_eq_0)
  then have c: "clock_covers talking_dev 5 (clock_ms talking_dev (ticks (tnic sample_mod)) + ucast (1000 :: u32))"
    by (auto simp: clock_covers_def sample_mod_def word_le_nat_alt talking_clock intro!: exI [of _ 1])
  have s: "state sample_conn = TCP_ESTABLISHED" by (simp add: sample_conn_def)
  have f: "rx_frame talking_dev k ! 47 = 0x18" for k
    using parse_accepts(2) [OF still_segment] by (simp add: talking_dev_def)
  have "\<not> last_has 4 (filter p (map (rx_frame talking_dev) ks)) \<and> \<not> last_has 1 (filter p (map (rx_frame talking_dev) ks))" for p ks
  proof (cases "filter p (map (rx_frame talking_dev) ks)" rule: rev_cases)
    case (snoc gs g)
    then have "g \<in> set (filter p (map (rx_frame talking_dev) ks))" by simp
    then obtain k where "g = rx_frame talking_dev k" by auto
    then show ?thesis unfolding snoc last_has_def by (simp add: f)
  qed (simp add: last_has_def)
  note no = conjunct1 [OF this] conjunct2 [OF this]
  have "unat (2 :: u32) < 2 ^ 31" by simp
  from tcp_recv_returns [OF c this, of sample_conn] show ?thesis
    unfolding s by (elim exE conjE) (simp add: no s)
qed


text \<open>
  C39. A segment longer than the caller's buffer is cut to it but acknowledged as a whole. When a segment of the
  connection without RST and FIN and with more than \<open>max_len\<close> bytes is the next frame, and it is polled within the
  millisecond the call began in (the first five readings of the clock agree), \<open>tcp_recv\<close> returns its first \<open>max_len\<close> bytes,
  and the one frame it sends acknowledges all of them. The sequence number the connection expects next lies behind the
  dropped bytes, so the peer has no reason to send them again.
\<close>

theorem tcp_recv_loses_acknowledged_bytes:
  assumes "state conn = TCP_ESTABLISHED" "has_rx dev" "has_tx dev" "0 < timeout"
    and frame: "f = rx_frame dev (polls (tnic st))" "on_connection conn f"
    and plain: "f ! 47 AND TCP_RST = 0" "f ! 47 AND TCP_FIN = 0"
    and long: "0 < max_len" "unat max_len < length (payload f)"
    and clock: "\<forall>k \<le> 4. clock_ms dev (ticks (tnic st) + k) = clock_ms dev (ticks (tnic st))"
  shows "\<exists>conn' st'. tcp_recv dev conn max_len timeout st =
      Some (Got (int (unat max_len)) (take (unat max_len) (payload f)), conn', st') \<and>
    conn' = conn\<lparr>ack_num := be32 38 f + word_of_nat (length (payload f))\<rparr> \<and>
    polls (tnic st') = polls (tnic st) + 1 \<and>
    sent (tnic st') = sent (tnic st) @ [tcp_wire conn' (g_ip_id st) TCP_ACK []]"
proof -
  let ?t = "ticks (tnic st)"
  define now where "now = clock_ms dev ?t"
  have c: "clock_ms dev (?t + k) = now" if "k \<le> 4" for k using clock that by (simp add: now_def)
  have small: "unat now \<le> 18446744073709" using clock_small [of dev ?t] by (simp add: now_def)
  have ml: "unat max_len < 1460" using long(2) payload_le [of f] by simp
  have up: "now < now + ucast u" if "0 < u" for u :: u32
  proof -
    have "unat u < 4294967296" using unat_u32_lt [of u] by simp
    moreover from this have "unat (ucast u :: u64) = unat u" by (simp add: unsigned_ucast_eq take_bit_eq_mod)
    moreover have "0 < unat u" using that by (simp add: word_less_nat_alt)
    ultimately show ?thesis using small by (simp add: word_less_nat_alt unat_word_ariths)
  qed
  obtain sg where p: "tcp_parse conn (Some 1460) f = Some sg" using parse_accepts(1) [of conn "Some 1460" f] frame(2) by auto
  have sg: "r_flags sg = f ! 47" "r_seq sg = be32 38 f" "r_data sg = payload f" "r_len sg = length (payload f)"
    using parse_accepts(2) [OF p] parse_payload [OF p] by simp_all
  have pne: "payload f \<noteq> []" using long(2) by auto
  have ne: "f \<noteq> []" using frame(2) by (auto simp: on_connection_def)
  let ?d = "now + ucast timeout" and ?st = "st\<lparr>tnic := (tnic st)\<lparr>ticks := ?t + 1\<rparr>\<rparr>"
  let ?st1 = "st\<lparr>tnic := (tnic st)\<lparr>ticks := ?t + 5, polls := polls (tnic st) + 1\<rparr>\<rparr>"
  let ?c = "conn\<lparr>ack_num := be32 38 f + word_of_nat (length (payload f))\<rparr>"
  define pt where "pt = (let remain = ucast (?d - clock_ms dev (ticks (tnic ?st) + 1)) :: u32 in if remain < 200 then remain else 200)"
  have "pt = (if timeout < 200 then timeout else 200)" using c [of 2] by (simp add: pt_def Let_def ucast_up_ucast_id is_up)
  then have "now < now + ucast pt" using assms(4) by (intro up) simp
  then have r: "recv_tcp_frame dev conn (Some 1460) pt (?st\<lparr>tnic := (tnic ?st)\<lparr>ticks := ticks (tnic ?st) + 2\<rparr>\<rparr>) = Some (Some sg, ?st1)"
    using assms(2) ne p frame(1) c [of 3] c [of 4]
    by (simp add: recv_tcp_frame_def timer_eq recv_wait.simps receive_eq add.commute numeral_3_eq_3 eval_nat_numeral)
  have cp: "recv_copy max_len [] sg = Some (take (unat max_len) (payload f))"
    using recv_copy_spec [of "[]" max_len sg] long(1) ml payload_le [of f] sg by (simp add: word_less_nat_alt)
  have "recv_data dev max_len ?d conn [] False ?st =
      recv_data dev max_len ?d ?c (take (unat max_len) (payload f)) True (send_tcp_frame dev ?c TCP_ACK [] ?st1)"
    using recv_data_round [OF _ _ r pt_def, of "[]" max_len False] plain long up [OF assms(4)] c [of 1] sg cp pne
    by (simp add: Let_def)
  moreover have "length (take (unat max_len) (payload f)) = unat max_len" using long(2) by simp
  moreover have "sint max_len = int (unat max_len)" using sint_of_length(1) [of "unat max_len"] ml by simp
  ultimately show ?thesis using assms(1,3) c [of 0]
    by (simp add: tcp_recv_def timer_eq recv_data.simps [of _ _ _ _ _ True] send_tcp_frame_def net_tx_def)
qed

definition still_dev :: netdev where
  "still_dev = sample_dev\<lparr>rx_frame := (\<lambda>_. tcp_wire sample_peer 7 0x18 [0x47, 0x45, 0x54])\<rparr>"

theorem tcp_recv_loses_acknowledged_bytes_witness:
  "\<exists>st'. tcp_recv still_dev sample_conn 2 1000 sample_mod = Some (Got 2 [0x47, 0x45], sample_conn\<lparr>ack_num := 103\<rparr>, st')"
proof -
  let ?f = "tcp_wire sample_peer 7 0x18 [0x47, 0x45, 0x54]"
  have f: "on_connection sample_conn ?f" "?f ! 47 = 0x18" "be32 38 ?f = 100" "payload ?f = [0x47, 0x45, 0x54]"
    using parse_accepts(2) [OF still_segment] parse_payload [OF still_segment] by simp_all
  have "?f = rx_frame still_dev (polls (tnic sample_mod))" by (simp add: still_dev_def)
  from tcp_recv_loses_acknowledged_bytes [OF _ _ _ _ this f(1), of 1000 2] f show ?thesis
    by (auto simp: sample_conn_def still_dev_def sample_dev_def clock_ms_def)
qed

end
