(* ===== verification/Dns.thy ===== *)
theory Dns
  imports Tcp
begin

text \<open>
  The resolver, \<^verbatim>\<open>net/dns.c\<close>: the query it builds in a frame of 512 bytes, the scan of the response for the
  first address record, and the wait for the response. It shares the variables and the address resolution of the TCP
  client. A write past the frame and a read past the response are faults of their own.
\<close>

section \<open>Query\<close>

text \<open>The length-prefixed labels of a host name; the name ends before its first zero byte, and 46 is the dot.\<close>

function dns_name :: "bytes \<Rightarrow> bytes" where
  "dns_name p =
     (if p = [] then []
      else let label = takeWhile (\<lambda>c. c \<noteq> 46) p;
               rest = dropWhile (\<lambda>c. c \<noteq> 46) p
           in word_of_nat (length label) # label @ (if rest = [] then [] else dns_name (tl rest)))"
  by pat_completeness auto
termination
proof (relation "measure length", simp)
  fix p :: bytes and label rest
  assume "p \<noteq> []" and "rest = dropWhile (\<lambda>c. c \<noteq> 46) p"
  then have "0 < length p" "length rest \<le> length p" by (simp_all add: length_dropWhile_le)
  then show "(tl rest, p) \<in> measure length" unfolding in_measure length_tl by linarith
qed

declare dns_name.simps [simp del]

definition dns_query :: "u16 \<Rightarrow> bytes \<Rightarrow> bytes" where
  "dns_query txid hostname =
     [ucast (drop_bit 8 txid), ucast txid, 0x01, 0x00, 0x00, 0x01, 0x00, 0x00, 0x00, 0x00, 0x00, 0x00] @
     dns_name hostname @ [0] @ [0x00, 0x01, 0x00, 0x01]"

definition dns_port :: "u16 \<Rightarrow> u16" where
  "dns_port txid = 49152 + (txid AND 0x3FFF)"

definition dns_header :: "bytes \<Rightarrow> u32 \<Rightarrow> nat \<Rightarrow> tcp_mod \<Rightarrow> ip_header" where
  "dns_header mac server off st = \<lparr>eth_dst = mac, eth_src = g_local_mac st, ip_len = 20 + (8 + word_of_nat off), ip_id = 1,
     ip_frag = 0, ip_proto = 17, ip_src = g_local_ip st, ip_dst = server\<rparr>"

text \<open>The frame handed to the driver, or \<open>None\<close> when the query does not fit into the buffer behind the headers.\<close>

definition dns_wire :: "bytes \<Rightarrow> u32 \<Rightarrow> u16 \<Rightarrow> bytes \<Rightarrow> tcp_mod \<Rightarrow> bytes option" where
  "dns_wire mac server txid hostname st =
     (let q = dns_query txid hostname;
          h = dns_header mac server (length q) st
      in if 512 < 42 + length q then None
         else Some (pad60 (eth_bytes h @ ip_bytes h @ udp_bytes (dns_port txid) 53 (8 + word_of_nat (length q)) @ q)))"

section \<open>Response\<close>

function skip_name :: "bytes \<Rightarrow> nat \<Rightarrow> nat option" where
  "skip_name pkt off =
     (if off < length pkt then
        do { c \<leftarrow> byte_at pkt off;
             if c = 0 then Some (off + 1)
             else if c AND 0xC0 = 0xC0 then Some (off + 2)
             else skip_name pkt (off + (unat c + 1)) }
      else Some off)"
  by pat_completeness auto
termination
  by (relation "measure (\<lambda>(pkt, off). length pkt - off)") auto

declare skip_name.simps [simp del]

definition word_at :: "bytes \<Rightarrow> nat \<Rightarrow> u16 option" where
  "word_at bs i = (if i + 2 \<le> length bs then Some (be16 i bs) else None)"

definition dword_at :: "bytes \<Rightarrow> nat \<Rightarrow> u32 option" where
  "dword_at bs i = (if i + 4 \<le> length bs then Some (be32 i bs) else None)"

fun dns_questions :: "nat \<Rightarrow> bytes \<Rightarrow> nat \<Rightarrow> nat option" where
  "dns_questions 0 rp roff = Some roff"
| "dns_questions (Suc n) rp roff =
     (if roff < length rp then do { off \<leftarrow> skip_name rp roff; dns_questions n rp (off + 4) } else Some roff)"

text \<open>The search for an address: the outer option is a read out of range, the inner one whether an address was found.\<close>

fun dns_answers :: "nat \<Rightarrow> bytes \<Rightarrow> nat \<Rightarrow> u32 option option" where
  "dns_answers 0 rp roff = Some None"
| "dns_answers (Suc n) rp roff =
     (if roff + 10 \<le> length rp then
        do { roff \<leftarrow> skip_name rp roff;
             if roff + 10 > length rp then Some None
             else do { type \<leftarrow> word_at rp roff;
                       rdlength \<leftarrow> word_at rp (roff + 8);
                       if type = 1 \<and> rdlength = 4 \<and> roff + 10 + 4 \<le> length rp then
                         do { ip \<leftarrow> dword_at rp (roff + 10); Some (Some ip) }
                       else dns_answers n rp (roff + 10 + unat rdlength) } }
      else Some None)"

definition dns_parse :: "bytes \<Rightarrow> u32 option option" where
  "dns_parse rp = do { roff \<leftarrow> dns_questions (unat (be16 4 rp)) rp 12; dns_answers (unat (be16 6 rp)) rp roff }"

text \<open>How a resolution ends.\<close>

datatype dns_outcome = Dns_status hal_status "u32 option" | Dns_fault

text \<open>One received frame; \<open>None\<close> when the wait goes on.\<close>

definition dns_reply :: "u16 \<Rightarrow> bytes \<Rightarrow> dns_outcome option" where
  "dns_reply txid rx =
     (let rp = drop 42 rx
      in if length rx < 42 then None
         else if be16 12 rx \<noteq> 0x0800 \<or> rx ! 23 \<noteq> 17 then None
         else if be16 36 rx \<noteq> dns_port txid then None
         else if length rp < 12 then None
         else if be16 0 rp \<noteq> txid then None
         else if be16 2 rp AND 0x8000 = 0 then None
         else if be16 2 rp AND 0x000F \<noteq> 0 then Some (Dns_status HAL_ERROR None)
         else if be16 6 rp = 0 then Some (Dns_status HAL_ERROR None)
         else (case dns_parse rp of
                 None \<Rightarrow> Some Dns_fault
               | Some None \<Rightarrow> Some (Dns_status HAL_ERROR None)
               | Some (Some ip) \<Rightarrow> Some (Dns_status HAL_OK (Some ip))))"

partial_function (option) dns_wait :: "netdev \<Rightarrow> u16 \<Rightarrow> u64 \<Rightarrow> tcp_mod \<Rightarrow> (dns_outcome \<times> tcp_mod) option" where
  "dns_wait dev txid start st =
     (let (now, st) = timer_ms dev st
      in if now - start < 5000 then
           let (rx, st) = receive dev st
           in (case (if rx = [] then None else dns_reply txid rx) of
                 None \<Rightarrow> dns_wait dev txid start st
               | Some r \<Rightarrow> Some (r, st))
         else Some (Dns_status HAL_TIMEOUT None, st))"

definition dns_resolve :: "netdev \<Rightarrow> bytes \<Rightarrow> u32 \<Rightarrow> tcp_mod \<Rightarrow> (dns_outcome \<times> tcp_mod) option" where
  "dns_resolve dev hostname server st =
     (if \<not> has_tx dev \<or> \<not> has_rx dev then Some (Dns_status HAL_NO_DEVICE None, st)
      else do { ((rc, mac), st) \<leftarrow> arp_resolve dev (next_hop server st) st;
                case mac of
                  None \<Rightarrow> Some (Dns_status rc None, st)
                | Some m \<Rightarrow>
                    let (ns, st) = timer_ns dev st;
                        txid = ucast ns
                    in (case dns_wire m server txid hostname st of
                          None \<Rightarrow> Some (Dns_fault, st)
                        | Some frame \<Rightarrow>
                            let st = st\<lparr>tnic := net_tx frame (tnic st)\<rparr>;
                                (start, st) = timer_ms dev st
                            in dns_wait dev txid start st) })"

section \<open>Bounds\<close>

lemma skip_name_returns: "\<exists>off'. skip_name pkt off = Some off' \<and> off \<le> off'"
proof (induction pkt off rule: skip_name.induct)
  case (1 pkt off)
  show ?case
  proof (cases "off < length pkt \<and> pkt ! off \<noteq> 0 \<and> pkt ! off AND 0xC0 \<noteq> 0xC0")
    case True
    then obtain o2 where "skip_name pkt (off + (unat (pkt ! off) + 1)) = Some o2" "off + (unat (pkt ! off) + 1) \<le> o2"
      using 1 [of "pkt ! off"] by auto
    then show ?thesis using True by (subst skip_name.simps) auto
  next
    case False
    then show ?thesis by (subst skip_name.simps) auto
  qed
qed

lemma questions_return: "\<exists>off. dns_questions n rp roff = Some off"
proof (induction n arbitrary: roff)
  case (Suc n)
  obtain o2 where "skip_name rp roff = Some o2" using skip_name_returns by blast
  then show ?case using Suc.IH [of "o2 + 4"] by simp
qed simp

lemma answers_return: "\<exists>r. dns_answers n rp roff = Some r"
proof (induction n arbitrary: roff)
  case (Suc n)
  obtain o2 where o2: "skip_name rp roff = Some o2" using skip_name_returns by blast
  show ?case
  proof (cases "roff + 10 \<le> length rp \<and> o2 + 10 \<le> length rp")
    case True
    then have "word_at rp o2 = Some (be16 o2 rp)" "word_at rp (o2 + 8) = Some (be16 (o2 + 8) rp)"
      by (simp_all add: word_at_def)
    then show ?thesis using True o2 Suc.IH [of "o2 + 10 + unat (be16 (o2 + 8) rp)"]
      by (auto simp: dword_at_def)
  qed (use o2 in auto)
qed simp

lemma parse_returns: "\<exists>r. dns_parse rp = Some r"
  using questions_return [of "unat (be16 4 rp)" rp 12] answers_return by (auto simp: dns_parse_def)

lemma reply_no_fault: "dns_reply txid rx \<noteq> Some Dns_fault"
proof -
  obtain r where "dns_parse (drop 42 rx) = Some r" using parse_returns by blast
  then show ?thesis by (simp add: dns_reply_def Let_def split: option.splits)
qed

text \<open>
  No response makes the resolver read outside it: whatever bytes a frame holds, the scan of its questions and
  records ends and every byte it reads is one that was received.
\<close>

theorem dns_reply_in_bounds: "dns_reply txid rx \<noteq> Some Dns_fault"
  by (rule reply_no_fault)

section \<open>Well-formed responses\<close>

text \<open>A domain name: its labels and, when it is compressed, the two bytes of the pointer that ends it.\<close>

datatype domain_name = Domain_name "bytes list" "(u8 \<times> u8) option"

fun name_ok :: "domain_name \<Rightarrow> bool" where
  "name_ok (Domain_name labels ptr) \<longleftrightarrow>
     list_all (\<lambda>l. 0 < length l \<and> length l < 64) labels \<and> (case ptr of None \<Rightarrow> True | Some (h, l) \<Rightarrow> h AND 0xC0 = 0xC0)"

definition label_bytes :: "bytes \<Rightarrow> bytes" where
  "label_bytes l = word_of_nat (length l) # l"

fun name_bytes :: "domain_name \<Rightarrow> bytes" where
  "name_bytes (Domain_name labels ptr) = concat (map label_bytes labels) @ (case ptr of None \<Rightarrow> [0] | Some (h, l) \<Rightarrow> [h, l])"

text \<open>A resource record: its name, its type, class and time to live, and its data.\<close>

record dns_record =
  r_name :: domain_name
  r_type :: u16
  r_class :: u16
  r_ttl :: u32
  r_rdata :: bytes

definition record_ok :: "dns_record \<Rightarrow> bool" where
  "record_ok r \<longleftrightarrow> name_ok (r_name r) \<and> length (r_rdata r) < 65536"

definition record_bytes :: "dns_record \<Rightarrow> bytes" where
  "record_bytes r = name_bytes (r_name r) @ put_be16 (r_type r) @ put_be16 (r_class r) @ put_be32 (r_ttl r) @
     put_be16 (word_of_nat (length (r_rdata r))) @ r_rdata r"

definition question_bytes :: "domain_name \<times> u16 \<times> u16 \<Rightarrow> bytes" where
  "question_bytes = (\<lambda>(nm, qtype, qclass). name_bytes nm @ put_be16 qtype @ put_be16 qclass)"

text \<open>The first address among the records.\<close>

fun first_address :: "dns_record list \<Rightarrow> u32 option" where
  "first_address [] = None"
| "first_address (r # rs) = (if r_type r = 1 \<and> length (r_rdata r) = 4 then Some (be32 0 (r_rdata r)) else first_address rs)"

lemma small_label:
  assumes "0 < n" "n < 64"
  shows "(word_of_nat n :: u8) \<noteq> 0" "(word_of_nat n :: u8) AND 0xC0 \<noteq> 0xC0" "unat (word_of_nat n :: u8) = n"
proof -
  show u: "unat (word_of_nat n :: u8) = n" using assms by (simp add: unat_of_nat)
  show "(word_of_nat n :: u8) \<noteq> 0" using u assms by (metis less_irrefl unat_0)
  have "\<forall>k\<in>{1..<64}. (word_of_nat k :: u8) AND 0xC0 \<noteq> 0xC0" by code_simp
  then show "(word_of_nat n :: u8) AND 0xC0 \<noteq> 0xC0" using assms by simp
qed

lemma length_label_bytes [simp]: "length (label_bytes l) = length l + 1"
  by (simp add: label_bytes_def)

lemma skip_labels:
  "list_all (\<lambda>l. 0 < length l \<and> length l < 64) labels \<Longrightarrow>
   skip_name (pre @ concat (map label_bytes labels) @ post) (length pre) =
   skip_name (pre @ concat (map label_bytes labels) @ post) (length pre + length (concat (map label_bytes labels)))"
proof (induction labels arbitrary: pre)
  case (Cons l ls)
  let ?pkt = "pre @ concat (map label_bytes (l # ls)) @ post"
  have "?pkt ! length pre = word_of_nat (length l)" "length pre < length ?pkt"
    by (simp_all add: label_bytes_def [of l] nth_append)
  then have "skip_name ?pkt (length pre) = skip_name ?pkt (length pre + (length l + 1))"
    using small_label [of "length l"] Cons.prems by (subst skip_name.simps) simp
  then show ?case using Cons.IH [of "pre @ label_bytes l"] Cons.prems by (simp add: add.assoc)
qed simp

lemma skip_name_bytes:
  assumes "name_ok nm"
  shows "skip_name (pre @ name_bytes nm @ post) (length pre) = Some (length pre + length (name_bytes nm))"
proof (cases nm)
  case (Domain_name labels ptr)
  let ?l = "concat (map label_bytes labels)"
  define e where "e = (case ptr of None \<Rightarrow> [0] | Some (h, l) \<Rightarrow> [h, l])"
  have "skip_name (pre @ ?l @ e @ post) (length pre + length ?l) = Some (length pre + length ?l + length e)"
    using assms Domain_name
    by (subst skip_name.simps) (auto simp: e_def nth_append split: option.splits)
  then show ?thesis using skip_labels [of labels pre "e @ post"] assms Domain_name by (simp add: e_def)
qed


lemma be16_at: "off = length pre \<Longrightarrow> be16 off (pre @ put_be16 v @ post) = v"
  by (simp add: be_skip)

lemma record_fields:
  fixes r :: dns_record and pre post :: bytes
  assumes "record_ok r"
  defines "rp \<equiv> pre @ record_bytes r @ post" and "o2 \<equiv> length pre + length (name_bytes (r_name r))"
  shows "skip_name rp (length pre) = Some o2" "o2 + 10 + length (r_rdata r) \<le> length rp"
    and "word_at rp o2 = Some (r_type r)" "word_at rp (o2 + 8) = Some (word_of_nat (length (r_rdata r)))"
    and "length (r_rdata r) = 4 \<Longrightarrow> dword_at rp (o2 + 10) = Some (be32 0 (r_rdata r))"
proof -
  let ?n = "name_bytes (r_name r)" and ?c = "put_be16 (r_class r) @ put_be32 (r_ttl r)" and ?l = "put_be16 (word_of_nat (length (r_rdata r)))"
  show "skip_name rp (length pre) = Some o2"
    using skip_name_bytes [of "r_name r" pre] assms(1) by (simp add: rp_def o2_def record_ok_def record_bytes_def)
  show l: "o2 + 10 + length (r_rdata r) \<le> length rp" by (simp add: rp_def o2_def record_bytes_def)
  have "be16 o2 rp = r_type r"
    using be16_at [of o2 "pre @ ?n" "r_type r" "?c @ ?l @ r_rdata r @ post"] by (simp add: rp_def o2_def record_bytes_def)
  then show "word_at rp o2 = Some (r_type r)" using l by (simp add: word_at_def)
  have "be16 (o2 + 8) rp = word_of_nat (length (r_rdata r))"
    using be16_at [of "o2 + 8" "pre @ ?n @ put_be16 (r_type r) @ ?c" "word_of_nat (length (r_rdata r))" "r_rdata r @ post"]
    by (simp add: rp_def o2_def record_bytes_def)
  then show "word_at rp (o2 + 8) = Some (word_of_nat (length (r_rdata r)))" using l by (simp add: word_at_def)
  show "dword_at rp (o2 + 10) = Some (be32 0 (r_rdata r))" if "length (r_rdata r) = 4"
  proof -
    have "be32 (o2 + 10) rp = be32 0 (r_rdata r @ post)"
      using be_skip(2) [of "pre @ ?n @ put_be16 (r_type r) @ ?c @ ?l" "o2 + 10" "r_rdata r @ post"]
      by (simp add: rp_def o2_def record_bytes_def)
    then show ?thesis using l that by (simp add: dword_at_def be_prefix)
  qed
qed

lemma length_record_bytes: "length (record_bytes r) = length (name_bytes (r_name r)) + 10 + length (r_rdata r)"
  by (simp add: record_bytes_def)

lemma answers_bytes:
  "list_all record_ok rs \<Longrightarrow>
   dns_answers (length rs) (pre @ concat (map record_bytes rs) @ post) (length pre) = Some (first_address rs)"
proof (induction rs arbitrary: pre)
  case (Cons r rs)
  have ok: "record_ok r" and u: "unat (word_of_nat (length (r_rdata r)) :: u16) = length (r_rdata r)"
    using Cons.prems by (simp_all add: record_ok_def unat_of_nat)
  have four: "word_of_nat (length (r_rdata r)) = (4 :: u16) \<longleftrightarrow> length (r_rdata r) = 4"
    by (simp add: word_unat_eq_iff u)
  define rp where "rp = pre @ record_bytes r @ concat (map record_bytes rs) @ post"
  define o2 where "o2 = length pre + length (name_bytes (r_name r))"
  note f = record_fields [OF ok, of pre "concat (map record_bytes rs) @ post", folded rp_def o2_def]
  have rest: "dns_answers (length rs) rp (o2 + 10 + length (r_rdata r)) = Some (first_address rs)"
    using Cons.IH [of "pre @ record_bytes r"] Cons.prems by (simp add: rp_def o2_def length_record_bytes ac_simps)
  have "length pre + 10 \<le> length rp" by (simp add: rp_def length_record_bytes)
  then have "dns_answers (length (r # rs)) rp (length pre) = Some (first_address (r # rs))"
    using f rest four u by (cases "r_type r = 1 \<and> length (r_rdata r) = 4") auto
  then show ?case by (simp add: rp_def)
qed simp

lemma questions_bytes:
  "list_all (\<lambda>q. name_ok (fst q)) qs \<Longrightarrow>
   dns_questions (length qs) (pre @ concat (map question_bytes qs) @ post) (length pre) =
   Some (length pre + length (concat (map question_bytes qs)))"
proof (induction qs arbitrary: pre)
  case (Cons q qs)
  obtain nm ty cl where q: "q = (nm, ty, cl)" by (cases q)
  have "skip_name (pre @ concat (map question_bytes (q # qs)) @ post) (length pre) = Some (length pre + length (name_bytes nm))"
    using skip_name_bytes [of nm pre] Cons.prems by (simp add: q question_bytes_def)
  moreover have "length (question_bytes q) = length (name_bytes nm) + 4" by (simp add: q question_bytes_def)
  ultimately show ?case
    using Cons.IH [of "pre @ question_bytes q"] Cons.prems by (simp add: add.assoc)
qed simp

text \<open>A whole response: the counts in its header are those of the questions and answers behind it.\<close>

definition dns_response :: "u16 \<Rightarrow> u16 \<Rightarrow> u32 \<Rightarrow> (domain_name \<times> u16 \<times> u16) list \<Rightarrow> dns_record list \<Rightarrow> bytes \<Rightarrow> bytes" where
  "dns_response txid flags other qs rs post = put_be16 txid @ put_be16 flags @ put_be16 (word_of_nat (length qs)) @
     put_be16 (word_of_nat (length rs)) @ put_be32 other @ concat (map question_bytes qs) @ concat (map record_bytes rs) @ post"

lemma response_header:
  "be16 0 (dns_response txid flags other qs rs post) = txid" "be16 2 (dns_response txid flags other qs rs post) = flags"
  "be16 4 (dns_response txid flags other qs rs post) = word_of_nat (length qs)"
  "be16 6 (dns_response txid flags other qs rs post) = word_of_nat (length rs)"
  by (simp_all add: dns_response_def be_skip)

lemma parse_response:
  assumes "list_all (\<lambda>q. name_ok (fst q)) qs" "list_all record_ok rs" "length qs < 65536" "length rs < 65536"
  shows "dns_parse (dns_response txid flags other qs rs post) = Some (first_address rs)"
proof -
  let ?h = "put_be16 txid @ put_be16 flags @ put_be16 (word_of_nat (length qs)) @ put_be16 (word_of_nat (length rs)) @ put_be32 other"
  let ?r = "dns_response txid flags other qs rs post"
  have "dns_questions (length qs) ?r 12 = Some (12 + length (concat (map question_bytes qs)))"
    using questions_bytes [OF assms(1), of ?h "concat (map record_bytes rs) @ post"] by (simp add: dns_response_def)
  moreover have "dns_answers (length rs) ?r (12 + length (concat (map question_bytes qs))) = Some (first_address rs)"
    using answers_bytes [OF assms(2), of "?h @ concat (map question_bytes qs)" post] by (simp add: dns_response_def)
  ultimately show ?thesis using assms(3,4) by (simp add: dns_parse_def response_header unat_of_nat)
qed

lemma reply_address:
  assumes "length hdr = 42" "be16 12 hdr = 0x0800" "hdr ! 23 = 17" "be16 36 hdr = dns_port txid"
    and "flags AND 0x8000 \<noteq> 0" "flags AND 0x000F = 0"
    and "list_all (\<lambda>q. name_ok (fst q)) qs" "list_all record_ok rs" "length qs < 65536" "length rs < 65536" "rs \<noteq> []"
  shows "dns_reply txid (hdr @ dns_response txid flags other qs rs post) =
    Some (case first_address rs of None \<Rightarrow> Dns_status HAL_ERROR None | Some ip \<Rightarrow> Dns_status HAL_OK (Some ip))"
proof -
  let ?r = "dns_response txid flags other qs rs post"
  have "12 \<le> length ?r" by (simp add: dns_response_def)
  moreover have "(word_of_nat (length rs) :: u16) \<noteq> 0" using assms(10,11) by (simp add: word_unat_eq_iff unat_of_nat)
  ultimately show ?thesis
    using assms(1-6) parse_response [OF assms(7-10), of txid flags other post]
    by (simp add: dns_reply_def Let_def be_prefix nth_append response_header split: option.splits)
qed

text \<open>
  C12. A response with the query's identifier and port that reports no error yields the first four-byte address
  record of its answer section, whatever questions, compressed names, other records and further sections it holds; it is
  an error when no answer is an address.
\<close>

theorem dns_reply_finds_address:
  assumes "length hdr = 42" "be16 12 hdr = 0x0800" "hdr ! 23 = 17" "be16 36 hdr = dns_port txid"
    and "flags AND 0x8000 \<noteq> 0" "flags AND 0x000F = 0"
    and "list_all (\<lambda>q. name_ok (fst q)) qs" "list_all record_ok rs" "length qs < 65536" "length rs < 65536" "rs \<noteq> []"
  shows "dns_reply txid (hdr @ dns_response txid flags other qs rs post) =
    Some (case first_address rs of None \<Rightarrow> Dns_status HAL_ERROR None | Some ip \<Rightarrow> Dns_status HAL_OK (Some ip))"
  using assms by (rule reply_address)


definition sample_answer :: "dns_record list" where
  "sample_answer =
     [\<lparr>r_name = Domain_name [] (Some (0xC0, 12)), r_type = 5, r_class = 1, r_ttl = 60, r_rdata = [3, 0x77, 0x77, 0x77, 0xC0, 12]\<rparr>,
      \<lparr>r_name = Domain_name [[0x77, 0x77, 0x77]] (Some (0xC0, 12)), r_type = 1, r_class = 1, r_ttl = 60, r_rdata = [93, 184, 216, 34]\<rparr>]"

definition sample_reply_header :: bytes where
  "sample_reply_header = replicate 12 0 @ [8, 0, 0x45] @ replicate 8 0 @ [17] @ replicate 12 0 @ [0xC0, 7] @ replicate 4 0"

text \<open>An alias followed by an address, both with compressed names.\<close>

theorem dns_reply_finds_address_witness:
  "dns_reply 7 (sample_reply_header @ dns_response 7 0x8180 0 [(Domain_name [[0x61], [0x62, 0x63]] None, 1, 1)] sample_answer []) =
     Some (Dns_status HAL_OK (Some 0x5DB8D822))"
proof -
  have "length sample_reply_header = 42" "be16 12 sample_reply_header = 0x0800" "sample_reply_header ! 23 = 17"
      "be16 36 sample_reply_header = dns_port 7"
    by (simp_all add: sample_reply_header_def be16_def ntohs_def htons_def le16_def slice_def dns_port_def nth_append)
  moreover have "list_all record_ok sample_answer" "length sample_answer < 65536" "sample_answer \<noteq> []"
    by (simp_all add: sample_answer_def record_ok_def)
  moreover have "first_address sample_answer = Some 0x5DB8D822"
    by (simp add: sample_answer_def be32_def ntohl_def htonl_def le32_def slice_def)
  ultimately show ?thesis
    using dns_reply_finds_address [of sample_reply_header 7 "0x8180" "[(Domain_name [[0x61], [0x62, 0x63]] None, 1, 1)]" sample_answer 0 "[]"]
    by simp
qed

section \<open>Queries\<close>

text \<open>A host name written with dots between its labels.\<close>

fun dotted :: "bytes list \<Rightarrow> bytes" where
  "dotted [] = []"
| "dotted [l] = l"
| "dotted (l # ls) = l @ 46 # dotted ls"

definition labels_ok :: "bytes list \<Rightarrow> bool" where
  "labels_ok ls \<longleftrightarrow> list_all (\<lambda>l. 0 < length l \<and> length l < 64 \<and> 46 \<notin> set l) ls"

lemma label_split:
  "46 \<notin> set l \<Longrightarrow> takeWhile (\<lambda>c. c \<noteq> 46) (l @ 46 # r) = l \<and> dropWhile (\<lambda>c. c \<noteq> 46) (l @ 46 # r) = 46 # r"
  "46 \<notin> set l \<Longrightarrow> takeWhile (\<lambda>c. c \<noteq> 46) l = l \<and> dropWhile (\<lambda>c. c \<noteq> 46) l = []"
  by (induction l) auto

lemma dns_name_dotted: "labels_ok ls \<Longrightarrow> dns_name (dotted ls) = concat (map label_bytes ls)"
proof (induction ls rule: dotted.induct)
  case (2 l)
  then show ?case by (subst dns_name.simps) (auto simp: labels_ok_def label_split label_bytes_def dns_name.simps [of "[]"])
next
  case (3 l m ms)
  then show ?case by (subst dns_name.simps) (auto simp: labels_ok_def label_split label_bytes_def [of l])
qed (simp add: dns_name.simps)

lemma length_dotted: "ls \<noteq> [] \<Longrightarrow> length (concat (map label_bytes ls)) = length (dotted ls) + 1"
  by (induction ls rule: dotted.induct) auto

lemma put_be16_bytes: "put_be16 v = [ucast (drop_bit 8 v), ucast v]"
proof -
  have "put16 w = [ucast w, ucast (drop_bit 8 w)]" for w
    using byte_of_unat [of w 0] byte_of_unat [of w 1] by (simp add: put16_def numeral_2_eq_2)
  moreover have "(ucast (htons v) :: u8) = ucast (drop_bit 8 v)" "(ucast (drop_bit 8 (htons v)) :: u8) = ucast v"
    by (rule bit_word_eqI; auto simp: bit_simps bit_htons)+
  ultimately show ?thesis by (simp add: put_be16_def)
qed

text \<open>
  C32. For a host name of labels of 1 to 63 bytes the query is the question for the type A record of exactly those
  labels, in the format the response parser skips; it fits the frame exactly when the host name has at most 452 bytes,
  which covers every legal name. Then the frame carries the query unchanged behind headers whose IP checksum verifies; a
  longer name is written past the end of the frame.
\<close>

theorem dns_query_encodes_name:
  assumes "labels_ok ls" "ls \<noteq> []" "length mac = 6" "length (g_local_mac st) = 6"
  shows "dns_query txid (dotted ls) = dns_response txid 0x0100 0 [(Domain_name ls None, 1, 1)] [] [] \<and>
    (case dns_wire mac server txid (dotted ls) st of
       None \<Rightarrow> 452 < length (dotted ls)
     | Some f \<Rightarrow> length (dotted ls) \<le> 452 \<and> ip_checksum (slice 14 20 f) = 0 \<and>
         slice 42 (length (dns_query txid (dotted ls))) f = dns_query txid (dotted ls))"
proof -
  let ?q = "dns_query txid (dotted ls)"
  have b: "put_be16 0x0100 = [1, 0]" "put_be16 1 = [0, 1]" "put_be16 0 = [0, 0]" "put_be32 0 = [0, 0, 0, 0]" by code_simp+
  have q: "?q = dns_response txid 0x0100 0 [(Domain_name ls None, 1, 1)] [] []"
    by (simp add: dns_query_def dns_response_def question_bytes_def dns_name_dotted [OF assms(1)] b put_be16_bytes [of txid])
  have n: "length ?q = length (dotted ls) + 18"
    using length_dotted [OF assms(2)] by (simp add: dns_query_def dns_name_dotted [OF assms(1)])
  define h where "h = dns_header mac server (length ?q) st"
  have h: "length (eth_bytes h) = 14" "length (ip_bytes h) = 20"
    using assms(3,4) by (simp_all add: h_def dns_header_def eth_bytes_def macs_ok_def)
  define u where "u = udp_bytes (dns_port txid) 53 (8 + word_of_nat (length ?q))"
  have u: "length u = 8" by (simp add: u_def udp_bytes_def)
  let ?f = "pad60 (eth_bytes h @ ip_bytes h @ u @ ?q)"
  have "slice 14 20 ?f = ip_bytes h" "slice 42 (length ?q) ?f = ?q"
    using h u by (simp_all add: slice_def pad60_def)
  moreover have "dns_wire mac server txid (dotted ls) st = (if 452 < length (dotted ls) then None else Some ?f)"
    using n by (simp add: dns_wire_def Let_def h_def u_def)
  ultimately show ?thesis using q ip_header_verifies [of h] by simp
qed

theorem dns_query_encodes_name_witness:
  "dns_query 7 [0x61, 46, 0x62, 0x63] = dns_response 7 0x0100 0 [(Domain_name [[0x61], [0x62, 0x63]] None, 1, 1)] [] [] \<and>
   (\<exists>f. dns_wire (replicate 6 2) 0x08080808 7 [0x61, 46, 0x62, 0x63] sample_mod = Some f \<and> ip_checksum (slice 14 20 f) = 0)"
  using dns_query_encodes_name [of "[[0x61], [0x62, 0x63]]" "replicate 6 2" sample_mod 7 "0x08080808"]
  by (simp add: labels_ok_def sample_mod_def split: option.splits)


section \<open>Resolution\<close>

text \<open>A wait for the response ends with one that arrived during it, or with the timeout, and sends nothing.\<close>

definition answered :: "netdev \<Rightarrow> u16 \<Rightarrow> tcp_mod \<Rightarrow> dns_outcome \<times> tcp_mod \<Rightarrow> bool" where
  "answered dev txid st r \<longleftrightarrow> only_waits st (snd r) \<and> (fst r = Dns_status HAL_TIMEOUT None \<or>
     (\<exists>k. polls (tnic st) \<le> k \<and> k < polls (tnic (snd r)) \<and> dns_reply txid (rx_frame dev k) = Some (fst r)))"

lemma dns_wait_sound:
  assumes "dns_wait dev txid start st = Some r"
  shows "answered dev txid st r"
  using assms
proof (rule dns_wait.raw_induct [where P = "\<lambda>dev txid start st r. answered dev txid st r", rotated])
  fix f dev txid start st r
  assume IH: "\<And>dev txid start st r. f dev txid start st = Some r \<Longrightarrow> answered dev txid st r"
    and body: "(let (now, st) = timer_ms dev st
      in if now - start < 5000 then
           let (rx, st) = receive dev st
           in (case (if rx = [] then None else dns_reply txid rx) of
                 None \<Rightarrow> f dev txid start st
               | Some r \<Rightarrow> Some (r, st))
         else Some (Dns_status HAL_TIMEOUT None, st)) = Some r"
  let ?rx = "rx_frame dev (polls (tnic st))"
  let ?st = "st\<lparr>tnic := (tnic st)\<lparr>ticks := Suc (ticks (tnic st)), polls := Suc (polls (tnic st))\<rparr>\<rparr>"
  consider (late) "r = (Dns_status HAL_TIMEOUT None, st\<lparr>tnic := (tnic st)\<lparr>ticks := Suc (ticks (tnic st))\<rparr>\<rparr>)"
    | (again) "f dev txid start ?st = Some r"
    | (got) x where "dns_reply txid ?rx = Some x" "r = (x, ?st)"
    using body
    by (cases "clock_ms dev (ticks (tnic st)) - start < 5000"; cases "?rx = []"; cases "dns_reply txid ?rx")
       (auto simp: timer_eq receive_eq)
  then show "answered dev txid st r"
  proof cases
    case again
    show ?thesis using IH [OF again] only_waits_trans [OF only_waits_step(3), of st "snd r"]
      unfolding answered_def by (auto intro: Suc_leD)
  next
    case got
    then show ?thesis by (auto simp: answered_def)
  qed (simp add: answered_def)
qed

lemma query_length: "length (dns_query txid hostname) = 17 + length (dns_name hostname)"
  by (simp add: dns_query_def)

lemma wire_local: "only_waits a b \<Longrightarrow> dns_wire m server txid hostname b = dns_wire m server txid hostname a"
  by (simp add: only_waits_def dns_wire_def dns_header_def)

text \<open>The headers of a response that gives an address.\<close>

lemma reply_ok:
  assumes "dns_reply txid f = Some (Dns_status HAL_OK a)"
  shows "54 \<le> length f \<and> be16 12 f = 0x0800 \<and> f ! 23 = 17 \<and> be16 36 f = 49152 + (txid AND 0x3FFF) \<and>
    be16 42 f = txid \<and> be16 44 f AND 0x8000 \<noteq> 0 \<and> be16 44 f AND 0x000F = 0 \<and>
    (\<exists>ip. a = Some ip \<and> dns_parse (drop 42 f) = Some (Some ip))"
proof -
  have "be16 0 (drop 42 f) = be16 42 f" "be16 2 (drop 42 f) = be16 44 f" by (simp_all add: be16_def le16_def slice_def)
  then show ?thesis using assms by (auto simp: dns_reply_def Let_def dns_port_def split: option.splits if_splits)
qed

lemma dns_wait_cases:
  assumes "dns_wait dev txid start st = Some (r, st')"
  shows "r \<noteq> Dns_fault" "only_waits st st'"
    and "r = Dns_status HAL_OK a \<Longrightarrow> \<exists>k. polls (tnic st) \<le> k \<and> k < polls (tnic st') \<and>
      dns_reply txid (rx_frame dev k) = Some (Dns_status HAL_OK a)"
  using dns_wait_sound [OF assms] reply_no_fault unfolding answered_def by auto

text \<open>How a resolution ends: without an address, with a host name that does not fit, or with the query sent and a wait.\<close>

lemma dns_resolve_stages:
  assumes "dns_resolve dev hostname server st = Some (r, st')"
  defines "hop \<equiv> (if server AND g_netmask st = g_local_ip st AND g_netmask st then server else g_gateway st)"
  obtains (unresolved) rc where "r = Dns_status rc None" "rc \<noteq> HAL_OK"
  | (too_long) "r = Dns_fault" "453 < length (dns_name hostname)"
  | (query) n i j txid f start s where "n \<le> 3" "0 < n" "ticks (tnic st) \<le> i" "i < ticks (tnic s)" "txid = ucast (clock_ns dev i)"
      "polls (tnic st) \<le> j" "j < polls (tnic s)" "arp_answers hop (rx_frame dev j)"
      "dns_wire (slice 22 6 (rx_frame dev j)) server txid hostname st = Some f"
      "sent (tnic s) = sent (tnic st) @ replicate n (arp_request hop st) @ [f]"
      "dns_wait dev txid start s = Some (r, st')"
proof (cases "has_tx dev \<and> has_rx dev")
  case True
  have nh: "next_hop server st = hop" by (simp add: next_hop_def hop_def)
  obtain rc mac st1 where arp: "arp_resolve dev hop st = Some ((rc, mac), st1)"
    using assms True nh by (auto simp: dns_resolve_def bind_eq_Some_conv)
  show thesis
  proof (cases mac)
    case None
    then show thesis using assms(1) True arp nh arp_resolve_sound(1) [OF arp] by (auto simp: dns_resolve_def intro: unresolved)
  next
    case (Some m)
    obtain n where n: "n \<le> 3" "0 < n" "resolved dev hop (polls (tnic st)) (polls (tnic st1)) m" and
        w1: "only_waits (st\<lparr>tnic := (tnic st)\<lparr>sent := sent (tnic st) @ replicate n (arp_request hop st)\<rparr>\<rparr>) st1"
      using arp_resolve_sound(2) [OF arp] Some unfolding asked_def by blast
    obtain j where j: "polls (tnic st) \<le> j" "j < polls (tnic st1)" "arp_answers hop (rx_frame dev j)" "m = slice 22 6 (rx_frame dev j)"
      using n(3) unfolding resolved_def by blast
    define txid where "txid = (ucast (clock_ns dev (ticks (tnic st1))) :: u16)"
    let ?st = "st1\<lparr>tnic := (tnic st1)\<lparr>ticks := ticks (tnic st1) + 1\<rparr>\<rparr>"
    have w: "dns_wire m server txid hostname ?st = dns_wire m server txid hostname st"
      using wire_local [OF w1] by (simp add: dns_wire_def dns_header_def)
    show thesis
    proof (cases "dns_wire m server txid hostname st")
      case None
      then have "r = Dns_fault" using assms(1) True arp Some w nh
        by (simp add: dns_resolve_def timer_ns_def hal_timer_ns_def flip: txid_def)
      then show thesis using None by (intro too_long) (simp_all add: dns_wire_def Let_def query_length split: if_splits)
    next
      case f: (Some f)
      define s where "s = st1\<lparr>tnic := (tnic st1)\<lparr>sent := sent (tnic st1) @ [f], ticks := ticks (tnic st1) + 2\<rparr>\<rparr>"
      obtain start where "dns_wait dev txid start s = Some (r, st')"
        using assms(1) True arp Some w f nh
        by (simp add: dns_resolve_def timer_ns_def hal_timer_ns_def timer_eq net_tx_def s_def flip: txid_def)
      then show thesis using n(1,2) j f w1 txid_def
        by (intro query [of n "ticks (tnic st1)" s txid j f start]) (simp_all add: s_def only_waits_def)
    qed
  qed
qed (use assms(1) in \<open>auto simp: dns_resolve_def intro: unresolved\<close>)

text \<open>
  C13. When \<open>dns_resolve\<close> reports an address, two frames arrived during the call, one after the other. The first is an ARP
  reply for the next hop (the server itself when it is on the local network, the gateway otherwise). The second is a UDP
  datagram to the port of this query whose payload carries the query's identifier, the response flag and no error code,
  and the address is the first one found in it. The frames sent during the call are one to three ARP requests and then the
  query for the host name, addressed to the hardware address from the ARP reply; its identifier is the low half of a clock
  reading of the call. The only fault is a host name that does not fit the frame; no response can cause one.
\<close>

theorem dns_resolve_outcome:
  assumes "dns_resolve dev hostname server st = Some (r, st')"
    and hop: "hop = (if server AND g_netmask st = g_local_ip st AND g_netmask st then server else g_gateway st)"
  shows "(\<forall>a. r = Dns_status HAL_OK a \<longrightarrow>
      (\<exists>ip txid query n i j k reply rx.
         a = Some ip \<and> ticks (tnic st) \<le> i \<and> i < ticks (tnic st') \<and> txid = ucast (clock_ns dev i) \<and>
         polls (tnic st) \<le> j \<and> j < k \<and> k < polls (tnic st') \<and> reply = rx_frame dev j \<and> rx = rx_frame dev k \<and>
         arp_answers hop reply \<and> dns_wire (slice 22 6 reply) server txid hostname st = Some query \<and>
         1 \<le> n \<and> n \<le> 3 \<and> sent (tnic st') = sent (tnic st) @ replicate n (arp_request hop st) @ [query] \<and>
         54 \<le> length rx \<and> be16 12 rx = 0x0800 \<and> rx ! 23 = 17 \<and> be16 36 rx = 49152 + (txid AND 0x3FFF) \<and>
         be16 42 rx = txid \<and> be16 44 rx AND 0x8000 \<noteq> 0 \<and> be16 44 rx AND 0x000F = 0 \<and>
         dns_parse (drop 42 rx) = Some (Some ip))) \<and>
    (r = Dns_fault \<longrightarrow> 453 < length (dns_name hostname))"
  using assms(1)
proof (cases rule: dns_resolve_stages)
  case (query n i j txid f start s)
  note w = dns_wait_cases [OF query(11)]
  have s: "polls (tnic s) \<le> polls (tnic st')" "ticks (tnic s) \<le> ticks (tnic st')" "sent (tnic st') = sent (tnic s)"
    using w(2) by (simp_all add: only_waits_def)
  show ?thesis
  proof (rule conjI; intro allI impI)
    fix a assume "r = Dns_status HAL_OK a"
    then obtain k where k: "polls (tnic s) \<le> k" "k < polls (tnic st')" "dns_reply txid (rx_frame dev k) = Some (Dns_status HAL_OK a)"
      using w(3) by blast
    obtain ip where ip: "a = Some ip" "dns_parse (drop 42 (rx_frame dev k)) = Some (Some ip)" using reply_ok [OF k(3)] by blast
    show "\<exists>ip txid query n i j k reply rx.
         a = Some ip \<and> ticks (tnic st) \<le> i \<and> i < ticks (tnic st') \<and> txid = ucast (clock_ns dev i) \<and>
         polls (tnic st) \<le> j \<and> j < k \<and> k < polls (tnic st') \<and> reply = rx_frame dev j \<and> rx = rx_frame dev k \<and>
         arp_answers hop reply \<and> dns_wire (slice 22 6 reply) server txid hostname st = Some query \<and>
         1 \<le> n \<and> n \<le> 3 \<and> sent (tnic st') = sent (tnic st) @ replicate n (arp_request hop st) @ [query] \<and>
         54 \<le> length rx \<and> be16 12 rx = 0x0800 \<and> rx ! 23 = 17 \<and> be16 36 rx = 49152 + (txid AND 0x3FFF) \<and>
         be16 42 rx = txid \<and> be16 44 rx AND 0x8000 \<noteq> 0 \<and> be16 44 rx AND 0x000F = 0 \<and>
         dns_parse (drop 42 rx) = Some (Some ip)"
      using reply_ok [OF k(3)] ip k(1,2) query(1-10) [folded hop] s
      by (intro exI [of _ ip] exI [of _ txid] exI [of _ f] exI [of _ n] exI [of _ i] exI [of _ j]
          exI [of _ k] exI [of _ "rx_frame dev j"] exI [of _ "rx_frame dev k"]) simp
  qed (use w(1) in simp)
qed auto

text \<open>A device that answers the address request and then the query.\<close>

definition dns_answer :: bytes where
  "dns_answer = replicate 12 0 @ [8, 0, 0x45] @ replicate 8 0 @ [17] @ replicate 12 0 @ [0xC0, 0] @ replicate 4 0 @
     [0, 0, 0x81, 0x80, 0, 0, 0, 1, 0, 0, 0, 0] @ [0xC0, 12, 0, 1, 0, 1, 0, 0, 0, 0, 0, 4, 93, 184, 216, 34]"

definition naming_dev :: netdev where
  "naming_dev = sample_dev\<lparr>rx_frame := (\<lambda>k. if k = 0 then arp_answer else dns_answer)\<rparr>"

lemma dns_answered: "dns_reply 0 dns_answer = Some (Dns_status HAL_OK (Some 0x5DB8D822))"
proof -
  let ?hdr = "replicate 12 0 @ [8, 0, 0x45] @ replicate 8 0 @ [17] @ replicate 12 0 @ [0xC0, 0] @ replicate 4 0 :: bytes"
  let ?rs = "[\<lparr>r_name = Domain_name [] (Some (0xC0, 12)), r_type = 1, r_class = 1, r_ttl = 0, r_rdata = [93, 184, 216, 34]\<rparr>]"
  have "put_be32 0 = [0, 0, 0, 0]" by code_simp
  then have a: "dns_answer = ?hdr @ dns_response 0 0x8180 0 [] ?rs []"
    by (simp add: dns_answer_def dns_response_def record_bytes_def put_be16_bytes)
  have f: "first_address ?rs = Some 0x5DB8D822"
    by (simp add: be32_def ntohl_def htonl_def le32_def slice_def)
  have h: "be16 12 ?hdr = 0x0800" "be16 36 ?hdr = dns_port 0" "?hdr ! 23 = 17" "length ?hdr = 42"
    by (simp_all add: be16_def ntohs_def htons_def le16_def slice_def dns_port_def nth_append)
  have "list_all record_ok ?rs" by (simp add: record_ok_def)
  then show ?thesis
    unfolding a using reply_address [OF h(4) h(1) h(3) h(2), of "0x8180" "[]" ?rs 0 "[]"] f by simp
qed

lemma naming_resolve:
  "\<exists>st'. dns_resolve naming_dev [0x61, 46, 0x62] 0x08080808 sample_mod = Some (Dns_status HAL_OK (Some 0x5DB8D822), st')"
proof -
  have c: "clock_ms naming_dev k = 0" "clock_ns naming_dev k = 0" for k
    by (simp_all add: clock_ms_def naming_dev_def sample_dev_def)
  have d: "has_tx naming_dev" "has_rx naming_dev" by (simp_all add: naming_dev_def sample_dev_def)
  have f: "rx_frame naming_dev k = (if k = 0 then arp_answer else dns_answer)" for k by (simp add: naming_dev_def)
  have n: "dns_answer \<noteq> []" by (simp add: dns_answer_def)
  define frame where "frame m server s = the (dns_wire m server 0 [0x61, 46, 0x62] s)" for m server s
  have "length (dns_name [0x61, 46, 0x62]) = 4" by code_simp
  then have w: "dns_wire m server 0 [0x61, 46, 0x62] s = Some (frame m server s)" for m server s
    by (simp add: frame_def dns_wire_def Let_def query_length)
  show ?thesis
    by (simp add: dns_resolve_def timer_ns_def hal_timer_ns_def c sample_mod_def next_hop_def arp_resolve_def d numeral_3_eq_3
      timer_eq net_tx_def arp_wait.simps receive_eq f arp_answered n w dns_wait.simps dns_answered)
qed

theorem dns_resolve_outcome_witness:
  "\<exists>st' txid query n j k. dns_resolve naming_dev [0x61, 46, 0x62] 0x08080808 sample_mod = Some (Dns_status HAL_OK (Some 0x5DB8D822), st') \<and>
     dns_wire (slice 22 6 (rx_frame naming_dev j)) 0x08080808 txid [0x61, 46, 0x62] sample_mod = Some query \<and>
     sent (tnic st') = replicate n (arp_request 0x0A000001 sample_mod) @ [query] \<and> j < k \<and>
     arp_answers 0x0A000001 (rx_frame naming_dev j) \<and> be16 42 (rx_frame naming_dev k) = txid"
proof -
  obtain st' where r: "dns_resolve naming_dev [0x61, 46, 0x62] 0x08080808 sample_mod = Some (Dns_status HAL_OK (Some 0x5DB8D822), st')"
    using naming_resolve by blast
  have h: "0x0A000001 = (if 0x08080808 AND g_netmask sample_mod = g_local_ip sample_mod AND g_netmask sample_mod
      then 0x08080808 else g_gateway sample_mod)" and e: "sent (tnic sample_mod) = []" by (simp_all add: sample_mod_def)
  show ?thesis using dns_resolve_outcome [OF r h] r e by fastforce
qed

end
