(* ===== verification/Net_Config.thy ===== *)
theory Net_Config
  imports Dhcp Dns
begin

text \<open>
  The network configuration of the kernel, \<^verbatim>\<open>kernel/dhcp.c\<close>: the DHCP exchange with retries, the cached
  configuration and its expiry, and the set-up of the TCP client. It composes the models of \<^verbatim>\<open>net/dhcp.c\<close> and
  \<^verbatim>\<open>net/tcp.c\<close> over one device.
\<close>

section \<open>State\<close>

record dhcp_config =
  cfg_ip :: u32
  cfg_netmask :: u32
  cfg_gateway :: u32
  cfg_dns :: u32
  cfg_server_ip :: u32
  cfg_lease_time :: u32
  cfg_lease_start :: u64

definition zero_config :: dhcp_config where
  "zero_config = \<lparr>cfg_ip = 0, cfg_netmask = 0, cfg_gateway = 0, cfg_dns = 0, cfg_server_ip = 0, cfg_lease_time = 0, cfg_lease_start = 0\<rparr>"

text \<open>
  The variables of the three modules, and the delays asked for with \<^verbatim>\<open>hal_timer_delay_ms\<close>. All status texts are
  literals shorter than the 160 bytes of the buffer.
\<close>

record net_state =
  g_lease :: dhcp_lease
  g_config :: dhcp_config
  g_config_valid :: bool
  g_dhcp_status :: string
  tcp :: tcp_mod
  delays :: "u32 list"

definition set_dhcp_status :: "string \<Rightarrow> net_state \<Rightarrow> net_state" where
  "set_dhcp_status msg st = st\<lparr>g_dhcp_status := msg\<rparr>"

section \<open>Operations\<close>

text \<open>
  The result of a call: the status, or \<open>None\<close> after a fault in the exchange, with the caller's structure. A null pointer
  for the structure is \<open>None\<close> where the source checks for it.
\<close>

definition dhcp_discover_offer ::
  "netdev \<Rightarrow> dhcp_config \<Rightarrow> net_state \<Rightarrow> ((hal_status option \<times> dhcp_config) \<times> net_state) option" where
  "dhcp_discover_offer dev cfg st =
     (if \<not> has_tx dev \<or> \<not> has_rx dev then Some ((Some HAL_NO_DEVICE, cfg), st)
      else do { (r, s) \<leftarrow> dhcp_discover dev (g_lease st) (tnic (tcp st));
                let st = st\<lparr>tcp := (tcp st)\<lparr>tnic := s\<rparr>\<rparr>;
                case r of
                  Fault \<Rightarrow> Some ((None, cfg), st)
                | Status rc lease res \<Rightarrow>
                    let st = st\<lparr>g_lease := lease\<rparr>
                    in if rc \<noteq> HAL_OK then Some ((Some rc, cfg), st)
                       else
                         let (ip, gw, dns) = (case res of None \<Rightarrow> (0, 0, 0) | Some a \<Rightarrow> a);
                             lease = dhcp_get_lease (g_lease st);
                             (now, t) = timer_ms dev (tcp st)
                         in Some ((Some HAL_OK, \<lparr>cfg_ip = ip, cfg_netmask = subnet_mask lease, cfg_gateway = gw, cfg_dns = dns,
                              cfg_server_ip = server_ip lease, cfg_lease_time = lease_time lease, cfg_lease_start = now\<rparr>),
                              st\<lparr>tcp := t\<rparr>) })"

definition dhcp_request_ack :: "dhcp_config option \<Rightarrow> hal_status" where
  "dhcp_request_ack cfg = (case cfg of None \<Rightarrow> HAL_ERROR | Some c \<Rightarrow> if cfg_ip c = 0 then HAL_ERROR else HAL_OK)"

definition failure_status :: "hal_status \<Rightarrow> string" where
  "failure_status rc =
     (if rc = HAL_TIMEOUT then ''DHCP timed out waiting for reply''
      else if rc = HAL_NO_DEVICE then ''Network driver is active but cannot send or receive''
      else ''DHCP handshake failed before lease was assigned'')"

text \<open>The attempts that are left; the wait comes before every attempt but the first.\<close>

fun dhcp_attempts ::
  "netdev \<Rightarrow> nat \<Rightarrow> bool \<Rightarrow> u32 \<Rightarrow> hal_status \<Rightarrow> dhcp_config \<Rightarrow> net_state \<Rightarrow> ((hal_status option \<times> dhcp_config) \<times> net_state) option" where
  "dhcp_attempts dev 0 retry timeout rc cfg st = Some ((Some rc, cfg), st)"
| "dhcp_attempts dev (Suc n) retry timeout rc cfg st =
     (let (timeout, st) =
            (if retry then (timeout * 2, (set_dhcp_status ''Retrying DHCP after timeout'' st)\<lparr>delays := delays st @ [timeout]\<rparr>)
             else (timeout, st))
      in do { ((rc, cfg), st) \<leftarrow> dhcp_discover_offer dev cfg st;
              case rc of
                None \<Rightarrow> Some ((None, cfg), st)
              | Some rc \<Rightarrow>
                  if rc = HAL_OK then Some ((Some rc, cfg), st)
                  else dhcp_attempts dev n True timeout rc cfg (set_dhcp_status (failure_status rc) st) })"

definition DHCP_MAX_RETRIES :: nat where
  "DHCP_MAX_RETRIES = 3"

definition DHCP_BASE_TIMEOUT :: u32 where
  "DHCP_BASE_TIMEOUT = 1000"

definition dhcp_init ::
  "netdev \<Rightarrow> bool \<Rightarrow> dhcp_config option \<Rightarrow> net_state \<Rightarrow> ((hal_status option \<times> dhcp_config option) \<times> net_state) option" where
  "dhcp_init dev present cfg st =
     (if cfg = None then Some ((Some HAL_ERROR, None), st)
      else if \<not> present then Some ((Some HAL_NO_DEVICE, cfg), set_dhcp_status ''No network driver available for DHCP'' st)
      else
        let st = set_dhcp_status ''Starting DHCP handshake'' st
        in do { ((rc, cfg), st) \<leftarrow> dhcp_attempts dev DHCP_MAX_RETRIES False DHCP_BASE_TIMEOUT HAL_TIMEOUT zero_config st;
                case rc of
                  None \<Rightarrow> Some ((None, Some cfg), st)
                | Some rc \<Rightarrow>
                    if rc \<noteq> HAL_OK then
                      let st = st\<lparr>g_config_valid := False\<rparr>;
                          st = (if rc = HAL_TIMEOUT then set_dhcp_status ''DHCP failed after multiple retries'' st else st)
                      in Some ((Some rc, Some cfg), st)
                    else
                      let st = st\<lparr>tcp := tcp_init dev (cfg_ip cfg) (cfg_gateway cfg) (cfg_netmask cfg) (tcp st)\<rparr>;
                          st = st\<lparr>g_config := cfg, g_config_valid := True\<rparr>
                      in Some ((Some HAL_OK, Some cfg), set_dhcp_status ''DHCP lease acquired successfully'' st) })"

definition dhcp_lease_expired :: "netdev \<Rightarrow> dhcp_config option \<Rightarrow> net_state \<Rightarrow> bool \<times> net_state" where
  "dhcp_lease_expired dev cfg st =
     (case cfg of
        None \<Rightarrow> (True, st)
      | Some c \<Rightarrow>
          if cfg_ip c = 0 \<or> cfg_lease_time c = 0 then (True, st)
          else
            let (now, t) = timer_ms dev (tcp st);
                elapsed_s = (now - cfg_lease_start c) div 1000
            in (ucast (cfg_lease_time c) \<le> elapsed_s, st\<lparr>tcp := t\<rparr>))"


definition dhcp_last_status_message :: "net_state \<Rightarrow> string" where
  "dhcp_last_status_message st = g_dhcp_status st"

section \<open>The attempts\<close>



text \<open>The client's configuration, apart from what the device does.\<close>

definition same_client :: "tcp_mod \<Rightarrow> tcp_mod \<Rightarrow> bool" where
  "same_client a b \<longleftrightarrow> g_local_ip a = g_local_ip b \<and> g_gateway a = g_gateway b \<and> g_netmask a = g_netmask b \<and>
     g_local_mac a = g_local_mac b \<and> g_ip_id a = g_ip_id b"


lemma same_client_simps [simp]: "same_client a a" "same_client a (b\<lparr>tnic := s\<rparr>) = same_client a b"
  by (simp_all add: same_client_def)




section \<open>Initialisation\<close>



definition boot_state :: net_state where
  "boot_state = \<lparr>g_lease = zero_lease, g_config = zero_config, g_config_valid = False, g_dhcp_status = ''DHCP has not run yet'',
     tcp = \<lparr>g_local_ip = 0, g_gateway = 0, g_netmask = 0, g_local_mac = replicate 6 0, g_ip_id = 1, tnic = idle_nic\<rparr>, delays = []\<rparr>"



text \<open>How a number of attempts ends: in time, and in a fault only after a frame that does damage.\<close>

definition tries_end :: "netdev \<Rightarrow> nat \<Rightarrow> nat \<Rightarrow> nat \<Rightarrow> net_state \<Rightarrow> (hal_status option \<times> dhcp_config) \<times> net_state \<Rightarrow> bool" where
  "tries_end dev a n b st = (\<lambda>((rc, cfg), st'). on_time dev a n b (tnic (tcp st')) \<and> polls (tnic (tcp st)) \<le> polls (tnic (tcp st')) \<and>
     (rc = None \<longrightarrow> misfit_in dev (tnic (tcp st)) (tnic (tcp st'))))"

lemma offer_returns:
  assumes clock: "steady_clock dev a n" "b + 60000 < unat (clock_ms dev n)" and s: "on_time dev a n b (tnic (tcp st))" "length (dev_mac dev) = 6"
  shows "\<exists>r. dhcp_discover_offer dev cfg st = Some r \<and> tries_end dev a n (b + 70000) st r"
proof (cases "has_tx dev \<and> has_rx dev")
  case True
  have "b + 50000 < unat (clock_ms dev n)" using clock(2) by simp
  then obtain r s where r: "dhcp_discover dev (g_lease st) (tnic (tcp st)) = Some (r, s)" "run_ends dev a n (b + 60000) (tnic (tcp st)) (r, s)"
    using dhcp_discover_returns [OF clock(1) _ s, of "g_lease st"] by auto
  then have o: "on_time dev a n (b + 60000) s" by (simp add: run_ends_def)
  have "on_time dev a n (b + 70000) (s\<lparr>ticks := Suc (ticks s)\<rparr>)" "on_time dev a n (b + 70000) s"
    using steady_next(2) [OF clock(1) o clock(2)] o by (simp_all add: on_time_def)
  then show ?thesis using r True
    by (cases r) (auto simp: dhcp_discover_offer_def timer_eq Let_def case_prod_beta tries_end_def run_ends_def)
next
  case False
  then show ?thesis using s(1) by (auto simp: dhcp_discover_offer_def tries_end_def on_time_def)
qed

lemma attempts_return:
  assumes "steady_clock dev a n" "length (dev_mac dev) = 6"
  shows "b + m * 70000 < unat (clock_ms dev n) \<Longrightarrow> on_time dev a n b (tnic (tcp st)) \<Longrightarrow>
    \<exists>r. dhcp_attempts dev m retry t rc cfg st = Some r \<and> tries_end dev a n (b + m * 70000) st r"
proof (induction m arbitrary: b retry t rc cfg st)
  case 0
  then show ?case by (simp add: tries_end_def)
next
  case (Suc m)
  let ?st = "if retry then (set_dhcp_status ''Retrying DHCP after timeout'' st)\<lparr>delays := delays st @ [t]\<rparr> else st"
  have st: "tcp ?st = tcp st" by (simp add: set_dhcp_status_def)
  obtain r c1 s1 where o: "dhcp_discover_offer dev cfg ?st = Some ((r, c1), s1)" "tries_end dev a n (b + 70000) ?st ((r, c1), s1)"
    using offer_returns [OF assms(1) _ _ assms(2), of b ?st cfg] Suc.prems st by auto
  have le: "polls (tnic (tcp st)) \<le> polls (tnic (tcp s1))" and t1: "on_time dev a n (b + 70000) (tnic (tcp s1))"
    using o(2) st by (simp_all add: tries_end_def)
  have last: "tries_end dev a n (b + Suc m * 70000) st ((r, c1), s1)" using o(2) st by (auto simp: tries_end_def on_time_def)
  show ?case
  proof (cases "r = None \<or> r = Some HAL_OK")
    case True
    then show ?thesis using o(1) last by (cases retry) auto
  next
    case False
    then obtain x where x: "r = Some x" "x \<noteq> HAL_OK" by auto
    let ?s = "set_dhcp_status (failure_status x) s1" and ?t = "if retry then t * 2 else t"
    have s: "tcp ?s = tcp s1" by (simp add: set_dhcp_status_def)
    obtain q where q: "dhcp_attempts dev m True ?t x c1 ?s = Some q" "tries_end dev a n (b + 70000 + m * 70000) ?s q"
      using Suc.IH [of "b + 70000" ?s True ?t x c1] Suc.prems(1) t1 s by (auto simp: ac_simps)
    have "tries_end dev a n (b + Suc m * 70000) st q"
      using q(2) s le misfit_in_mono [of dev "tnic (tcp s1)" _ "tnic (tcp st)"]
      by (cases q) (auto simp: tries_end_def ac_simps)
    then show ?thesis using q(1) o(1) x by (cases retry) auto
  qed
qed

text \<open>
  C31. \<open>dhcp_init\<close> returns, whatever the network does, within 220 seconds of the clock. The clock is read one after the
  other; the statement asks that up to some reading, five minutes after the first, it never goes back and never moves by
  more than ten seconds between two readings. The call ends in a fault only when a UDP datagram to port 68 arrived during
  it that is longer than the message structure or whose options run past the end of it.
\<close>

theorem dhcp_init_returns:
  assumes "start = ticks (tnic (tcp st))" "start \<le> n" "unat (clock_ms dev start) + 300000 \<le> unat (clock_ms dev n)"
    and "\<forall>k. start \<le> k \<and> k < n \<longrightarrow>
      clock_ms dev k \<le> clock_ms dev (k + 1) \<and> unat (clock_ms dev (k + 1)) \<le> unat (clock_ms dev k) + 10000"
    and mac: "length (dev_mac dev) = 6"
  shows "\<exists>rc cfg' st'. dhcp_init dev present cfg st = Some ((rc, cfg'), st') \<and>
    ticks (tnic (tcp st')) \<le> n \<and> unat (clock_ms dev (ticks (tnic (tcp st')))) \<le> unat (clock_ms dev start) + 220000 \<and>
    (rc = None \<longrightarrow> (\<exists>k. polls (tnic (tcp st)) \<le> k \<and> k < polls (tnic (tcp st')) \<and> misfit (rx_frame dev k)))"
proof (cases "cfg = None \<or> \<not> present")
  case False
  let ?st = "set_dhcp_status ''Starting DHCP handshake'' st" and ?b = "unat (clock_ms dev start)"
  have s: "tcp ?st = tcp st" by (simp add: set_dhcp_status_def)
  have c: "steady_clock dev start n" using assms(4) by (simp add: steady_clock_def word_le_nat_alt)
  have t: "on_time dev start n ?b (tnic (tcp ?st))" using assms(1,2) by (simp add: on_time_def s)
  have "?b + 3 * 70000 < unat (clock_ms dev n)" using assms(3) by simp
  from attempts_return [OF c mac this t] obtain r c1 s1 where
      r: "dhcp_attempts dev DHCP_MAX_RETRIES False DHCP_BASE_TIMEOUT HAL_TIMEOUT zero_config ?st = Some ((r, c1), s1)"
        "tries_end dev start n (?b + 210000) ?st ((r, c1), s1)"
    by (force simp: DHCP_MAX_RETRIES_def)
  have o: "on_time dev start n (?b + 210000) (tnic (tcp s1))" and p: "polls (tnic (tcp st)) \<le> polls (tnic (tcp s1))"
      and f: "r = None \<longrightarrow> misfit_in dev (tnic (tcp st)) (tnic (tcp s1))"
    using r(2) by (simp_all add: tries_end_def s)
  have "?b + 210000 < unat (clock_ms dev n)" using assms(3) by simp
  note nx = steady_next(2) [OF c o this]
  have e: "ticks (tnic (tcp s1)) \<le> n" "unat (clock_ms dev (ticks (tnic (tcp s1)))) \<le> ?b + 220000"
      "Suc (ticks (tnic (tcp s1))) \<le> n" "unat (clock_ms dev (Suc (ticks (tnic (tcp s1))))) \<le> ?b + 220000"
    using o nx by (simp_all add: on_time_def)
  have i: "ticks (tnic (tcp_init dev ip gw mask m)) = Suc (ticks (tnic m))" for ip gw mask m
    by (simp add: tcp_init_def timer_ns_def hal_timer_ns_def Let_def)
  show ?thesis
  proof (cases r)
    case None
    then show ?thesis using False r(1) e f by (auto simp: dhcp_init_def Let_def misfit_in_def)
  next
    case (Some x)
    then show ?thesis using False r(1) e by (auto simp: dhcp_init_def Let_def set_dhcp_status_def i)
  qed
qed (use assms in \<open>auto simp: dhcp_init_def set_dhcp_status_def\<close>)

text \<open>A clock that moves on by a second with every reading, and a silent network.\<close>

definition silent_net :: netdev where
  "silent_net = sample_net\<lparr>clock_ns := (\<lambda>k. of_nat (1000000000 * min k 1000)), rx_frame := (\<lambda>_. [])\<rparr>"

lemma silent_clock: "unat (clock_ms silent_net k) = 1000 * min k 1000"
proof -
  have "1000000000 * min k 1000 \<le> 1000000000000" by simp
  then have "(1000000000 * min k 1000) mod 18446744073709551616 = 1000000000 * min k 1000" by simp
  then show ?thesis by (simp add: clock_ms_def silent_net_def unat_div unat_of_nat del: of_nat_mult)
qed

theorem dhcp_init_returns_witness:
  "\<exists>rc cfg' st'. dhcp_init silent_net True (Some zero_config) boot_state = Some ((Some rc, cfg'), st') \<and>
     ticks (tnic (tcp st')) \<le> 300"
proof -
  have m: "\<not> misfit []" by (simp add: misfit_def to_client_def)
  have b: "ticks (tnic (tcp boot_state)) = 0" by (simp add: boot_state_def idle_nic_def)
  have f: "rx_frame silent_net k = []" "length (dev_mac silent_net) = 6" for k by (simp_all add: silent_net_def sample_net_def)
  from dhcp_init_returns [of 0 boot_state 300 silent_net True "Some zero_config"] show ?thesis
    by (auto simp: b f m word_le_nat_alt silent_clock)
qed

text \<open>
  A lease counts as expired exactly from the moment its duration has passed: with a start that is not in the
  future, when the clock shows at least the start plus the duration in milliseconds, or when there is no address.
\<close>

theorem lease_expires_on_time:
  assumes "cfg_lease_start c \<le> clock_ms dev (ticks (tnic (tcp st)))"
  shows "fst (dhcp_lease_expired dev (Some c) st) \<longleftrightarrow>
    cfg_ip c = 0 \<or> unat (cfg_lease_start c) + 1000 * unat (cfg_lease_time c) \<le> unat (clock_ms dev (ticks (tnic (tcp st))))"
proof -
  let ?now = "clock_ms dev (ticks (tnic (tcp st)))"
  have "unat ((?now - cfg_lease_start c) div 1000) = (unat ?now - unat (cfg_lease_start c)) div 1000"
    using assms by (simp add: unat_div unat_sub)
  moreover have "unat (ucast (cfg_lease_time c) :: u64) = unat (cfg_lease_time c)"
    using unat_u32_lt [of "cfg_lease_time c"] by (simp add: unsigned_ucast_eq take_bit_eq_mod)
  moreover have "unat (cfg_lease_start c) \<le> unat ?now" using assms by (simp add: word_le_nat_alt)
  ultimately have "ucast (cfg_lease_time c) \<le> (?now - cfg_lease_start c) div 1000 \<longleftrightarrow>
      unat (cfg_lease_start c) + 1000 * unat (cfg_lease_time c) \<le> unat ?now"
    by (simp add: word_le_nat_alt less_eq_div_iff_mult_less_eq) linarith
  moreover have "cfg_lease_time c = 0 \<Longrightarrow> unat (cfg_lease_start c) + 1000 * unat (cfg_lease_time c) \<le> unat ?now"
    using \<open>unat (cfg_lease_start c) \<le> unat ?now\<close> by simp
  ultimately show ?thesis by (auto simp: dhcp_lease_expired_def timer_eq)
qed

theorem lease_expires_on_time_witness:
  "\<not> fst (dhcp_lease_expired sample_net (Some (zero_config\<lparr>cfg_ip := 1, cfg_lease_time := 60\<rparr>)) boot_state)"
  using lease_expires_on_time [of "zero_config\<lparr>cfg_ip := 1, cfg_lease_time := 60\<rparr>" sample_net boot_state]
  by (simp add: zero_config_def boot_state_def sample_net_def clock_ms_def)

end
