(* ===== verification/Spec2Isabelle.thy ===== *)
theory Spec2Isabelle
  imports Prelude Lib_String Checksum Scheduler Syscall Bmfs_Props Driver_Loader Keyboard Net_Config
begin

text \<open>
  AlJefra OS: the parts of the kernel that are ordinary C over hardware interfaces, as a shallow embedding.

  \<^bold>\<open>The program.\<close> The kernel (\<^verbatim>\<open>kernel/\<close>) runs tasks round robin, dispatches system calls, keeps files on a
  block device, loads built-in and signed drivers, merges keyboards and configures the network by DHCP. It uses a
  freestanding library (\<^verbatim>\<open>lib/\<close>), a network stack (\<^verbatim>\<open>net/\<close>), the package format and the Ed25519 verification of
  the store (\<^verbatim>\<open>store/\<close>), and drivers (\<^verbatim>\<open>drivers/\<close>) behind a hardware layer (\<^verbatim>\<open>hal/\<close>).

  \<^bold>\<open>Conventions.\<close> A C structure is a record, module variables are a record threaded through the operations, a fixed-width
  integer is a word (or an integer with its wrap-around written out, in the field and scalar arithmetic), and an
  array or C string is a list. A status is the value the code returns; where input can lead the code outside an
  object, that access is a fault of its own. A loop that the code does not bound is a partial function into \<open>option\<close>,
  where \<open>None\<close> is a run that never ends; no operation uses fuel. Hardware is a
  parameter: the storage driver is a pair of operations with a contract, and ports, USB transfers, received frames and
  clock readings are functions of the number of the call.

  \<^bold>\<open>Theories and sources.\<close>

  \<^item> \<open>Prelude\<close>: integer types, status codes (\<^verbatim>\<open>hal/hal.h\<close>), little-endian fields, byte tables and the lemmas
    on bytes, lists and words that all components share.

  \<^item> \<open>Lib_String\<close> (\<^verbatim>\<open>lib/string.c\<close>, \<^verbatim>\<open>lib/endian.h\<close>): the memory routines on a byte memory with their three loops,
    the string routines and byte order. \<open>memmove\<close> is correct for every overlap and alignment.

  \<^item> \<open>Checksum\<close> (\<^verbatim>\<open>net/checksum.h\<close>): the checksum loop equals the one's complement sum of RFC 1071, and a header that
    carries its checksum verifies.

  \<^item> \<open>Scheduler\<close> (\<^verbatim>\<open>kernel/sched.c\<close>) and \<open>Syscall\<close> (\<^verbatim>\<open>kernel/syscall.c\<close>): the task pool with its spin lock, every
    operation, reachability as an inductive relation, its invariant, the choice of the next task and fairness; the
    dispatcher keeps the invariant, has the effects of the call and rejects unknown numbers; it does not return only while
    the console input waits for a character.

  \<^item> \<open>Bmfs_Dir\<close>, \<open>Bmfs_Io\<close>, \<open>Bmfs\<close>, \<open>Bmfs_Store\<close>, \<open>Bmfs_Props\<close> (\<^verbatim>\<open>kernel/fs.c\<close>, \<^verbatim>\<open>kernel/fs.h\<close>): directory entries and
    block allocation, sector transfers, the public operations, and the refinement to a map from names to contents;
    after any run of the operations a new mount finds exactly the contents of that map.

  \<^item> \<open>Sha512\<close>, \<open>Field25519\<close>, \<open>Scalar25519\<close>, \<open>Curve25519\<close>, \<open>Verify\<close> (\<^verbatim>\<open>store/verify.c\<close>, \<^verbatim>\<open>store/package.h\<close>): the hash equals
    FIPS 180-4; field operations are those modulo \<open>2 ^ 255 - 19\<close>, with limb sizes that rule out overflow; reduction
    modulo the group order; the addition of points refines the affine Edwards law, and decoding gives points of the
    curve; \<open>ed25519_verify\<close> and the package header. Doubling is shown to refine the law under a size condition on its
    operands (\<open>dbl_safe\<close>), and no theorem is stated about whole scalar multiplications.

  \<^item> \<open>Driver_Loader\<close> (\<^verbatim>\<open>kernel/driver_loader.c\<close>): with a key set, a package is loaded only when its signature verifies
    and its architecture fits, and the tables stay bounded.

  \<^item> \<open>Ring\<close>, \<open>Ps2\<close>, \<open>Usb_Hid\<close>, \<open>Keyboard\<close> (\<^verbatim>\<open>drivers/input/ps2.c\<close>, \<^verbatim>\<open>drivers/input/usb_hid.c\<close>, \<^verbatim>\<open>kernel/keyboard.c\<close>): the
    interface \<open>bounded_queue\<close> and its array implementation \<open>array_ring\<close>, interpreted for the rings of both drivers and
    of the keyboard layer; scancode and report decoding, and delivery through the layers.

  \<^item> \<open>Net\<close>, \<open>Dhcp\<close>, \<open>Tcp\<close>, \<open>Dns\<close>, \<open>Net_Config\<close> (\<^verbatim>\<open>net/dhcp.c\<close>, \<^verbatim>\<open>net/tcp.c\<close>, \<^verbatim>\<open>net/dns.c\<close>, \<^verbatim>\<open>kernel/dhcp.c\<close>): device,
    clock and headers; the DHCP exchange; connecting, sending, receiving and closing; the resolver; and the kernel's
    configuration, which composes the exchange with the set-up of the TCP client over one device. The lemmas show that
    what is sent is accepted by the other end with checksums that verify, that results rest on frames that arrived
    during the call, in order and with the addresses, ports and identifiers of the call, that parsers recover what
    well-formed messages carry, and that the waits named under Bounds end.

  \<^bold>\<open>Bounds.\<close> Sizes are those of the code: 64 tasks and directory entries, 32 loaded drivers, three attempts for ARP, SYN and
  DHCP, five for a closing connection. The waits of \<open>tcp_recv\<close> and of the DHCP exchange end under a hypothesis on
  the clock, which a clock that never goes back satisfies and the witnesses instantiate: for \<open>tcp_recv\<close>, that the deadline
  passes for good and a reading before it is followed by one 200 ms later (\<open>clock_covers\<close>); for DHCP, that over five
  minutes the clock is monotonic and moves by at most ten seconds between readings (\<open>steady_clock\<close>). For \<open>tcp_connect\<close> and
  \<open>dns_resolve\<close> the theorems say what holds when they return, and that they return is not proved.

  \<^bold>\<open>Faults the model exposes.\<close> Some theorems state what the code does although it does not mean to: a file created in a full
  directory hides others, package bounds wrap at 32 bits, a long DHCP reply overruns its structure, and
  \<open>tcp_recv\<close> acknowledges bytes it drops. Copies past a buffer are results of their own (\<open>Overrun\<close> and \<open>Fault\<close> in DHCP,
  \<open>Dns_fault\<close>, \<open>Past_buffer\<close> in \<open>tcp_recv\<close>). Correctness theorems carry the hypotheses that exclude these cases.

  \<^bold>\<open>Not modelled.\<close> Console output everywhere. The architecture ports, the assembly kernel, and the bus, display, GPU,
  storage, network and xHCI drivers, which are register and DMA access; they appear as parameters. TLS and the programs
  beside it wrap a third-party library. The desktop, the shell and the AI services produce pixels and text
  over the modelled calls. Memory protection
  sets page tables and control registers. Secure boot, the kernel log, updates, the driver catalogue and installation are
  ordinary C over modelled functions that this development does not cover.
\<close>

end
